(* ===== verification/Prelude.thy ===== *)
theory Prelude
  imports Main "HOL-Library.Word" "HOL-Library.Char_ord" "HOL-Library.List_Lexorder"
begin

text \<open>
  The vocabulary the component theories share: machine integers, the ways a C++ operation can
  fail, computations on a mutable state that can fail, the pieces of the C and C++ standard
  libraries the sources call (character classification, \<open>substr\<close>, decimal output,
  \<open>std::map\<close> as an ordered association list), the interface of an ordered map as a locale, and
  reachability with the invariant rule as a locale.
\<close>

section \<open>Machine integers\<close>

type_synonym u32 = "32 word"
type_synonym i32 = "32 word"
type_synonym u64 = "64 word"

text \<open>Indices of type \<open>size_t\<close> are natural numbers; subtraction wraps around at \<open>2 ^ 64\<close>.\<close>

definition size_sub :: "nat \<Rightarrow> nat \<Rightarrow> nat" where
  "size_sub a b = unat ((of_nat a :: u64) - of_nat b)"

lemma size_sub_less:
  assumes "b \<le> a" and "a < 2 ^ 64"
  shows "size_sub a b = a - b"
proof -
  have "(of_nat a :: u64) - of_nat b = of_nat (a - b)"
    using assms(1) by simp
  moreover have "unat (of_nat (a - b) :: u64) = (a - b) mod 2 ^ 64"
    by (simp add: unat_of_nat)
  ultimately show ?thesis
    using assms by (simp add: size_sub_def)
qed

lemma u64_less_Suc:
  fixes a :: u64
  assumes "a \<noteq> -1"
  shows "a < a + 1"
proof -
  have "unat a \<noteq> unat (-1 :: u64)" using assms by (simp only: word_unat_eq_iff not_False_eq_True)
  moreover have "unat (-1 :: u64) = 2 ^ 64 - 1" by (simp add: unsigned_minus_1_eq_mask mask_eq_exp_minus_1)
  moreover have "unat a < 2 ^ 64" using unsigned_less [of a] by simp
  ultimately have "unat a + 1 < 2 ^ 64" by simp
  then have "unat (a + 1) = unat a + 1" by (simp add: unat_word_ariths)
  then show ?thesis by (simp add: word_less_nat_alt)
qed

section \<open>Failure\<close>

text \<open>
  What ends an operation early. \<open>Throw\<close> is a C++ exception, which a handler can catch; the others
  end the process or the thread: a failed \<open>assert\<close>, a call through a null pointer, a lock the
  thread already holds, and what has no defined result (a read of an array that was never written, a
  call on an object that was destroyed, a misused handle).
\<close>

datatype exn =
    out_of_range
  | invalid_argument string
  | logic_error string
  | bad_lexical_cast
  | yaml_exception string
  | bad_function_call
  | non_std_exception

datatype error =
    Throw exn
  | Abort string
  | NullDeref
  | Deadlock
  | Indeterminate

type_synonym 'a result = "error + 'a"

text \<open>A computation on a mutable state: the state survives a failure, as it does in C++.\<close>

type_synonym ('s, 'a) comp = "'s \<Rightarrow> 'a result \<times> 's"

definition ret :: "'a \<Rightarrow> ('s, 'a) comp" where
  "ret a s = (Inr a, s)"

definition raise :: "error \<Rightarrow> ('s, 'a) comp" where
  "raise e s = (Inl e, s)"

definition bindc :: "('s, 'a) comp \<Rightarrow> ('a \<Rightarrow> ('s, 'b) comp) \<Rightarrow> ('s, 'b) comp" where
  "bindc m f s = (case m s of (Inl e, s') \<Rightarrow> (Inl e, s') | (Inr a, s') \<Rightarrow> f a s')"

definition lift_result :: "'a result \<Rightarrow> ('s, 'a) comp" where
  "lift_result r s = (r, s)"

definition modify :: "('s \<Rightarrow> 's) \<Rightarrow> ('s, unit) comp" where
  "modify g s = (Inr (), g s)"

text \<open>A range-based \<open>for\<close> over a list: the first failure leaves the loop.\<close>

fun for_each :: "('a \<Rightarrow> ('s, unit) comp) \<Rightarrow> 'a list \<Rightarrow> ('s, unit) comp" where
  "for_each f [] s = (Inr (), s)"
| "for_each f (x # xs) s = (case f x s of (Inl e, s') \<Rightarrow> (Inl e, s') | (Inr _, s') \<Rightarrow> for_each f xs s')"

named_theorems comp_simps \<open>unfolding of the state and failure combinators\<close>

lemma ret_apply [comp_simps]: "ret a s = (Inr a, s)"
  by (simp add: ret_def)

lemma raise_apply [comp_simps]: "raise e s = (Inl e, s)"
  by (simp add: raise_def)

lemma bindc_Inr [comp_simps]: "m s = (Inr a, s') \<Longrightarrow> bindc m f s = f a s'"
  by (simp add: bindc_def)

lemma bindc_Inl [comp_simps]: "m s = (Inl e, s') \<Longrightarrow> bindc m f s = (Inl e, s')"
  by (simp add: bindc_def)

lemma lift_result_apply [comp_simps]: "lift_result r s = (r, s)"
  by (simp add: lift_result_def)

lemma modify_apply [comp_simps]: "modify g s = (Inr (), g s)"
  by (simp add: modify_def)

lemma bindc_InrE:
  assumes "bindc m f s = (Inr b, t)"
  obtains a s' where "m s = (Inr a, s')" and "f a s' = (Inr b, t)"
  using assms by (auto simp: bindc_def split: prod.splits sum.splits)

lemma bindc_inv:
  assumes "P (snd (m s))" and "\<And>a s'. m s = (Inr a, s') \<Longrightarrow> P s' \<Longrightarrow> P (snd (f a s'))"
  shows "P (snd (bindc m f s))"
  using assms by (auto simp: bindc_def split: prod.splits sum.splits)

text \<open>The loop keeps whatever every pass of its body keeps, whether or not it fails.\<close>

lemma for_each_inv:
  assumes "\<And>x s. x \<in> set xs \<Longrightarrow> P s \<Longrightarrow> P (snd (f x s))" and "P s"
  shows "P (snd (for_each f xs s))"
  using assms
proof (induction xs arbitrary: s)
  case Nil
  then show ?case by simp
next
  case (Cons x xs)
  have "P (snd (f x s))" using Cons.prems by simp
  then show ?case
    using Cons.IH [of "snd (f x s)"] Cons.prems(1)
    by (auto split: prod.splits sum.splits)
qed

text \<open>A loop whose passes all succeed under an invariant succeeds.\<close>

lemma for_each_Inr:
  assumes "\<And>x s. x \<in> set xs \<Longrightarrow> P s \<Longrightarrow> \<exists>s'. f x s = (Inr (), s') \<and> P s'" and "P s"
  shows "\<exists>s'. for_each f xs s = (Inr (), s') \<and> P s'"
  using assms
proof (induction xs arbitrary: s)
  case Nil
  then show ?case by simp
next
  case (Cons x xs)
  then obtain s1 where s1: "f x s = (Inr (), s1)" "P s1" by fastforce
  with Cons show ?case by simp
qed

section \<open>Characters and strings\<close>

definition c_isalpha :: "char \<Rightarrow> bool" where
  "c_isalpha c \<longleftrightarrow> (CHR ''A'' \<le> c \<and> c \<le> CHR ''Z'') \<or> (CHR ''a'' \<le> c \<and> c \<le> CHR ''z'')"

definition c_tolower :: "char \<Rightarrow> char" where
  "c_tolower c = (if CHR ''A'' \<le> c \<and> c \<le> CHR ''Z'' then char_of (of_char c + 32 :: nat) else c)"

text \<open>\<open>std::string::substr\<close>: throws when the position is past the end, and cuts the length.\<close>

definition substr :: "string \<Rightarrow> nat \<Rightarrow> nat \<Rightarrow> string result" where
  "substr s pos len = (if length s < pos then Inl (Throw out_of_range) else Inr (take len (drop pos s)))"

text \<open>\<open>s.find_first_not_of(cs) != npos\<close>.\<close>

definition has_char_not_of :: "string \<Rightarrow> string \<Rightarrow> bool" where
  "has_char_not_of cs s \<longleftrightarrow> (\<exists>c \<in> set s. c \<notin> set cs)"

text \<open>\<open>s.c_str()\<close> read as a C string.\<close>

definition c_str :: "string \<Rightarrow> string" where
  "c_str s = takeWhile (\<lambda>c. c \<noteq> char_of (0 :: nat)) s"

text \<open>What \<open>std::ostream\<close> prints for an integer.\<close>

fun show_nat :: "nat \<Rightarrow> string" where
  "show_nat n = (if n < 10 then [char_of (48 + n)] else show_nat (n div 10) @ [char_of (48 + n mod 10)])"

declare show_nat.simps [simp del]

lemma digit_chars:
  "char_of (48 :: nat) = CHR ''0''" "char_of (49 :: nat) = CHR ''1''" "char_of (50 :: nat) = CHR ''2''"
  "char_of (51 :: nat) = CHR ''3''" "char_of (52 :: nat) = CHR ''4''" "char_of (53 :: nat) = CHR ''5''"
  "char_of (54 :: nat) = CHR ''6''" "char_of (55 :: nat) = CHR ''7''" "char_of (56 :: nat) = CHR ''8''"
  "char_of (57 :: nat) = CHR ''9''"
  by (simp_all add: char_of_def bit_0)

definition show_int :: "int \<Rightarrow> string" where
  "show_int k = (if k < 0 then CHR ''-'' # show_nat (nat (- k)) else show_nat (nat k))"

abbreviation newline :: string where
  "newline \<equiv> [char_of (10 :: nat)]"

abbreviation tab :: string where
  "tab \<equiv> [char_of (9 :: nat)]"

section \<open>Ordered maps\<close>

text \<open>
  \<open>std::map\<close> is an association list in strictly ascending key order; \<open>map_of\<close> is \<open>find\<close>,
  \<open>omap_put\<close> is \<open>m[k] = v\<close>, \<open>omap_erase\<close> is \<open>erase(k)\<close>.
\<close>

abbreviation omap_ok :: "('k::linorder \<times> 'v) list \<Rightarrow> bool" where
  "omap_ok m \<equiv> sorted_wrt (<) (map fst m)"

fun omap_put :: "'k::linorder \<Rightarrow> 'v \<Rightarrow> ('k \<times> 'v) list \<Rightarrow> ('k \<times> 'v) list" where
  "omap_put k v [] = [(k, v)]"
| "omap_put k v ((a, b) # m) =
     (if k < a then (k, v) # (a, b) # m
      else if k = a then (k, v) # m
      else (a, b) # omap_put k v m)"

definition omap_erase :: "'k::linorder \<Rightarrow> ('k \<times> 'v) list \<Rightarrow> ('k \<times> 'v) list" where
  "omap_erase k m = filter (\<lambda>p. fst p \<noteq> k) m"

lemma map_of_omap_put [simp]: "map_of (omap_put k v m) = (map_of m)(k \<mapsto> v)"
  by (induction m) auto

lemma fst_omap_put [simp]: "fst ` set (omap_put k v m) = insert k (fst ` set m)"
  by (simp add: dom_map_of_conv_image_fst [symmetric])

lemma omap_ok_put: "omap_ok m \<Longrightarrow> omap_ok (omap_put k v m)"
proof (induction m)
  case Nil
  then show ?case by simp
next
  case (Cons p m)
  obtain a b where p: "p = (a, b)" by (cases p)
  have keys: "set (map fst (omap_put k v m)) = insert k (set (map fst m))" by simp
  from Cons p show ?case by (auto simp del: set_map simp add: keys)
qed

lemma map_of_omap_erase [simp]: "map_of (omap_erase k m) = (map_of m)(k := None)"
  by (induction m) (auto simp: omap_erase_def)

lemma omap_ok_erase: "omap_ok m \<Longrightarrow> omap_ok (omap_erase k m)"
  by (simp add: omap_erase_def sorted_wrt_map sorted_wrt_filter)

locale ordered_map =
  fixes find :: "'m \<Rightarrow> 'k \<Rightarrow> 'v option"
    and put :: "'k \<Rightarrow> 'v \<Rightarrow> 'm \<Rightarrow> 'm"
    and erase :: "'k \<Rightarrow> 'm \<Rightarrow> 'm"
    and ok :: "'m \<Rightarrow> bool"
  assumes find_put: "find (put k v m) = (find m)(k \<mapsto> v)"
    and find_erase: "find (erase k m) = (find m)(k := None)"
    and ok_put: "ok m \<Longrightarrow> ok (put k v m)"
    and ok_erase: "ok m \<Longrightarrow> ok (erase k m)"
begin

lemma find_put_other: "k' \<noteq> k \<Longrightarrow> find (put k v m) k' = find m k'"
  by (simp add: find_put)

lemma put_extends: "find m k = None \<Longrightarrow> find m \<subseteq>\<^sub>m find (put k v m)"
  by (auto simp: find_put map_le_def)

lemma erase_put: "find m k = None \<Longrightarrow> find (erase k (put k v m)) = find m"
  by (auto simp: find_put find_erase)

end

interpretation om: ordered_map map_of omap_put omap_erase omap_ok
  by unfold_locales (simp_all add: omap_ok_put omap_ok_erase)

section \<open>Reachable states\<close>

inductive reachable :: "('s \<Rightarrow> bool) \<Rightarrow> ('s \<Rightarrow> 's \<Rightarrow> bool) \<Rightarrow> 's \<Rightarrow> bool"
  for init :: "'s \<Rightarrow> bool" and step :: "'s \<Rightarrow> 's \<Rightarrow> bool" where
  reach_init: "init s \<Longrightarrow> reachable init step s"
| reach_step: "reachable init step s \<Longrightarrow> step s t \<Longrightarrow> reachable init step t"

locale transition_system =
  fixes init :: "'s \<Rightarrow> bool" and step :: "'s \<Rightarrow> 's \<Rightarrow> bool" and inv :: "'s \<Rightarrow> bool"
  assumes init_inv: "init s \<Longrightarrow> inv s"
    and step_inv: "step s t \<Longrightarrow> inv s \<Longrightarrow> inv t"
begin

lemma reach_inv: "reachable init step s \<Longrightarrow> inv s"
  by (induction rule: reachable.induct) (auto intro: init_inv step_inv)

lemma steps_inv: "step\<^sup>*\<^sup>* s t \<Longrightarrow> inv s \<Longrightarrow> inv t"
  by (induction rule: rtranclp_induct) (auto intro: step_inv)

lemma reach_steps: "reachable init step s \<Longrightarrow> step\<^sup>*\<^sup>* s t \<Longrightarrow> reachable init step t"
  by (erule rtranclp_induct) (auto intro: reach_step)

end

end
