(* ===== verification/LogLevel.thy ===== *)
theory LogLevel
  imports Prelude
begin

text \<open>
  \<open>LogLevel\<close> of \<open>src/sylar/log.h\<close> and \<open>src/sylar/log.cc\<close>: the levels, their order, and their
  conversion to and from text. Besides the six enumerators the program builds one more value of
  the enumeration type, the cast \<open>(LogLevel::Level)100\<close> with which a removed logger is silenced
  (\<open>log.cc\<close>, line 408).
\<close>

datatype Level = UNKNOW | DEBUG | INFO | WARN | ERROR | FATAL | Level100

fun level_val :: "Level \<Rightarrow> nat" where
  "level_val UNKNOW = 0"
| "level_val DEBUG = 1"
| "level_val INFO = 2"
| "level_val WARN = 3"
| "level_val ERROR = 4"
| "level_val FATAL = 5"
| "level_val Level100 = 100"

lemma level_val_inject: "level_val a = level_val b \<longleftrightarrow> a = b"
  by (cases a; cases b) auto

text \<open>Enumeration values compare as the integers they stand for.\<close>

instantiation Level :: linorder
begin

definition less_eq_Level :: "Level \<Rightarrow> Level \<Rightarrow> bool" where
  "less_eq_Level a b \<longleftrightarrow> level_val a \<le> level_val b"

definition less_Level :: "Level \<Rightarrow> Level \<Rightarrow> bool" where
  "less_Level a b \<longleftrightarrow> level_val a < level_val b"

instance
  by standard (auto simp: less_eq_Level_def less_Level_def level_val_inject)

end

lemmas Level_order = less_eq_Level_def less_Level_def

fun LogLevel_ToString :: "Level \<Rightarrow> string" where
  "LogLevel_ToString DEBUG = ''DEBUG''"
| "LogLevel_ToString INFO = ''INFO''"
| "LogLevel_ToString WARN = ''WARN''"
| "LogLevel_ToString ERROR = ''ERROR''"
| "LogLevel_ToString FATAL = ''FATAL''"
| "LogLevel_ToString _ = ''UNKNOW''"

definition LogLevel_FromString :: "string \<Rightarrow> Level" where
  "LogLevel_FromString str =
     (if str = ''debug'' then DEBUG
      else if str = ''info'' then INFO
      else if str = ''warn'' then WARN
      else if str = ''error'' then ERROR
      else if str = ''fatal'' then FATAL
      else if str = ''DEBUG'' then DEBUG
      else if str = ''INFO'' then INFO
      else if str = ''WARN'' then WARN
      else if str = ''ERROR'' then ERROR
      else if str = ''FATAL'' then FATAL
      else UNKNOW)"

lemma FromString_ToString: "LogLevel_FromString (LogLevel_ToString l) = (if l = Level100 then UNKNOW else l)"
  by (cases l) (simp_all add: LogLevel_FromString_def)

lemma FromString_not_100: "LogLevel_FromString s \<noteq> Level100"
  by (simp add: LogLevel_FromString_def)

lemma FromString_Nil [simp]: "LogLevel_FromString [] = UNKNOW"
  by (simp add: LogLevel_FromString_def)

end
