(* ===== verification/LogEvent.thy ===== *)
theory LogEvent
  imports LogLevel
begin

text \<open>
  \<open>LogEvent\<close> of \<open>src/sylar/log.h\<close> and \<open>src/sylar/log.cc\<close>. Pointers to shared objects are addresses
  in the object store of theory \<open>LogStore\<close>; the string stream \<open>m_ss\<close> is the text written to it.
\<close>

type_synonym addr = nat

record LogEvent =
  ev_file :: string
  ev_line :: i32
  ev_elapse :: u32
  ev_threadID :: u32
  ev_fiberID :: u32
  ev_time :: u64
  ev_ss :: string
  ev_logger :: addr
  ev_level :: Level
  ev_threadName :: string

definition LogEvent_new ::
    "addr \<Rightarrow> Level \<Rightarrow> string \<Rightarrow> i32 \<Rightarrow> u32 \<Rightarrow> u32 \<Rightarrow> u32 \<Rightarrow> u64 \<Rightarrow> string \<Rightarrow> LogEvent" where
  "LogEvent_new logger level file line elapse threadID fiberID time thread_name =
     \<lparr>ev_file = file, ev_line = line, ev_elapse = elapse, ev_threadID = threadID,
      ev_fiberID = fiberID, ev_time = time, ev_ss = [], ev_logger = logger, ev_level = level,
      ev_threadName = thread_name\<rparr>"

text \<open>\<open>event->getSS() << text\<close>.\<close>

definition LogEvent_getSS_put :: "string \<Rightarrow> LogEvent \<Rightarrow> LogEvent" where
  "LogEvent_getSS_put text ev = ev\<lparr>ev_ss := ev_ss ev @ text\<rparr>"

text \<open>
  \<open>LogEvent::format(fmt, ...)\<close>. \<open>vasprintf\<close> stands for the C function on the format and its
  arguments: \<open>None\<close> is the return value \<open>-1\<close>.
\<close>

definition LogEvent_format :: "(string \<Rightarrow> 'va \<Rightarrow> string option) \<Rightarrow> string \<Rightarrow> 'va \<Rightarrow> LogEvent \<Rightarrow> LogEvent" where
  "LogEvent_format vasprintf fmt al ev =
     (case vasprintf fmt al of
        None \<Rightarrow> ev
      | Some buf \<Rightarrow> ev\<lparr>ev_ss := ev_ss ev @ buf\<rparr>)"

end
