(* ===== verification/LogFormatter.thy ===== *)
theory LogFormatter
  imports LogEvent
begin

text \<open>
  \<open>LogFormatter\<close> of \<open>src/sylar/log.h\<close> and \<open>src/sylar/log.cc\<close>: the format items, the pattern parser
  \<open>LogFormatter::init\<close> with its two nested loops over string indices, and \<open>LogFormatter::format\<close>.
  The results are that the constructor returns for every pattern, an exact description of the
  patterns it flags as erroneous, and that it reads back the items a pattern was printed from.
\<close>

section \<open>Format items\<close>

datatype FormatItem =
    MessageFormatItem
  | LevelFormatItem
  | ElapseFormatItem
  | NameFormatItem
  | ThreadFormatItem
  | FiberFormatItem
  | ThreadNameFormatItem
  | DateTimeFormatItem string
  | FilenameFormatItem
  | LineFormatItem
  | NewLineFormatItem
  | StringFormatItem string
  | TabFormatItem

text \<open>The constructor of \<open>DateTimeFormatItem\<close> replaces an empty format.\<close>

definition DateTimeFormatItem_new :: "string \<Rightarrow> FormatItem" where
  "DateTimeFormatItem_new format =
     DateTimeFormatItem (if format = [] then ''%Y-%m-%d %H:%M:%S'' else format)"

text \<open>
  The virtual method \<open>format\<close>, by item. \<open>strftime_local\<close> stands for \<open>localtime_r\<close> followed by
  \<open>strftime\<close> into the buffer of 64 bytes, \<open>None\<close> when they leave the buffer unwritten, which the
  code then prints all the same; \<open>logger_name\<close> reads a logger's name in the object store. The
  argument \<open>logger\<close> is not read by any item.
\<close>

fun FormatItem_format ::
    "(string \<Rightarrow> int \<Rightarrow> string option) \<Rightarrow> (addr \<Rightarrow> string option) \<Rightarrow> addr \<Rightarrow> Level \<Rightarrow> LogEvent
     \<Rightarrow> FormatItem \<Rightarrow> string result" where
  "FormatItem_format tm nm logger level ev MessageFormatItem = Inr (ev_ss ev)"
| "FormatItem_format tm nm logger level ev LevelFormatItem = Inr (LogLevel_ToString level)"
| "FormatItem_format tm nm logger level ev ElapseFormatItem = Inr (show_nat (unat (ev_elapse ev)))"
| "FormatItem_format tm nm logger level ev NameFormatItem =
     (case nm (ev_logger ev) of None \<Rightarrow> Inl NullDeref | Some n \<Rightarrow> Inr n)"
| "FormatItem_format tm nm logger level ev ThreadFormatItem = Inr (show_nat (unat (ev_threadID ev)))"
| "FormatItem_format tm nm logger level ev FiberFormatItem = Inr (show_nat (unat (ev_fiberID ev)))"
| "FormatItem_format tm nm logger level ev ThreadNameFormatItem = Inr (ev_threadName ev)"
| "FormatItem_format tm nm logger level ev (DateTimeFormatItem m_format) =
     (case tm (c_str m_format) (sint (ev_time ev)) of
        None \<Rightarrow> Inl Indeterminate
      | Some buf \<Rightarrow> Inr buf)"
| "FormatItem_format tm nm logger level ev FilenameFormatItem = Inr (ev_file ev)"
| "FormatItem_format tm nm logger level ev LineFormatItem = Inr (show_int (sint (ev_line ev)))"
| "FormatItem_format tm nm logger level ev NewLineFormatItem = Inr newline"
| "FormatItem_format tm nm logger level ev (StringFormatItem m_string) = Inr m_string"
| "FormatItem_format tm nm logger level ev TabFormatItem = Inr tab"

text \<open>The table \<open>s_format_item\<close>: the class built for each key.\<close>

definition s_format_item :: "(string \<times> (string \<Rightarrow> FormatItem)) list" where
  "s_format_item =
     [(''m'', \<lambda>fmt. MessageFormatItem), (''p'', \<lambda>fmt. LevelFormatItem),
      (''r'', \<lambda>fmt. ElapseFormatItem), (''c'', \<lambda>fmt. NameFormatItem),
      (''t'', \<lambda>fmt. ThreadFormatItem), (''F'', \<lambda>fmt. FiberFormatItem),
      (''n'', \<lambda>fmt. NewLineFormatItem), (''d'', DateTimeFormatItem_new),
      (''f'', \<lambda>fmt. FilenameFormatItem), (''l'', \<lambda>fmt. LineFormatItem),
      (''T'', \<lambda>fmt. TabFormatItem), (''N'', \<lambda>fmt. ThreadNameFormatItem)]"

section \<open>The pattern parser\<close>

abbreviation item_char :: "char \<Rightarrow> bool" where
  "item_char c \<equiv> c_isalpha c \<or> c = CHR ''{'' \<or> c = CHR ''}''"

text \<open>
  The inner \<open>while\<close> loop, from index \<open>n\<close>, for the item that starts at index \<open>i\<close>: the index where
  it stops, with the values of \<open>fmt_status\<close>, \<open>str\<close> and \<open>fmt\<close> there.
\<close>

function scan_item ::
    "string \<Rightarrow> nat \<Rightarrow> nat \<Rightarrow> nat \<Rightarrow> nat \<Rightarrow> string \<Rightarrow> string \<Rightarrow> (nat \<times> nat \<times> string \<times> string) result" where
  "scan_item p i n fmt_status fmt_begin str fmt =
     (if n < length p then
        if \<not> c_isalpha (p ! n) \<and> p ! n \<noteq> CHR ''{'' \<and> p ! n \<noteq> CHR ''}'' then
          Inr (n, fmt_status, str, fmt)
        else if fmt_status = 0 \<and> p ! n = CHR ''{'' then
          (case substr p (i + 1) (n - i - 1) of
             Inl e \<Rightarrow> Inl e
           | Inr str' \<Rightarrow> scan_item p i (n + 1) 1 (n + 1) str' fmt)
        else if fmt_status = 1 \<and> p ! n = CHR ''}'' then
          (case substr p (fmt_begin + 1) (size_sub (size_sub n fmt_begin) 1) of
             Inl e \<Rightarrow> Inl e
           | Inr fmt' \<Rightarrow> Inr (n + 1, 0, str, fmt'))
        else scan_item p i (n + 1) fmt_status fmt_begin str fmt
      else Inr (n, fmt_status, str, fmt))"
  by pat_completeness auto
termination
  by (relation "measure (\<lambda>(p, i, n, _). length p - n)") auto

declare scan_item.simps [simp del]

lemma scan_item_ge:
  "scan_item p i n st fb str fmt = Inr (n', st', str', fmt') \<Longrightarrow> n \<le> n'"
proof (induction p i n st fb str fmt rule: scan_item.induct)
  case (1 p i n st fb str fmt)
  show ?case
    using "1.prems" "1.IH"
    by (subst (asm) scan_item.simps) (fastforce split: if_splits sum.splits)
qed

text \<open>A literal collected so far becomes an entry of \<open>vec\<close> before the next item.\<close>

type_synonym vec_entry = "string \<times> string \<times> nat"

definition flush_nstr :: "vec_entry list \<Rightarrow> string \<Rightarrow> vec_entry list" where
  "flush_nstr vec nstr = (if nstr \<noteq> [] then vec @ [(nstr, [], 0)] else vec)"

text \<open>
  The outer \<open>for\<close> loop of \<open>LogFormatter::init\<close>: \<open>i = n - 1\<close> and the loop's own increment
  continue at \<open>n\<close>.
\<close>

function init_loop ::
    "string \<Rightarrow> nat \<Rightarrow> vec_entry list \<Rightarrow> string \<Rightarrow> bool \<Rightarrow> (vec_entry list \<times> string \<times> bool) result" where
  "init_loop p i vec nstr m_error =
     (if i < length p then
        if p ! i \<noteq> CHR ''%'' then init_loop p (i + 1) vec (nstr @ [p ! i]) m_error
        else if i + 1 < length p \<and> p ! (i + 1) = CHR ''%'' then
          init_loop p (i + 1) vec (nstr @ ''%'') m_error
        else
          (case scan_item p i (i + 1) 0 0 [] [] of
             Inl e \<Rightarrow> Inl e
           | Inr (n, fmt_status, str, fmt) \<Rightarrow>
               if fmt_status = 0 then
                 (case substr p (i + 1) (n - i - 1) of
                    Inl e \<Rightarrow> Inl e
                  | Inr str' \<Rightarrow> init_loop p n (flush_nstr vec nstr @ [(str', fmt, 1)]) [] m_error)
               else if fmt_status = 1 then
                 init_loop p (i + 1) (vec @ [(''<<pattern_error>>'', fmt, 0)]) nstr True
               else if fmt_status = 2 then
                 init_loop p n (flush_nstr vec nstr @ [(str, fmt, 1)]) [] m_error
               else init_loop p (i + 1) vec nstr m_error)
      else Inr (vec, nstr, m_error))"
  by pat_completeness auto
termination
  by (relation "measure (\<lambda>(p, i, _). length p - i)") (auto dest: scan_item_ge)

declare init_loop.simps [simp del]

text \<open>The last loop: an entry of type 0 is literal text, any other is looked up in the table.\<close>

definition make_item :: "vec_entry \<Rightarrow> FormatItem \<times> bool" where
  "make_item e =
     (case e of (str, fmt, type) \<Rightarrow>
        if type = 0 then (StringFormatItem str, False)
        else
          (case map_of s_format_item str of
             None \<Rightarrow> (StringFormatItem (''<<error_format %'' @ str @ ''>>''), True)
           | Some mk \<Rightarrow> (mk fmt, False)))"

record LogFormatter =
  lf_pattern :: string
  lf_items :: "FormatItem list"
  lf_error :: bool

definition LogFormatter_new :: "string \<Rightarrow> LogFormatter result" where
  "LogFormatter_new pattern =
     (case init_loop pattern 0 [] [] False of
        Inl e \<Rightarrow> Inl e
      | Inr (vec, nstr, m_error) \<Rightarrow>
          (let items = map make_item (flush_nstr vec nstr) in
           Inr \<lparr>lf_pattern = pattern, lf_items = map fst items,
                lf_error = (m_error \<or> list_ex snd items)\<rparr>))"

section \<open>Formatting an event\<close>

fun format_loop ::
    "(string \<Rightarrow> int \<Rightarrow> string option) \<Rightarrow> (addr \<Rightarrow> string option) \<Rightarrow> addr \<Rightarrow> Level \<Rightarrow> LogEvent
     \<Rightarrow> FormatItem list \<Rightarrow> string \<Rightarrow> string result" where
  "format_loop tm nm logger level ev [] ss = Inr ss"
| "format_loop tm nm logger level ev (it # items) ss =
     (case FormatItem_format tm nm logger level ev it of
        Inl e \<Rightarrow> Inl e
      | Inr out \<Rightarrow> format_loop tm nm logger level ev items (ss @ out))"

definition LogFormatter_format ::
    "(string \<Rightarrow> int \<Rightarrow> string option) \<Rightarrow> (addr \<Rightarrow> string option) \<Rightarrow> LogFormatter \<Rightarrow> addr \<Rightarrow> Level
     \<Rightarrow> LogEvent \<Rightarrow> string result" where
  "LogFormatter_format tm nm lf logger level ev = format_loop tm nm logger level ev (lf_items lf) []"

section \<open>The parser returns, and what it flags\<close>

text \<open>
  What the inner loop guarantees when it stops at \<open>n'\<close>: it only passed letters and braces; an item
  left open passed an opening brace; and when it passed none, it stopped at the end of the run.
\<close>


definition scan_post :: "string \<Rightarrow> nat \<Rightarrow> nat \<Rightarrow> nat \<Rightarrow> nat \<Rightarrow> bool" where
  "scan_post p n st n' st' \<longleftrightarrow>
     n' \<le> length p \<and> (st' = 0 \<or> st' = 1) \<and>
     (\<forall>k. n \<le> k \<and> k < n' \<longrightarrow> item_char (p ! k)) \<and>
     (st = 0 \<and> st' = 1 \<longrightarrow> (\<exists>k. n \<le> k \<and> k < n' \<and> p ! k = CHR ''{'')) \<and>
     (st = 0 \<and> (\<forall>k. n \<le> k \<and> k < n' \<longrightarrow> p ! k \<noteq> CHR ''{'') \<longrightarrow>
        n' = length p \<or> \<not> item_char (p ! n'))"

lemma le_iff_eq_or_Suc: "n \<le> k \<longleftrightarrow> k = n \<or> n + 1 \<le> (k::nat)"
  by auto

lemma scan_post_char:
  assumes "scan_post p (n + 1) st n' st'" and "item_char (p ! n)" and "st = 0 \<Longrightarrow> p ! n \<noteq> CHR ''{''"
  shows "scan_post p n st n' st'"
  using assms unfolding scan_post_def le_iff_eq_or_Suc [of n] by blast

lemma scan_post_brace:
  assumes "scan_post p (n + 1) 1 n' st'" and "p ! n = CHR ''{''" and "n < n'"
  shows "scan_post p n 0 n' st'"
  using assms unfolding scan_post_def le_iff_eq_or_Suc [of n] by blast

lemma scan_item_post:
  assumes "scan_item p i n st fb str fmt = Inr (n', st', str', fmt')"
    and "n \<le> length p" and "st = 0 \<or> st = 1"
  shows "scan_post p n st n' st'"
  using assms
proof (induction p i n st fb str fmt rule: scan_item.induct)
  case (1 p i n st fb str fmt)
  consider (stop) "n = length p \<or> \<not> item_char (p ! n)" "n \<le> length p"
    | (brace) "n < length p" "st = 0" "p ! n = CHR ''{''"
    | (closing) "n < length p" "st = 1" "p ! n = CHR ''}''"
    | (other) "n < length p" "item_char (p ! n)" "\<not> (st = 0 \<and> p ! n = CHR ''{'')"
        "\<not> (st = 1 \<and> p ! n = CHR ''}'')"
    using "1.prems"(2) by linarith
  then show ?case
  proof cases
    case stop
    then have "scan_item p i n st fb str fmt = Inr (n, st, str, fmt)"
      by (subst scan_item.simps) auto
    with "1.prems" stop show ?thesis by (auto simp: scan_post_def)
  next
    case brace
    then obtain s where s: "substr p (i + 1) (n - i - 1) = Inr s"
      and rec: "scan_item p i (n + 1) 1 (n + 1) s fmt = Inr (n', st', str', fmt')"
      using "1.prems" by (subst (asm) scan_item.simps) (auto split: sum.splits)
    from brace s rec have "scan_post p (n + 1) 1 n' st'"
      by (intro "1.IH"(1)) auto
    moreover from scan_item_ge [OF rec] have "n < n'" by simp
    ultimately show ?thesis using brace by (simp add: scan_post_brace)
  next
    case closing
    with "1.prems"(1) have "n' = n + 1 \<and> st' = 0"
      by (subst (asm) scan_item.simps) (auto split: sum.splits)
    moreover have "n \<le> k \<and> k < n + 1 \<longleftrightarrow> k = n" for k by arith
    ultimately show ?thesis using closing by (simp add: scan_post_def)
  next
    case other
    then have rec: "scan_item p i (n + 1) st fb str fmt = Inr (n', st', str', fmt')"
      using "1.prems" by (subst (asm) scan_item.simps) auto
    with other "1.prems"(3) have "scan_post p (n + 1) st n' st'"
      by (intro "1.IH"(2)) auto
    then show ?thesis by (rule scan_post_char) (use other in auto)
  qed
qed

lemma scan_item_returns:
  "i < n \<Longrightarrow> (st = 1 \<Longrightarrow> fb \<le> n) \<Longrightarrow> \<exists>r. scan_item p i n st fb str fmt = Inr r"
proof (induction p i n st fb str fmt rule: scan_item.induct)
  case (1 p i n st fb str fmt)
  have "\<exists>r. scan_item p i (n + 1) 1 (n + 1) s fmt = Inr r"
    if "n < length p" "st = 0" "p ! n = CHR ''{''" "substr p (i + 1) (n - i - 1) = Inr s" for s
    using that "1.prems" by (intro "1.IH"(1)) auto
  moreover have "\<exists>r. scan_item p i (n + 1) st fb str fmt = Inr r"
    if "n < length p" "item_char (p ! n)" "\<not> (st = 0 \<and> p ! n = CHR ''{'')"
      "\<not> (st = 1 \<and> p ! n = CHR ''}'')"
    using that "1.prems" by (intro "1.IH"(2)) auto
  ultimately show ?case
    using "1.prems" by (subst scan_item.simps) (auto simp: substr_def)
qed

lemma init_loop_returns: "\<exists>r. init_loop p i vec nstr m_error = Inr r"
proof (induction p i vec nstr m_error rule: init_loop.induct)
  case (1 p i vec nstr m_error)
  obtain n st str fmt where scan: "scan_item p i (i + 1) 0 0 [] [] = Inr (n, st, str, fmt)"
    using scan_item_returns [of i "i + 1" 0] by fastforce
  from scan_item_ge [OF scan] have n: "i < n" by simp
  note IH = "1.IH" [simplified scan, simplified]
  show ?case
    using IH scan by (subst init_loop.simps) (auto simp: substr_def)
qed


text \<open>
  The patterns the parser flags: some percent sign that is not followed by another one is not
  followed by a maximal run of letters and braces that is a key of the table.
\<close>

definition item_run :: "string \<Rightarrow> nat \<Rightarrow> string" where
  "item_run p i = takeWhile item_char (drop (i + 1) p)"

definition bad_item_at :: "string \<Rightarrow> nat \<Rightarrow> bool" where
  "bad_item_at p i \<longleftrightarrow>
     p ! i = CHR ''%'' \<and> \<not> (i + 1 < length p \<and> p ! (i + 1) = CHR ''%'') \<and>
     map_of s_format_item (item_run p i) = None"

lemma s_format_item_keys:
  "map_of s_format_item s = None \<longleftrightarrow>
     s \<notin> {''m'', ''p'', ''r'', ''c'', ''t'', ''F'', ''n'', ''d'', ''f'', ''l'', ''T'', ''N''}"
  by (simp only: map_of_eq_None_iff s_format_item_def) simp

lemma s_format_item_brace: "CHR ''{'' \<in> set s \<Longrightarrow> map_of s_format_item s = None"
  by (auto simp only: s_format_item_keys list.set insert_iff empty_iff char.inject)

lemma item_slice_run:
  assumes "scan_post p (i + 1) 0 n st" and "i < n"
    and "\<forall>k. i < k \<and> k < n \<longrightarrow> p ! k \<noteq> CHR ''{''"
  shows "take (n - i - 1) (drop (i + 1) p) = item_run p i"
proof -
  have "n \<le> length p" and all: "\<And>k. i + 1 \<le> k \<Longrightarrow> k < n \<Longrightarrow> item_char (p ! k)"
    and stop: "n = length p \<or> \<not> item_char (p ! n)"
    using assms by (auto simp: scan_post_def Suc_le_eq)
  then have "takeWhile item_char (drop (i + 1) p) = take (n - i - 1) (drop (i + 1) p)"
    using assms(2) by (intro takeWhile_eq_take_P_nth) auto
  then show ?thesis by (simp add: item_run_def)
qed

lemma item_run_brace:
  assumes "scan_post p (i + 1) 0 n st" and "i < k" and "k < n" and "p ! k = CHR ''{''"
  shows "CHR ''{'' \<in> set (item_run p i)"
    and "CHR ''{'' \<in> set (take (n - i - 1) (drop (i + 1) p))"
proof -
  let ?xs = "drop (i + 1) p" and ?m = "n - i - 1"
  have n: "n \<le> length p" and all: "\<And>j. i + 1 \<le> j \<Longrightarrow> j < n \<Longrightarrow> item_char (p ! j)"
    using assms by (auto simp: scan_post_def)
  have "take ?m ?xs ! (k - i - 1) = CHR ''{''" "k - i - 1 < length (take ?m ?xs)"
    using assms n by auto
  then show slice: "CHR ''{'' \<in> set (take ?m ?xs)" by (metis nth_mem)
  have "item_char c" if c: "c \<in> set (take ?m ?xs)" for c
  proof -
    from c obtain j where "j < ?m" "c = p ! (i + 1 + j)"
      using n by (auto simp: in_set_conv_nth)
    then show ?thesis using all [of "i + 1 + j"] by auto
  qed
  then have "takeWhile item_char (take ?m ?xs @ drop ?m ?xs) = take ?m ?xs @ takeWhile item_char (drop ?m ?xs)"
    by (rule takeWhile_append2)
  then have "item_run p i = take ?m ?xs @ takeWhile item_char (drop ?m ?xs)"
    by (simp only: append_take_drop_id item_run_def)
  then show "CHR ''{'' \<in> set (item_run p i)"
    using slice by simp
qed

definition bad_from :: "string \<Rightarrow> nat \<Rightarrow> bool" where
  "bad_from p i \<longleftrightarrow> (\<exists>k. i \<le> k \<and> k < length p \<and> bad_item_at p k)"

abbreviation entry_bad :: "vec_entry \<Rightarrow> bool" where
  "entry_bad e \<equiv> snd (make_item e)"

lemma entry_bad_literal [simp]: "entry_bad (s, f, 0) = False"
  by (simp add: make_item_def)

lemma entry_bad_item [simp]: "entry_bad (s, f, Suc 0) \<longleftrightarrow> map_of s_format_item s = None"
  by (simp add: make_item_def split: option.splits)

lemma list_ex_flush [simp]: "list_ex (\<lambda>e. entry_bad e) (flush_nstr vec nstr) = list_ex (\<lambda>e. entry_bad e) vec"
  by (simp add: flush_nstr_def)

lemma bad_from_step: "i < length p \<Longrightarrow> bad_from p i \<longleftrightarrow> bad_item_at p i \<or> bad_from p (i + 1)"
  unfolding bad_from_def le_iff_eq_or_Suc [of i] by blast

lemma bad_from_jump:
  assumes "scan_post p (i + 1) 0 n st" and "i < n"
  shows "bad_from p (i + 1) \<longleftrightarrow> bad_from p n"
proof -
  have "\<not> bad_item_at p k" if "i + 1 \<le> k" "k < n" for k
  proof -
    have "item_char (p ! k)" using assms that by (auto simp: scan_post_def)
    then have "p ! k \<noteq> CHR ''%''" by (auto simp: c_isalpha_def)
    then show ?thesis by (simp add: bad_item_at_def)
  qed
  then show ?thesis
    using assms(2) unfolding bad_from_def by (metis Suc_eq_plus1 Suc_leI le_trans not_le)
qed

lemma item_step_error:
  assumes "scan_post p (i + 1) 0 n st" and "i < n" and "p ! i = CHR ''%''"
    and "\<not> (i + 1 < length p \<and> p ! (i + 1) = CHR ''%'')"
  shows "st = 1 \<Longrightarrow> bad_item_at p i"
    and "st = 0 \<Longrightarrow> map_of s_format_item (take (n - i - 1) (drop (i + 1) p)) = None \<longleftrightarrow> bad_item_at p i"
proof -
  assume "st = 1"
  then obtain k where "i < k" "k < n" "p ! k = CHR ''{''"
    using assms(1) by (auto simp: scan_post_def Suc_le_eq)
  then have "CHR ''{'' \<in> set (item_run p i)" using assms(1) by (blast intro: item_run_brace)
  then show "bad_item_at p i" using assms by (simp add: bad_item_at_def s_format_item_brace)
next
  show "map_of s_format_item (take (n - i - 1) (drop (i + 1) p)) = None \<longleftrightarrow> bad_item_at p i"
  proof (cases "\<exists>k. i < k \<and> k < n \<and> p ! k = CHR ''{''")
    case True
    then obtain k where k: "i < k" "k < n" "p ! k = CHR ''{''" by blast
    then show ?thesis
      using item_run_brace [OF assms(1) k] assms by (simp add: bad_item_at_def s_format_item_brace)
  next
    case False
    then have "take (n - i - 1) (drop (i + 1) p) = item_run p i"
      using item_slice_run [OF assms(1,2)] by blast
    then show ?thesis using assms by (simp add: bad_item_at_def)
  qed
qed

lemma init_loop_ended: "\<not> i < length p \<Longrightarrow> init_loop p i vec nstr err = Inr (vec, nstr, err)"
  by (subst init_loop.simps) simp

lemma init_loop_literal:
  "i < length p \<Longrightarrow> p ! i \<noteq> CHR ''%'' \<Longrightarrow>
     init_loop p i vec nstr err = init_loop p (i + 1) vec (nstr @ [p ! i]) err"
  by (subst init_loop.simps) simp

lemma init_loop_percent:
  "p ! i = CHR ''%'' \<Longrightarrow> i + 1 < length p \<Longrightarrow> p ! (i + 1) = CHR ''%'' \<Longrightarrow>
     init_loop p i vec nstr err = init_loop p (i + 1) vec (nstr @ ''%'') err"
  by (subst init_loop.simps) simp

lemma init_loop_item:
  assumes "i < length p" and "p ! i = CHR ''%''"
    and "\<not> (i + 1 < length p \<and> p ! (i + 1) = CHR ''%'')"
  obtains n st str fmt where "scan_item p i (i + 1) 0 0 [] [] = Inr (n, st, str, fmt)"
    and "scan_post p (i + 1) 0 n st" and "i < n" and "n \<le> length p"
    and "init_loop p i vec nstr err =
       (if st = 0
        then init_loop p n (flush_nstr vec nstr @ [(take (n - i - 1) (drop (i + 1) p), fmt, 1)]) [] err
        else init_loop p (i + 1) (vec @ [(''<<pattern_error>>'', fmt, 0)]) nstr True)"
proof -
  obtain n st str fmt where scan: "scan_item p i (i + 1) 0 0 [] [] = Inr (n, st, str, fmt)"
    using scan_item_returns [of i "i + 1" 0] by fastforce
  then have post: "scan_post p (i + 1) 0 n st" and "i < n"
    using scan_item_post [OF scan] scan_item_ge [OF scan] assms(1) by auto
  moreover from post have "n \<le> length p" by (simp add: scan_post_def)
  moreover from post have "st = 0 \<or> st = 1" by (simp add: scan_post_def)
  ultimately show ?thesis
    using assms scan by (intro that) (assumption | subst init_loop.simps, auto simp: substr_def)+
qed

lemma init_loop_error:
  "init_loop p i vec nstr err = Inr (v, ns, e) \<Longrightarrow>
     (e \<or> list_ex (\<lambda>x. entry_bad x) v) \<longleftrightarrow> (err \<or> list_ex (\<lambda>x. entry_bad x) vec \<or> bad_from p i)"
proof (induction "length p - i" arbitrary: i vec nstr err rule: less_induct)
  case less
  consider (ended) "\<not> i < length p"
    | (literal) "i < length p" "p ! i \<noteq> CHR ''%''"
    | (percent) "i < length p" "p ! i = CHR ''%''" "i + 1 < length p" "p ! (i + 1) = CHR ''%''"
    | (item) "i < length p" "p ! i = CHR ''%''" "\<not> (i + 1 < length p \<and> p ! (i + 1) = CHR ''%'')"
    by blast
  then show ?case
  proof cases
    case ended
    with less.prems show ?thesis by (auto simp: init_loop_ended bad_from_def)
  next
    case literal
    then have "\<not> bad_item_at p i" by (simp add: bad_item_at_def)
    with literal less.hyps less.prems show ?thesis by (simp add: init_loop_literal bad_from_step)
  next
    case percent
    then have "\<not> bad_item_at p i" by (simp add: bad_item_at_def)
    moreover have "length p - (i + 1) < length p - i" using percent(1) by simp
    ultimately show ?thesis
      using less.hyps less.prems bad_from_step [OF percent(1)] by (simp add: init_loop_percent [OF percent(2-4)])
  next
    case item
    obtain n st str fmt where "scan_item p i (i + 1) 0 0 [] [] = Inr (n, st, str, fmt)"
      and post: "scan_post p (i + 1) 0 n st" and n: "i < n" and "n \<le> length p"
      and step: "init_loop p i vec nstr err =
       (if st = 0
        then init_loop p n (flush_nstr vec nstr @ [(take (n - i - 1) (drop (i + 1) p), fmt, 1)]) [] err
        else init_loop p (i + 1) (vec @ [(''<<pattern_error>>'', fmt, 0)]) nstr True)"
      by (rule init_loop_item [OF item, where vec = vec and nstr = nstr and err = err])
    note err = item_step_error [OF post n item(2,3)] and jump = bad_from_jump [OF post n]
    from post consider (complete) "st = 0" | (unclosed) "st = 1" by (auto simp: scan_post_def)
    then show ?thesis
    proof cases
      case complete
      have "length p - n < length p - i" using n item(1) by simp
      with less.hyps less.prems step complete err(2) [OF complete] show ?thesis
        using item jump by (simp add: bad_from_step)
    next
      case unclosed
      have "length p - (i + 1) < length p - i" using item(1) by simp
      moreover have "init_loop p (i + 1) (vec @ [(''<<pattern_error>>'', fmt, 0)]) nstr True = Inr (v, ns, e)"
        using step less.prems unclosed by simp
      ultimately have "e \<or> list_ex (\<lambda>x. entry_bad x) v" using less.hyps by blast
      then show ?thesis using err(1) [OF unclosed] item by (simp add: bad_from_step)
    qed
  qed
qed

lemma LogFormatter_new_total: "\<exists>lf. LogFormatter_new p = Inr lf"
  using init_loop_returns [of p 0 "[]" "[]" False]
  by (auto simp: LogFormatter_new_def Let_def split: sum.splits)

lemma list_ex_map_snd: "list_ex snd (map make_item xs) = list_ex (\<lambda>x. entry_bad x) xs"
  by (induction xs) auto

lemma LogFormatter_new_fields:
  assumes "LogFormatter_new p = Inr lf"
  obtains v ns e where "init_loop p 0 [] [] False = Inr (v, ns, e)"
    and "lf_pattern lf = p"
    and "lf_items lf = map (\<lambda>x. fst (make_item x)) (flush_nstr v ns)"
    and "lf_error lf \<longleftrightarrow> e \<or> list_ex (\<lambda>x. entry_bad x) v"
  using assms
  by (auto simp: LogFormatter_new_def Let_def list_ex_map_snd o_def split: sum.splits prod.splits)

lemma lf_error_iff:
  "LogFormatter_new p = Inr lf \<Longrightarrow> lf_error lf \<longleftrightarrow> (\<exists>i < length p. bad_item_at p i)"
  by (elim LogFormatter_new_fields) (auto dest: init_loop_error simp: bad_from_def)


section \<open>Reading back a printed pattern\<close>

text \<open>
  A pattern as the author means it: literal text and items. Printed, an item is a percent sign
  and its letter. \<open>wf_tokens\<close> says when the printed text is unambiguous: literals are not empty,
  not adjacent and without percent signs, items are known, and text after an item starts with
  neither a letter nor a brace.
\<close>

datatype token = Lit string | Item char

fun tok_text :: "token \<Rightarrow> string" where
  "tok_text (Lit s) = s"
| "tok_text (Item c) = [CHR ''%'', c]"

fun tok_entry :: "token \<Rightarrow> vec_entry" where
  "tok_entry (Lit s) = (s, [], 0)"
| "tok_entry (Item c) = ([c], [], 1)"

definition pattern_of :: "token list \<Rightarrow> string" where
  "pattern_of ts = concat (map tok_text ts)"

fun starts_item_char :: "token list \<Rightarrow> bool" where
  "starts_item_char (Lit (c # s) # ts) = item_char c"
| "starts_item_char ts = False"

fun starts_literal :: "token list \<Rightarrow> bool" where
  "starts_literal (Lit s # ts) = True"
| "starts_literal ts = False"

fun wf_tokens :: "token list \<Rightarrow> bool" where
  "wf_tokens [] = True"
| "wf_tokens (Lit s # ts) = (s \<noteq> [] \<and> CHR ''%'' \<notin> set s \<and> \<not> starts_literal ts \<and> wf_tokens ts)"
| "wf_tokens (Item c # ts) = (map_of s_format_item [c] \<noteq> None \<and> \<not> starts_item_char ts \<and> wf_tokens ts)"

lemma s_format_item_alpha: "map_of s_format_item [c] \<noteq> None \<Longrightarrow> c_isalpha c \<and> c \<noteq> CHR ''{''"
  by (auto simp: s_format_item_keys c_isalpha_def)

lemma pattern_of_stops:
  assumes "wf_tokens ts" and "\<not> starts_item_char ts" and "pattern_of ts = c # r"
  shows "\<not> item_char c"
proof (cases ts)
  case Nil
  with assms show ?thesis by (simp add: pattern_of_def)
next
  case (Cons t ts')
  show ?thesis
  proof (cases t)
    case (Lit s)
    with Cons assms show ?thesis by (cases s) (auto simp: pattern_of_def)
  next
    case (Item d)
    with Cons assms show ?thesis by (auto simp: pattern_of_def c_isalpha_def)
  qed
qed

lemma drop_nth_eq: "drop i p = x # xs \<Longrightarrow> i < length p \<and> p ! i = x \<and> drop (i + 1) p = xs"
  by (metis Cons_nth_drop_Suc Suc_eq_plus1 drop_eq_Nil linorder_not_le list.discI list.inject)

lemma init_loop_text:
  "drop i p = s @ r \<Longrightarrow> CHR ''%'' \<notin> set s \<Longrightarrow>
     init_loop p i vec nstr err = init_loop p (i + length s) vec (nstr @ s) err"
proof (induction s arbitrary: i nstr)
  case Nil
  then show ?case by simp
next
  case (Cons c s)
  then have "i < length p" "p ! i = c" "drop (i + 1) p = s @ r"
    using drop_nth_eq [of i p c "s @ r"] by auto
  with Cons.prems(2) Cons.IH [of "i + 1" "nstr @ [c]"] show ?case
    by (auto simp: init_loop_literal [of i])
qed

lemma init_loop_known_item:
  assumes "drop i p = CHR ''%'' # c # r" and "map_of s_format_item [c] \<noteq> None"
    and "\<And>d q. r = d # q \<Longrightarrow> \<not> item_char d"
  shows "init_loop p i vec nstr err = init_loop p (i + 2) (flush_nstr vec nstr @ [([c], [], 1)]) [] err"
proof -
  from drop_nth_eq [OF assms(1)] drop_nth_eq [of "i + 1" p c r]
  have i: "i < length p" "p ! i = CHR ''%''" "i + 1 < length p" "p ! (i + 1) = c" "drop (i + 2) p = r"
    by auto
  from s_format_item_alpha [OF assms(2)] have c: "c_isalpha c" "c \<noteq> CHR ''{''" "c \<noteq> CHR ''%''"
    by (auto simp: c_isalpha_def)
  have "i + 2 < length p \<Longrightarrow> \<not> item_char (p ! (i + 2))"
    using assms(3) i(5) by (metis Cons_nth_drop_Suc)
  then have "scan_item p i (i + 1 + 1) 0 0 [] [] = Inr (i + 2, 0, [], [])"
    by (subst scan_item.simps) auto
  then have "scan_item p i (i + 1) 0 0 [] [] = Inr (i + 2, 0, [], [])"
    using i c by (subst scan_item.simps) simp
  moreover have "substr p (i + 1) (i + 2 - i - 1) = Inr [c]"
    using i by (simp add: substr_def take_Suc_conv_app_nth flip: Cons_nth_drop_Suc)
  ultimately show ?thesis
    using i c by (subst init_loop.simps) simp
qed

lemma init_loop_tokens:
  assumes "wf_tokens ts" and "nstr \<noteq> [] \<Longrightarrow> \<not> starts_literal ts" and "drop i p = pattern_of ts"
  shows "\<exists>v ns. init_loop p i vec nstr err = Inr (v, ns, err) \<and>
           flush_nstr v ns = flush_nstr vec nstr @ map tok_entry ts"
  using assms
proof (induction ts arbitrary: i vec nstr)
  case Nil
  then show ?case by (simp add: pattern_of_def init_loop_ended)
next
  case (Cons t ts)
  show ?case
  proof (cases t)
    case (Lit s)
    with Cons.prems have s: "nstr = []" "s \<noteq> []" "CHR ''%'' \<notin> set s" "\<not> starts_literal ts" "wf_tokens ts"
      and p: "drop i p = s @ pattern_of ts" by (auto simp: pattern_of_def)
    from p have "drop (i + length s) p = pattern_of ts" by (metis add.commute append_eq_conv_conj drop_drop)
    from Cons.IH [OF s(5) _ this, of s vec] s
    show ?thesis using Lit init_loop_text [OF p s(3)] by (auto simp: flush_nstr_def)
  next
    case (Item c)
    with Cons.prems have c: "map_of s_format_item [c] \<noteq> None" "\<not> starts_item_char ts" "wf_tokens ts"
      and p: "drop i p = CHR ''%'' # c # pattern_of ts" by (auto simp: pattern_of_def)
    from p have "drop (i + 2) p = pattern_of ts"
      by (metis add_2_eq_Suc' drop0 drop_Suc_Cons drop_drop add.commute)
    from Cons.IH [OF c(3) _ this, of "[]" "flush_nstr vec nstr @ [([c], [], 1)]"]
    show ?thesis
      using Item init_loop_known_item [OF p c(1)] pattern_of_stops [OF c(3,2)]
      by (auto simp: flush_nstr_def)
  qed
qed

fun tok_item :: "token \<Rightarrow> FormatItem" where
  "tok_item (Lit s) = StringFormatItem s"
| "tok_item (Item c) = the (map_of s_format_item [c]) []"

lemma make_item_tok_entry: "wf_tokens ts \<Longrightarrow> map (\<lambda>x. make_item x) (map tok_entry ts) = map (\<lambda>t. (tok_item t, False)) ts"
  by (induction ts rule: wf_tokens.induct) (auto simp: make_item_def split: option.splits)

lemma LogFormatter_new_pattern_of:
  assumes "wf_tokens ts"
  shows "LogFormatter_new (pattern_of ts) =
     Inr \<lparr>lf_pattern = pattern_of ts, lf_items = map tok_item ts, lf_error = False\<rparr>"
proof -
  from init_loop_tokens [OF assms, of "[]" 0 "pattern_of ts" "[]" False]
  obtain v ns where "init_loop (pattern_of ts) 0 [] [] False = Inr (v, ns, False)"
    and "flush_nstr v ns = map tok_entry ts"
    by (auto simp: flush_nstr_def)
  then show ?thesis
    using make_item_tok_entry [OF assms]
    by (simp add: LogFormatter_new_def Let_def list_ex_iff o_def)
qed

end
