(* ===== verification/LogStore.thy ===== *)
theory LogStore
  imports LogFormatter
begin

text \<open>
  The state of the logging system: the objects of \<open>src/sylar/log.h\<close> in a store, the registry of
  the \<open>LoggerManager\<close>, the locks the running thread holds, and the part of the environment that
  logging reads and writes (console, files, clock, identity of the thread).
\<close>

section \<open>File streams\<close>

text \<open>
  Directory entries name files; a stream keeps the file it opened even when the entry is removed
  or renamed. \<open>fs_writable\<close> says which paths the process may open for writing. Text written through
  a stream counts as written to the file at once: the buffer of the stream is not modelled.
\<close>

record file_system =
  fs_dir :: "string \<rightharpoonup> nat"
  fs_data :: "string list"
  fs_writable :: "string \<Rightarrow> bool"

record ofstream =
  os_file :: "nat option"
  os_fail :: bool

definition ofstream_new :: ofstream where
  "ofstream_new = \<lparr>os_file = None, os_fail = False\<rparr>"

text \<open>\<open>close()\<close> sets the fail bit when no file is open.\<close>

definition ofstream_close :: "ofstream \<Rightarrow> ofstream" where
  "ofstream_close st =
     (case os_file st of
        None \<Rightarrow> st\<lparr>os_fail := True\<rparr>
      | Some _ \<Rightarrow> st\<lparr>os_file := None\<rparr>)"

text \<open>
  \<open>open(name, app)\<close>: fails on a stream that has a file open; otherwise opens the file, creating it
  when the directory has no entry, and clears the fail bit.
\<close>

definition ofstream_open :: "string \<Rightarrow> ofstream \<Rightarrow> file_system \<Rightarrow> ofstream \<times> file_system" where
  "ofstream_open name st fs =
     (if os_file st \<noteq> None \<or> \<not> fs_writable fs name then (st\<lparr>os_fail := True\<rparr>, fs)
      else
        (case fs_dir fs name of
           Some f \<Rightarrow> (\<lparr>os_file = Some f, os_fail = False\<rparr>, fs)
         | None \<Rightarrow>
             (let f = length (fs_data fs) in
              (\<lparr>os_file = Some f, os_fail = False\<rparr>,
               fs\<lparr>fs_dir := (fs_dir fs)(name \<mapsto> f), fs_data := fs_data fs @ [[]]\<rparr>))))"

definition ofstream_put :: "string \<Rightarrow> ofstream \<Rightarrow> file_system \<Rightarrow> ofstream \<times> file_system" where
  "ofstream_put text st fs =
     (if os_fail st \<or> text = [] then (st, fs)
      else
        (case os_file st of
           None \<Rightarrow> (st\<lparr>os_fail := True\<rparr>, fs)
         | Some f \<Rightarrow> (st, fs\<lparr>fs_data := (fs_data fs)[f := fs_data fs ! f @ text]\<rparr>)))"

text \<open>What the file at a path holds.\<close>

definition fs_read :: "file_system \<Rightarrow> string \<Rightarrow> string option" where
  "fs_read fs name = map_option (\<lambda>f. fs_data fs ! f) (fs_dir fs name)"

section \<open>Objects\<close>

record FileLogAppender_part =
  fa_filename :: string
  fa_filestream :: ofstream
  fa_lastTime :: u64

datatype appender_class = StdoutLogAppender | FileLogAppender FileLogAppender_part

record LogAppender =
  ap_level :: Level
  ap_formatter :: "LogFormatter option"
  ap_hasFormatter :: bool
  ap_class :: appender_class

record Logger =
  lg_name :: string
  lg_level :: Level
  lg_appenders :: "addr list"
  lg_formatter :: "LogFormatter option"
  lg_root :: "addr option"

datatype lock = ManagerLock | LoggerLock addr | AppenderLock addr

record log_world =
  w_loggers :: "Logger list"
  w_appenders :: "LogAppender list"
  w_m_loggers :: "(string \<times> addr) list"
  w_root :: addr
  w_held :: "lock set"
  w_cout :: string
  w_fs :: file_system
  w_clock :: u64
  w_strftime :: "string \<Rightarrow> int \<Rightarrow> string option"
  w_tid :: u32
  w_fid :: u32
  w_tname :: string

type_synonym ('z, 'a) logc = "('z log_world_scheme, 'a) comp"

section \<open>Access to the objects\<close>

text \<open>A call through an address that names no object is a call through a null pointer.\<close>

definition logger_at :: "'z log_world_scheme \<Rightarrow> addr \<Rightarrow> Logger option" where
  "logger_at s l = (if l < length (w_loggers s) then Some (w_loggers s ! l) else None)"

definition appender_at :: "'z log_world_scheme \<Rightarrow> addr \<Rightarrow> LogAppender option" where
  "appender_at s a = (if a < length (w_appenders s) then Some (w_appenders s ! a) else None)"

definition logger_name :: "'z log_world_scheme \<Rightarrow> addr \<Rightarrow> string option" where
  "logger_name s l = map_option lg_name (logger_at s l)"

definition get_logger :: "addr \<Rightarrow> ('z, Logger) logc" where
  "get_logger l s = (case logger_at s l of None \<Rightarrow> (Inl NullDeref, s) | Some lg \<Rightarrow> (Inr lg, s))"

definition get_appender :: "addr \<Rightarrow> ('z, LogAppender) logc" where
  "get_appender a s = (case appender_at s a of None \<Rightarrow> (Inl NullDeref, s) | Some ap \<Rightarrow> (Inr ap, s))"

definition put_logger :: "addr \<Rightarrow> Logger \<Rightarrow> 'z log_world_scheme \<Rightarrow> 'z log_world_scheme" where
  "put_logger l lg s = s\<lparr>w_loggers := (w_loggers s)[l := lg]\<rparr>"

definition put_appender :: "addr \<Rightarrow> LogAppender \<Rightarrow> 'z log_world_scheme \<Rightarrow> 'z log_world_scheme" where
  "put_appender a ap s = s\<lparr>w_appenders := (w_appenders s)[a := ap]\<rparr>"

text \<open>
  \<open>MutexType::Lock lock(m)\<close> to the end of its scope: a spin lock that the thread holds already is
  never obtained; the destructor releases it however the scope is left.
\<close>

definition with_lock :: "lock \<Rightarrow> ('z, 'a) logc \<Rightarrow> ('z, 'a) logc" where
  "with_lock m body s =
     (if m \<in> w_held s then (Inl Deadlock, s)
      else
        (case body (s\<lparr>w_held := insert m (w_held s)\<rparr>) of
           (r, s') \<Rightarrow> (r, s'\<lparr>w_held := w_held s' - {m}\<rparr>)))"

named_theorems store_simps \<open>access to the object store\<close>

lemma logger_at_eq_Some [store_simps]:
  "logger_at s l = Some lg \<longleftrightarrow> l < length (w_loggers s) \<and> w_loggers s ! l = lg"
  by (auto simp: logger_at_def)

lemma appender_at_eq_Some [store_simps]:
  "appender_at s a = Some ap \<longleftrightarrow> a < length (w_appenders s) \<and> w_appenders s ! a = ap"
  by (auto simp: appender_at_def)

lemma at_other_fields [simp]:
  "logger_at (s\<lparr>w_held := h\<rparr>) l = logger_at s l" "appender_at (s\<lparr>w_held := h\<rparr>) a = appender_at s a"
  "logger_at (s\<lparr>w_cout := c\<rparr>) l = logger_at s l" "appender_at (s\<lparr>w_cout := c\<rparr>) a = appender_at s a"
  "logger_at (s\<lparr>w_fs := fs\<rparr>) l = logger_at s l" "appender_at (s\<lparr>w_fs := fs\<rparr>) a = appender_at s a"
  by (simp_all add: logger_at_def appender_at_def)

lemma get_logger_Some: "logger_at s l = Some lg \<Longrightarrow> get_logger l s = (Inr lg, s)"
  by (simp add: get_logger_def)

lemma get_appender_Some: "appender_at s a = Some ap \<Longrightarrow> get_appender a s = (Inr ap, s)"
  by (simp add: get_appender_def)

lemma get_logger_cases:
  "get_logger l s = (Inl NullDeref, s) \<and> logger_at s l = None \<or>
   (\<exists>lg. get_logger l s = (Inr lg, s) \<and> logger_at s l = Some lg)"
  by (auto simp: get_logger_def split: option.splits)

lemma with_lock_free:
  "m \<notin> w_held s \<Longrightarrow> body (s\<lparr>w_held := insert m (w_held s)\<rparr>) = (r, s') \<Longrightarrow>
     with_lock m body s = (r, s'\<lparr>w_held := w_held s' - {m}\<rparr>)"
  by (simp add: with_lock_def)

text \<open>
  A body that leaves the locks as it found them and does not depend on them runs under a free lock
  as it runs without it.
\<close>

lemma with_lock_transparent:
  assumes "m \<notin> w_held s"
    and "body (s\<lparr>w_held := insert m (w_held s)\<rparr>) = (r, s'\<lparr>w_held := insert m (w_held s)\<rparr>)"
    and "w_held s' = w_held s"
  shows "with_lock m body s = (r, s')"
  using assms by (simp add: with_lock_def)

end
