(* ===== verification/LogAppender.thy ===== *)
theory LogAppender
  imports LogStore
begin

text \<open>
  \<open>LogAppender\<close> and its two subclasses (\<open>src/sylar/log.h\<close>, \<open>src/sylar/log.cc\<close>). The virtual method
  \<open>log\<close> is an interface with laws, the locale \<open>appender_contract\<close>, which both overriders and the
  dispatch on the object's class satisfy.
\<close>

section \<open>The base class\<close>

definition LogAppender_getFormmater :: "addr \<Rightarrow> ('z, LogFormatter option) logc" where
  "LogAppender_getFormmater a =
     with_lock (AppenderLock a) (bindc (get_appender a) (\<lambda>ap. ret (ap_formatter ap)))"

definition LogAppender_setFormatter :: "addr \<Rightarrow> LogFormatter option \<Rightarrow> ('z, unit) logc" where
  "LogAppender_setFormatter a val =
     with_lock (AppenderLock a) (bindc (get_appender a) (\<lambda>ap.
       modify (put_appender a (ap\<lparr>ap_formatter := val, ap_hasFormatter := (val \<noteq> None)\<rparr>))))"

definition LogAppender_getLevel :: "addr \<Rightarrow> ('z, Level) logc" where
  "LogAppender_getLevel a = bindc (get_appender a) (\<lambda>ap. ret (ap_level ap))"

definition LogAppender_setLevel :: "addr \<Rightarrow> Level \<Rightarrow> ('z, unit) logc" where
  "LogAppender_setLevel a level =
     bindc (get_appender a) (\<lambda>ap. modify (put_appender a (ap\<lparr>ap_level := level\<rparr>)))"

text \<open>\<open>m_formatter->format(logger, level, event)\<close>.\<close>

definition appender_text :: "LogAppender \<Rightarrow> addr \<Rightarrow> Level \<Rightarrow> LogEvent \<Rightarrow> ('z, string) logc" where
  "appender_text ap logger level ev s =
     (case ap_formatter ap of
        None \<Rightarrow> (Inl NullDeref, s)
      | Some lf \<Rightarrow> (LogFormatter_format (w_strftime s) (logger_name s) lf logger level ev, s))"

section \<open>The console\<close>

definition StdoutLogAppender_new :: "('z, addr) logc" where
  "StdoutLogAppender_new s =
     (Inr (length (w_appenders s)),
      s\<lparr>w_appenders := w_appenders s @
          [\<lparr>ap_level = DEBUG, ap_formatter = None, ap_hasFormatter = False, ap_class = StdoutLogAppender\<rparr>]\<rparr>)"

definition StdoutLogAppender_log :: "addr \<Rightarrow> addr \<Rightarrow> Level \<Rightarrow> LogEvent \<Rightarrow> ('z, unit) logc" where
  "StdoutLogAppender_log a logger level ev =
     bindc (get_appender a) (\<lambda>ap.
       if level \<ge> ap_level ap then
         with_lock (AppenderLock a) (bindc (appender_text ap logger level ev) (\<lambda>text.
           modify (\<lambda>s. s\<lparr>w_cout := w_cout s @ text\<rparr>)))
       else ret ())"

section \<open>Files\<close>

text \<open>\<open>FileLogAppender::reopen\<close>; the value is \<open>!m_filestream\<close>.\<close>

definition FileLogAppender_reopen :: "addr \<Rightarrow> ('z, bool) logc" where
  "FileLogAppender_reopen a =
     with_lock (AppenderLock a) (bindc (get_appender a) (\<lambda>ap s.
       case ap_class ap of
         StdoutLogAppender \<Rightarrow> (Inl NullDeref, s)
       | FileLogAppender fa \<Rightarrow>
           (let st = (if \<not> os_fail (fa_filestream fa) then ofstream_close (fa_filestream fa)
                      else fa_filestream fa);
                (st', fs') = ofstream_open (fa_filename fa) st (w_fs s)
            in (Inr (os_fail st'),
                put_appender a (ap\<lparr>ap_class := FileLogAppender (fa\<lparr>fa_filestream := st'\<rparr>)\<rparr>)
                  (s\<lparr>w_fs := fs'\<rparr>)))))"

definition FileLogAppender_new :: "string \<Rightarrow> ('z, addr) logc" where
  "FileLogAppender_new filename s =
     (let a = length (w_appenders s);
          ap = \<lparr>ap_level = DEBUG, ap_formatter = None, ap_hasFormatter = False,
                ap_class = FileLogAppender \<lparr>fa_filename = filename, fa_filestream = ofstream_new, fa_lastTime = 0\<rparr>\<rparr>
      in bindc (FileLogAppender_reopen a) (\<lambda>_. ret a) (s\<lparr>w_appenders := w_appenders s @ [ap]\<rparr>))"

definition set_lastTime :: "addr \<Rightarrow> u64 \<Rightarrow> ('z, unit) logc" where
  "set_lastTime a now = bindc (get_appender a) (\<lambda>ap.
     case ap_class ap of
       StdoutLogAppender \<Rightarrow> raise NullDeref
     | FileLogAppender fa \<Rightarrow>
         modify (put_appender a (ap\<lparr>ap_class := FileLogAppender (fa\<lparr>fa_lastTime := now\<rparr>)\<rparr>)))"

definition filestream_put :: "addr \<Rightarrow> string \<Rightarrow> ('z, unit) logc" where
  "filestream_put a text = bindc (get_appender a) (\<lambda>ap s.
     case ap_class ap of
       StdoutLogAppender \<Rightarrow> (Inl NullDeref, s)
     | FileLogAppender fa \<Rightarrow>
         (let (st', fs') = ofstream_put text (fa_filestream fa) (w_fs s)
          in (Inr (), put_appender a (ap\<lparr>ap_class := FileLogAppender (fa\<lparr>fa_filestream := st'\<rparr>)\<rparr>)
                        (s\<lparr>w_fs := fs'\<rparr>))))"

text \<open>The check of the clock before a record is written.\<close>

definition reopen_if_due :: "addr \<Rightarrow> FileLogAppender_part \<Rightarrow> ('z, unit) logc" where
  "reopen_if_due a fa s =
     (let now = w_clock s in
      if now \<noteq> fa_lastTime fa then bindc (FileLogAppender_reopen a) (\<lambda>_. set_lastTime a now) s
      else (Inr (), s))"

definition FileLogAppender_log :: "addr \<Rightarrow> addr \<Rightarrow> Level \<Rightarrow> LogEvent \<Rightarrow> ('z, unit) logc" where
  "FileLogAppender_log a logger level ev =
     bindc (get_appender a) (\<lambda>ap.
       case ap_class ap of
         StdoutLogAppender \<Rightarrow> raise NullDeref
       | FileLogAppender fa \<Rightarrow>
           if level \<ge> ap_level ap then
             bindc (reopen_if_due a fa) (\<lambda>_.
             with_lock (AppenderLock a) (bindc (appender_text ap logger level ev) (filestream_put a)))
           else ret ())"

text \<open>The virtual call \<open>appender->log(logger, level, event)\<close>.\<close>

definition LogAppender_log :: "addr \<Rightarrow> addr \<Rightarrow> Level \<Rightarrow> LogEvent \<Rightarrow> ('z, unit) logc" where
  "LogAppender_log a logger level ev =
     bindc (get_appender a) (\<lambda>ap.
       case ap_class ap of
         StdoutLogAppender \<Rightarrow> StdoutLogAppender_log a logger level ev
       | FileLogAppender _ \<Rightarrow> FileLogAppender_log a logger level ev)"


section \<open>What writing a log record may change\<close>

fun same_class :: "appender_class \<Rightarrow> appender_class \<Rightarrow> bool" where
  "same_class StdoutLogAppender StdoutLogAppender = True"
| "same_class (FileLogAppender f) (FileLogAppender g) = (fa_filename f = fa_filename g)"
| "same_class _ _ = False"

definition same_settings :: "LogAppender \<Rightarrow> LogAppender \<Rightarrow> bool" where
  "same_settings ap ap' \<longleftrightarrow>
     ap_level ap' = ap_level ap \<and> ap_formatter ap' = ap_formatter ap \<and>
     ap_hasFormatter ap' = ap_hasFormatter ap \<and> same_class (ap_class ap) (ap_class ap')"

definition log_frame :: "'z log_world_scheme \<Rightarrow> 'z log_world_scheme \<Rightarrow> bool" where
  "log_frame s s' \<longleftrightarrow>
     w_loggers s' = w_loggers s \<and> w_m_loggers s' = w_m_loggers s \<and> w_root s' = w_root s \<and>
     w_held s' = w_held s \<and> w_clock s' = w_clock s \<and> w_strftime s' = w_strftime s \<and>
     w_tid s' = w_tid s \<and> w_fid s' = w_fid s \<and> w_tname s' = w_tname s \<and>
     log_world.more s' = log_world.more s \<and>
     list_all2 same_settings (w_appenders s) (w_appenders s')"

lemma same_class_refl [simp]: "same_class c c"
  by (cases c) auto

lemma same_class_trans: "same_class a b \<Longrightarrow> same_class b c \<Longrightarrow> same_class a c"
  by (cases a; cases b; cases c) auto

lemma same_settings_refl [simp]: "same_settings ap ap"
  by (simp add: same_settings_def)

lemma same_settings_trans: "same_settings a b \<Longrightarrow> same_settings b c \<Longrightarrow> same_settings a c"
  by (auto simp: same_settings_def intro: same_class_trans)

lemma log_frame_refl [simp]: "log_frame s s"
  by (simp add: log_frame_def list_all2_refl)

lemma log_frame_trans: "log_frame s t \<Longrightarrow> log_frame t u \<Longrightarrow> log_frame s u"
  unfolding log_frame_def by (auto elim: list_all2_trans [rotated] intro: same_settings_trans)

lemma log_frame_cout [simp]: "log_frame s (s\<lparr>w_cout := t\<rparr>)"
  by (simp add: log_frame_def list_all2_refl)

lemma log_frame_put_file:
  assumes "appender_at s a = Some ap" and "ap_class ap = FileLogAppender fa" and "fa_filename fa' = fa_filename fa"
  shows "log_frame s (put_appender a (ap\<lparr>ap_class := FileLogAppender fa'\<rparr>) (s\<lparr>w_fs := fs\<rparr>))"
    and "log_frame s (put_appender a (ap\<lparr>ap_class := FileLogAppender fa'\<rparr>) s)"
  using assms
  by (auto simp: log_frame_def put_appender_def appender_at_eq_Some list_all2_conv_all_nth
      nth_list_update same_settings_def)

lemma log_frame_appender:
  assumes "log_frame s s'" and "appender_at s a = Some ap"
  obtains ap' where "appender_at s' a = Some ap'" and "same_settings ap ap'"
  using assms by (auto simp: log_frame_def appender_at_eq_Some list_all2_conv_all_nth)

lemma log_frame_absent: "log_frame s s' \<Longrightarrow> appender_at s a = None \<Longrightarrow> appender_at s' a = None"
  by (auto simp: log_frame_def appender_at_def list_all2_lengthD)

lemma log_frame_names: "log_frame s s' \<Longrightarrow> logger_name s' = logger_name s"
  by (auto simp: log_frame_def logger_name_def logger_at_def fun_eq_iff)

lemma log_frame_logger_at: "log_frame s s' \<Longrightarrow> logger_at s' = logger_at s"
  by (auto simp: log_frame_def logger_at_def fun_eq_iff)

text \<open>The frame is kept by sequencing, by locking and by loops.\<close>

lemma frame_bindc:
  assumes "log_frame s (snd (m s))" and "\<And>a s'. m s = (Inr a, s') \<Longrightarrow> log_frame s' (snd (f a s'))"
  shows "log_frame s (snd (bindc m f s))"
proof (cases "m s")
  case (Pair r s')
  with assms show ?thesis by (cases r) (auto simp: bindc_def intro: log_frame_trans)
qed

lemma frame_with_lock:
  assumes "log_frame (s\<lparr>w_held := insert m (w_held s)\<rparr>) (snd (body (s\<lparr>w_held := insert m (w_held s)\<rparr>)))"
  shows "log_frame s (snd (with_lock m body s))"
proof -
  obtain r s' where "body (s\<lparr>w_held := insert m (w_held s)\<rparr>) = (r, s')" by fastforce
  with assms show ?thesis
    by (auto simp: with_lock_def log_frame_def list_all2_refl)
qed

lemma frame_get_appender [simp]: "snd (get_appender a s) = s"
  by (simp add: get_appender_def split: option.splits)

lemma get_appender_Inr: "get_appender a s = (Inr ap, s') \<longleftrightarrow> s' = s \<and> appender_at s a = Some ap"
  by (auto simp: get_appender_def split: option.splits)

lemma appender_text_state [simp]: "snd (appender_text ap l level ev s) = s"
  by (simp add: appender_text_def split: option.splits)

lemma frame_StdoutLogAppender_log: "log_frame s (snd (StdoutLogAppender_log a l level ev s))"
  unfolding StdoutLogAppender_log_def
  by (rule frame_bindc) (auto simp: comp_simps get_appender_Inr intro!: frame_with_lock frame_bindc)

lemma frame_FileLogAppender_reopen: "log_frame s (snd (FileLogAppender_reopen a s))"
  unfolding FileLogAppender_reopen_def
  by (rule frame_with_lock, rule frame_bindc)
    (auto simp: get_appender_Inr Let_def split: appender_class.splits prod.splits intro!: log_frame_put_file)

lemma frame_set_lastTime: "log_frame s (snd (set_lastTime a now s))"
  unfolding set_lastTime_def
  by (rule frame_bindc)
    (auto simp: get_appender_Inr comp_simps split: appender_class.splits intro!: log_frame_put_file)

lemma frame_filestream_put: "log_frame s (snd (filestream_put a text s))"
  unfolding filestream_put_def
  by (rule frame_bindc)
    (auto simp: get_appender_Inr split: appender_class.splits prod.splits intro!: log_frame_put_file)

lemma frame_reopen_if_due: "log_frame s (snd (reopen_if_due a fa s))"
  by (auto simp: reopen_if_due_def Let_def intro!: frame_bindc frame_FileLogAppender_reopen frame_set_lastTime)

lemma frame_FileLogAppender_log: "log_frame s (snd (FileLogAppender_log a l level ev s))"
  unfolding FileLogAppender_log_def
  by (rule frame_bindc)
    (auto simp: get_appender_Inr comp_simps Let_def split: appender_class.splits
      intro!: frame_bindc frame_with_lock frame_reopen_if_due frame_filestream_put)

lemma frame_LogAppender_log: "log_frame s (snd (LogAppender_log a l level ev s))"
  unfolding LogAppender_log_def
  by (rule frame_bindc)
    (auto simp: get_appender_Inr frame_StdoutLogAppender_log frame_FileLogAppender_log
      split: appender_class.splits)


section \<open>The interface of the virtual method\<close>

text \<open>What the record looks like for this appender.\<close>

definition record_text :: "'z log_world_scheme \<Rightarrow> LogAppender \<Rightarrow> addr \<Rightarrow> Level \<Rightarrow> LogEvent \<Rightarrow> string result" where
  "record_text s ap l level ev =
     (case ap_formatter ap of
        None \<Rightarrow> Inl NullDeref
      | Some lf \<Rightarrow> LogFormatter_format (w_strftime s) (logger_name s) lf l level ev)"

lemma appender_text_record: "appender_text ap l level ev s = (record_text s ap l level ev, s)"
  by (simp add: appender_text_def record_text_def split: option.splits)

lemma logger_name_held: "logger_name (s\<lparr>w_held := h\<rparr>) = logger_name s"
  by (simp add: fun_eq_iff logger_name_def logger_at_def)

lemma record_text_held [simp]: "record_text (s\<lparr>w_held := h\<rparr>) ap l level ev = record_text s ap l level ev"
  by (simp add: record_text_def logger_name_held split: option.splits)

lemma record_text_frame:
  assumes "log_frame s s'" and "same_settings ap ap'"
  shows "record_text s' ap' l level ev = record_text s ap l level ev"
  using assms log_frame_names [OF assms(1)]
  by (auto simp: record_text_def same_settings_def log_frame_def split: option.splits)

text \<open>
  What one appender shows on the console for an event, and what it needs for the event to reach it:
  its lock free and, when the event is not below its level, a text to write.
\<close>

definition shown ::
    "(LogAppender \<Rightarrow> string \<Rightarrow> string) \<Rightarrow> 'z log_world_scheme \<Rightarrow> addr \<Rightarrow> Level \<Rightarrow> LogEvent \<Rightarrow> addr \<Rightarrow> string" where
  "shown console s l level ev a =
     (case appender_at s a of
        None \<Rightarrow> []
      | Some ap \<Rightarrow>
          if ap_level ap \<le> level then
            (case record_text s ap l level ev of Inl e \<Rightarrow> [] | Inr text \<Rightarrow> console ap text)
          else [])"

definition ready ::
    "(LogAppender \<Rightarrow> bool) \<Rightarrow> 'z log_world_scheme \<Rightarrow> addr \<Rightarrow> Level \<Rightarrow> LogEvent \<Rightarrow> addr \<Rightarrow> bool" where
  "ready accepts s l level ev a \<longleftrightarrow>
     AppenderLock a \<notin> w_held s \<and>
     (case appender_at s a of
        None \<Rightarrow> False
      | Some ap \<Rightarrow> accepts ap \<and> (level < ap_level ap \<or> \<not> isl (record_text s ap l level ev)))"

lemma readyE:
  assumes "ready accepts s l level ev a"
  obtains ap where "appender_at s a = Some ap" and "accepts ap" and "AppenderLock a \<notin> w_held s"
    and "level < ap_level ap \<or> (\<exists>text. record_text s ap l level ev = Inr text)"
  using assms by (auto simp: ready_def split: option.splits) (metis sum.collapse(2))+

text \<open>
  The contract of \<open>log\<close>: it changes nothing but the output; an event below the appender's level is
  dropped; any other one adds to the console what the class prints there. The clients run it over
  a list of appenders.
\<close>

locale appender_contract =
  fixes alog :: "addr \<Rightarrow> addr \<Rightarrow> Level \<Rightarrow> LogEvent \<Rightarrow> ('z, unit) logc"
    and accepts :: "LogAppender \<Rightarrow> bool"
    and console :: "LogAppender \<Rightarrow> string \<Rightarrow> string"
  assumes frame: "log_frame s (snd (alog a l level ev s))"
    and below: "appender_at s a = Some ap \<Longrightarrow> accepts ap \<Longrightarrow> level < ap_level ap \<Longrightarrow>
          alog a l level ev s = (Inr (), s)"
    and delivers: "appender_at s a = Some ap \<Longrightarrow> accepts ap \<Longrightarrow> ap_level ap \<le> level \<Longrightarrow>
          AppenderLock a \<notin> w_held s \<Longrightarrow> record_text s ap l level ev = Inr text \<Longrightarrow>
          \<exists>s'. alog a l level ev s = (Inr (), s') \<and> w_cout s' = w_cout s @ console ap text"
    and accepts_settings: "same_settings ap ap' \<Longrightarrow> accepts ap \<Longrightarrow> accepts ap'"
    and console_settings: "same_settings ap ap' \<Longrightarrow> console ap' = console ap"
begin

lemma loop_frame: "log_frame s (snd (for_each (\<lambda>a. alog a l level ev) xs s))"
  by (rule for_each_inv [where P = "log_frame s"]) (auto intro: log_frame_trans frame)

lemma ready_frame: "log_frame s s' \<Longrightarrow> ready accepts s l level ev a \<Longrightarrow> ready accepts s' l level ev a"
proof -
  assume fr: "log_frame s s'" and "ready accepts s l level ev a"
  then obtain ap where ap: "appender_at s a = Some ap" "accepts ap" "AppenderLock a \<notin> w_held s"
    "level < ap_level ap \<or> (\<exists>text. record_text s ap l level ev = Inr text)"
    by (elim readyE)
  from fr ap(1) obtain ap' where "appender_at s' a = Some ap'" and ss: "same_settings ap ap'"
    by (rule log_frame_appender)
  moreover have "ap_level ap' = ap_level ap" using ss by (simp add: same_settings_def)
  moreover have "w_held s' = w_held s" using fr by (simp add: log_frame_def)
  ultimately show ?thesis
    using ap accepts_settings [OF ss] record_text_frame [OF fr ss] by (auto simp: ready_def)
qed

lemma shown_frame: "log_frame s s' \<Longrightarrow> shown console s' l level ev a = shown console s l level ev a"
proof (cases "appender_at s a")
  case None
  assume "log_frame s s'"
  with None show ?thesis by (simp add: shown_def log_frame_absent)
next
  case (Some ap)
  assume fr: "log_frame s s'"
  from fr Some obtain ap' where "appender_at s' a = Some ap'" and ss: "same_settings ap ap'"
    by (rule log_frame_appender)
  moreover have "ap_level ap' = ap_level ap" using ss by (simp add: same_settings_def)
  ultimately show ?thesis
    using Some console_settings [OF ss] record_text_frame [OF fr ss] by (simp add: shown_def split: sum.splits)
qed

lemma one_delivers:
  assumes "ready accepts s l level ev a"
  shows "\<exists>s'. alog a l level ev s = (Inr (), s') \<and> w_cout s' = w_cout s @ shown console s l level ev a"
proof -
  from assms obtain ap where ap: "appender_at s a = Some ap" "accepts ap" "AppenderLock a \<notin> w_held s"
    "level < ap_level ap \<or> (\<exists>text. record_text s ap l level ev = Inr text)"
    by (elim readyE)
  show ?thesis
  proof (cases "ap_level ap \<le> level")
    case True
    with ap obtain t where "record_text s ap l level ev = Inr t" by auto
    with True ap delivers show ?thesis by (fastforce simp: shown_def)
  next
    case False
    with ap below [of s a ap level l ev] show ?thesis by (simp add: shown_def)
  qed
qed

lemma loop_delivers:
  assumes "\<And>a. a \<in> set xs \<Longrightarrow> ready accepts s l level ev a"
  shows "\<exists>s'. for_each (\<lambda>a. alog a l level ev) xs s = (Inr (), s') \<and>
           w_cout s' = w_cout s @ concat (map (shown console s l level ev) xs)"
  using assms
proof (induction xs arbitrary: s)
  case Nil
  then show ?case by simp
next
  case (Cons a xs)
  from Cons.prems obtain s1 where s1: "alog a l level ev s = (Inr (), s1)"
    "w_cout s1 = w_cout s @ shown console s l level ev a"
    using one_delivers [of s l level ev a] by auto
  have fr: "log_frame s s1" using frame [of s a l level ev] s1(1) by simp
  have same: "map (shown console s1 l level ev) xs = map (shown console s l level ev) xs"
    using Cons.prems shown_frame [OF fr] by auto
  from Cons.IH [of s1] Cons.prems ready_frame [OF fr]
  obtain s2 where "for_each (\<lambda>a. alog a l level ev) xs s1 = (Inr (), s2)"
    "w_cout s2 = w_cout s1 @ concat (map (shown console s1 l level ev) xs)"
    by auto
  with s1 show ?case by (simp add: same del: map_eq_conv)
qed

end


section \<open>The two appenders on a free lock\<close>

lemma put_appender_at [simp]:
  "appender_at s a \<noteq> None \<Longrightarrow> appender_at (put_appender a ap s) a = Some ap"
  by (auto simp: appender_at_def put_appender_def split: if_splits)

lemma put_appender_twice [simp]: "put_appender a ap (put_appender a ap' s) = put_appender a ap s"
  by (simp add: put_appender_def)

lemma StdoutLogAppender_log_eval:
  assumes "appender_at s a = Some ap" and "ap_level ap \<le> level" and "AppenderLock a \<notin> w_held s"
    and "record_text s ap l level ev = Inr t"
  shows "StdoutLogAppender_log a l level ev s = (Inr (), s\<lparr>w_cout := w_cout s @ t\<rparr>)"
  using assms
  by (simp add: StdoutLogAppender_log_def bindc_Inr [OF get_appender_Some] with_lock_def
      bindc_Inr [OF trans [OF appender_text_record]] modify_apply)

definition reopen_stream :: "FileLogAppender_part \<Rightarrow> file_system \<Rightarrow> ofstream \<times> file_system" where
  "reopen_stream fa fs =
     ofstream_open (fa_filename fa)
       (if \<not> os_fail (fa_filestream fa) then ofstream_close (fa_filestream fa) else fa_filestream fa) fs"

lemma FileLogAppender_reopen_eval:
  assumes "appender_at s a = Some ap" and "ap_class ap = FileLogAppender fa"
    and "AppenderLock a \<notin> w_held s" and "reopen_stream fa (w_fs s) = (st, fs)"
  shows "FileLogAppender_reopen a s =
     (Inr (os_fail st),
      put_appender a (ap\<lparr>ap_class := FileLogAppender (fa\<lparr>fa_filestream := st\<rparr>)\<rparr>) (s\<lparr>w_fs := fs\<rparr>))"
  using assms
  by (simp add: FileLogAppender_reopen_def with_lock_def bindc_def get_appender_def appender_at_def
      put_appender_def reopen_stream_def split: if_splits)

text \<open>What the clock and the record make of the file part and the files.\<close>

definition refresh_part ::
    "u64 \<Rightarrow> FileLogAppender_part \<Rightarrow> file_system \<Rightarrow> FileLogAppender_part \<times> file_system" where
  "refresh_part now fa fs =
     (if now \<noteq> fa_lastTime fa then
        (let (st, fs') = reopen_stream fa fs in (fa\<lparr>fa_filestream := st, fa_lastTime := now\<rparr>, fs'))
      else (fa, fs))"

definition file_write ::
    "u64 \<Rightarrow> string \<Rightarrow> FileLogAppender_part \<Rightarrow> file_system \<Rightarrow> FileLogAppender_part \<times> file_system" where
  "file_write now t fa fs =
     (let (fa1, fs1) = refresh_part now fa fs; (st, fs2) = ofstream_put t (fa_filestream fa1) fs1
      in (fa1\<lparr>fa_filestream := st\<rparr>, fs2))"

abbreviation put_file ::
    "addr \<Rightarrow> LogAppender \<Rightarrow> FileLogAppender_part \<Rightarrow> file_system \<Rightarrow> 'z log_world_scheme \<Rightarrow> 'z log_world_scheme" where
  "put_file a ap fa fs s \<equiv> put_appender a (ap\<lparr>ap_class := FileLogAppender fa\<rparr>) (s\<lparr>w_fs := fs\<rparr>)"

lemma put_file_same:
  "appender_at s a = Some ap \<Longrightarrow> ap_class ap = FileLogAppender fa \<Longrightarrow> put_file a ap fa (w_fs s) s = s"
proof -
  assume "appender_at s a = Some ap" and "ap_class ap = FileLogAppender fa"
  then have "ap\<lparr>ap_class := FileLogAppender fa\<rparr> = ap" "(w_appenders s)[a := ap] = w_appenders s"
    by (auto simp: appender_at_eq_Some intro: list_update_same_conv [THEN iffD2])
  then show ?thesis by (simp add: put_appender_def)
qed

lemma put_file_facts:
  assumes "appender_at s a = Some ap"
  shows "appender_at (put_file a ap fa fs s) a = Some (ap\<lparr>ap_class := FileLogAppender fa\<rparr>)"
    and "w_held (put_file a ap fa fs s) = w_held s" and "w_fs (put_file a ap fa fs s) = fs"
    and "record_text (put_file a ap fa fs s) ap l level ev = record_text s ap l level ev"
    and "put_file a (ap\<lparr>ap_class := FileLogAppender fa\<rparr>) fa' fs' (put_file a ap fa fs s) = put_file a ap fa' fs' s"
  using assms
  by (auto simp: appender_at_def put_appender_def record_text_def logger_name_def logger_at_def
      fun_eq_iff split: if_splits option.splits intro!: arg_cong [where f = "\<lambda>nm. LogFormatter_format _ nm _ _ _ _"])

lemma reopen_if_due_eval:
  assumes "appender_at s a = Some ap" and "ap_class ap = FileLogAppender fa"
    and "AppenderLock a \<notin> w_held s" and "refresh_part (w_clock s) fa (w_fs s) = (fa1, fs1)"
  shows "reopen_if_due a fa s = (Inr (), put_file a ap fa1 fs1 s)"
proof (cases "w_clock s = fa_lastTime fa")
  case True
  with assms put_file_same [OF assms(1,2)] show ?thesis
    by (simp add: reopen_if_due_def refresh_part_def)
next
  case False
  obtain st fs where "reopen_stream fa (w_fs s) = (st, fs)" by fastforce
  with assms False FileLogAppender_reopen_eval [OF assms(1-3)] put_file_facts [OF assms(1)] show ?thesis
    by (simp add: reopen_if_due_def refresh_part_def bindc_def set_lastTime_def get_appender_def
        modify_apply)
qed

lemma filestream_put_eval:
  assumes "appender_at s a = Some ap" and "ap_class ap = FileLogAppender fa"
    and "ofstream_put t (fa_filestream fa) (w_fs s) = (st, fs)"
  shows "filestream_put a t s = (Inr (), put_file a ap (fa\<lparr>fa_filestream := st\<rparr>) fs s)"
  using assms by (simp add: filestream_put_def bindc_Inr [OF get_appender_Some])

lemma FileLogAppender_log_eval:
  assumes ap: "appender_at s a = Some ap" and fa: "ap_class ap = FileLogAppender fa"
    and lev: "ap_level ap \<le> level" and free: "AppenderLock a \<notin> w_held s"
    and t: "record_text s ap l level ev = Inr t"
    and fw: "file_write (w_clock s) t fa (w_fs s) = (fa', fs')"
  shows "FileLogAppender_log a l level ev s = (Inr (), put_file a ap fa' fs' s)"
proof -
  obtain fa1 fs1 where r: "refresh_part (w_clock s) fa (w_fs s) = (fa1, fs1)" by fastforce
  with fw obtain st where put: "ofstream_put t (fa_filestream fa1) fs1 = (st, fs')"
    and fa': "fa' = fa1\<lparr>fa_filestream := st\<rparr>"
    by (auto simp: file_write_def split: prod.splits)
  define s1 where "s1 = put_file a ap fa1 fs1 s"
  define s2 where "s2 = s1\<lparr>w_held := insert (AppenderLock a) (w_held s1)\<rparr>"
  have s2: "appender_at s2 a = Some (ap\<lparr>ap_class := FileLogAppender fa1\<rparr>)" "w_fs s2 = fs1"
    "record_text s2 ap l level ev = Inr t"
    using put_file_facts [OF ap] t by (simp_all add: s1_def s2_def)
  have "filestream_put a t s2 = (Inr (), put_file a (ap\<lparr>ap_class := FileLogAppender fa1\<rparr>) fa' fs' s2)"
    using filestream_put_eval [OF s2(1), of fa1] put s2(2) fa' by simp
  moreover have "(put_file a (ap\<lparr>ap_class := FileLogAppender fa1\<rparr>) fa' fs' s2)\<lparr>w_held := w_held s2 - {AppenderLock a}\<rparr>
      = put_file a ap fa' fs' s"
    using free by (simp add: s2_def s1_def put_appender_def)
  ultimately have "with_lock (AppenderLock a) (bindc (appender_text ap l level ev) (filestream_put a)) s1
      = (Inr (), put_file a ap fa' fs' s)"
    using free s2(3) put_file_facts(2) [OF ap, of fa1 fs1]
    by (simp add: with_lock_def s2_def s1_def bindc_def appender_text_record put_appender_def)
  then show ?thesis
    using ap fa lev reopen_if_due_eval [OF ap fa free r]
    by (simp add: FileLogAppender_log_def bindc_def get_appender_def s1_def)
qed


section \<open>The classes keep the contract\<close>

definition is_stdout :: "LogAppender \<Rightarrow> bool" where
  "is_stdout ap \<longleftrightarrow> ap_class ap = StdoutLogAppender"

definition is_file :: "LogAppender \<Rightarrow> bool" where
  "is_file ap \<longleftrightarrow> ap_class ap \<noteq> StdoutLogAppender"

definition console_text :: "LogAppender \<Rightarrow> string \<Rightarrow> string" where
  "console_text ap t = (if ap_class ap = StdoutLogAppender then t else [])"

lemma same_settings_stdout:
  "same_settings ap ap' \<Longrightarrow> ap_class ap' = StdoutLogAppender \<longleftrightarrow> ap_class ap = StdoutLogAppender"
  by (cases "ap_class ap"; cases "ap_class ap'") (auto simp: same_settings_def)

lemma FileLogAppender_log_delivers:
  assumes "appender_at s a = Some ap" and "is_file ap" and "ap_level ap \<le> level"
    and "AppenderLock a \<notin> w_held s" and "record_text s ap l level ev = Inr t"
  shows "\<exists>s'. FileLogAppender_log a l level ev s = (Inr (), s') \<and> w_cout s' = w_cout s"
proof -
  from assms(2) obtain fa where fa: "ap_class ap = FileLogAppender fa"
    by (cases "ap_class ap") (auto simp: is_file_def)
  obtain fa' fs' where "file_write (w_clock s) t fa (w_fs s) = (fa', fs')" by fastforce
  from FileLogAppender_log_eval [OF assms(1) fa assms(3-5) this] show ?thesis
    by (simp add: put_appender_def)
qed

lemma FileLogAppender_log_below:
  assumes "appender_at s a = Some ap" and "is_file ap" and "level < ap_level ap"
  shows "FileLogAppender_log a l level ev s = (Inr (), s)"
  using assms
  by (cases "ap_class ap")
    (auto simp: FileLogAppender_log_def is_file_def bindc_Inr [OF get_appender_Some] comp_simps)

interpretation stdout_appender: appender_contract StdoutLogAppender_log is_stdout "\<lambda>ap t. t"
proof
  fix s a ap level l ev t
  assume "appender_at s a = Some ap" "is_stdout ap" "level < ap_level ap"
  then show "StdoutLogAppender_log a l level ev s = (Inr (), s)"
    by (auto simp: StdoutLogAppender_log_def bindc_Inr [OF get_appender_Some] comp_simps)
qed (auto simp: frame_StdoutLogAppender_log StdoutLogAppender_log_eval is_stdout_def same_settings_stdout)

interpretation file_appender: appender_contract FileLogAppender_log is_file "\<lambda>ap t. []"
  by unfold_locales
    (auto simp: frame_FileLogAppender_log FileLogAppender_log_below FileLogAppender_log_delivers
      is_file_def same_settings_stdout)

lemma LogAppender_log_dispatch:
  assumes "appender_at s a = Some ap"
  shows "LogAppender_log a l level ev s =
     (if is_stdout ap then StdoutLogAppender_log a l level ev s else FileLogAppender_log a l level ev s)"
  using assms
  by (cases "ap_class ap")
    (auto simp: LogAppender_log_def is_stdout_def bindc_Inr [OF get_appender_Some])

interpretation any_appender: appender_contract LogAppender_log "\<lambda>_. True" console_text
proof
  fix s a ap level l ev t
  assume ap: "appender_at s a = Some ap"
  have kind: "is_file ap \<longleftrightarrow> \<not> is_stdout ap" by (simp add: is_file_def is_stdout_def)
  show "LogAppender_log a l level ev s = (Inr (), s)" if "level < ap_level ap"
    using that ap kind stdout_appender.below [OF ap] file_appender.below [OF ap] by (simp add: LogAppender_log_dispatch)
  show "\<exists>s'. LogAppender_log a l level ev s = (Inr (), s') \<and> w_cout s' = w_cout s @ console_text ap t"
    if "ap_level ap \<le> level" "AppenderLock a \<notin> w_held s" "record_text s ap l level ev = Inr t"
    using that ap kind stdout_appender.delivers [OF ap] file_appender.delivers [OF ap]
    by (simp add: LogAppender_log_dispatch console_text_def is_stdout_def)
qed (auto simp: frame_LogAppender_log console_text_def same_settings_stdout fun_eq_iff)

section \<open>The file of a file appender\<close>

text \<open>
  \<open>fs_ok\<close>: the directory only names files that exist. A healthy stream is open on an existing file
  and not in a failed state.
\<close>

definition fs_ok :: "file_system \<Rightarrow> bool" where
  "fs_ok fs \<longleftrightarrow> (\<forall>name f. fs_dir fs name = Some f \<longrightarrow> f < length (fs_data fs))"

lemma reopen_stream_ok:
  assumes "fs_writable fs (fa_filename fa)"
    and "os_fail (fa_filestream fa) \<Longrightarrow> os_file (fa_filestream fa) = None"
    and "reopen_stream fa fs = (st, fs')" and "fs_ok fs"
  shows "\<not> os_fail st" and "os_file st = fs_dir fs' (fa_filename fa)" and "os_file st \<noteq> None" and "fs_ok fs'"
    and "fs_read fs' (fa_filename fa) = Some (case fs_read fs (fa_filename fa) of None \<Rightarrow> [] | Some c \<Rightarrow> c)"
  using assms
  by (auto simp: reopen_stream_def ofstream_open_def ofstream_close_def fs_ok_def fs_read_def Let_def
      nth_append less_Suc_eq split: if_splits option.splits)

text \<open>Whatever happened to the file, the first record of a new second is appended to the file at the path.\<close>

lemma file_write_new_second:
  assumes "fs_ok fs" and "fs_writable fs (fa_filename fa)" and "now \<noteq> fa_lastTime fa"
    and "os_fail (fa_filestream fa) \<Longrightarrow> os_file (fa_filestream fa) = None"
    and "file_write now t fa fs = (fa', fs')"
  shows "fs_read fs' (fa_filename fa) =
           Some ((case fs_read fs (fa_filename fa) of None \<Rightarrow> [] | Some c \<Rightarrow> c) @ t)"
proof -
  obtain st fs1 where r: "reopen_stream fa fs = (st, fs1)" by fastforce
  note ok = reopen_stream_ok [OF assms(2,4) r assms(1)]
  have p: "ofstream_put t st fs1 = (fa_filestream fa', fs')"
    using assms(3,5) r by (auto simp: file_write_def refresh_part_def split: prod.splits)
  show ?thesis
    using ok p by (auto simp: ofstream_put_def fs_read_def fs_ok_def split: if_splits option.splits)
qed

end
