(* ===== verification/Logger.thy ===== *)
theory Logger
  imports LogAppender
begin

text \<open>
  \<open>Logger\<close>, \<open>LoggerManager\<close>, \<open>LogEventWrap\<close> and the logging macros of \<open>src/sylar/log.h\<close> and
  \<open>src/sylar/log.cc\<close>.
\<close>

section \<open>Logger\<close>

definition default_pattern :: string where
  "default_pattern = ''%d%T%t%T%N%T%F%T[%p]%T[%c]%T%f:%l%T%m%n''"

definition Logger_new :: "string \<Rightarrow> ('z, addr) logc" where
  "Logger_new name =
     bindc (lift_result (LogFormatter_new default_pattern)) (\<lambda>lf s.
       (Inr (length (w_loggers s)),
        s\<lparr>w_loggers := w_loggers s @
            [\<lparr>lg_name = name, lg_level = DEBUG, lg_appenders = [], lg_formatter = Some lf, lg_root = None\<rparr>]\<rparr>))"

text \<open>
  \<open>Logger::log\<close>. The call on \<open>m_root\<close> happens with this logger's lock held, so the recursion
  ends: every level of it locks one more logger of the store.
\<close>

function Logger_log :: "addr \<Rightarrow> Level \<Rightarrow> LogEvent \<Rightarrow> ('z, unit) logc" where
  "Logger_log l level ev s =
     (case logger_at s l of
        None \<Rightarrow> (Inl NullDeref, s)
      | Some lg \<Rightarrow>
          if level \<ge> lg_level lg then
            if LoggerLock l \<in> w_held s then (Inl Deadlock, s)
            else
              (let s1 = s\<lparr>w_held := insert (LoggerLock l) (w_held s)\<rparr>;
                   (r, s2) =
                     (if lg_appenders lg \<noteq> [] then
                        for_each (\<lambda>i. LogAppender_log i l level ev) (lg_appenders lg) s1
                      else
                        (case lg_root lg of
                           Some root \<Rightarrow> Logger_log root level ev s1
                         | None \<Rightarrow> (Inr (), s1)))
               in (r, s2\<lparr>w_held := w_held s2 - {LoggerLock l}\<rparr>))
          else (Inr (), s))"
  by pat_completeness auto
termination
proof (relation "measure (\<lambda>(l, level, ev, s). card {i. i < length (w_loggers s) \<and> LoggerLock i \<notin> w_held s})")
  fix l level ev and s s1 :: "'z log_world_scheme" and lg root
  assume lg: "logger_at s l = Some lg" and free: "LoggerLock l \<notin> w_held s"
    and s1: "s1 = s\<lparr>w_held := insert (LoggerLock l) (w_held s)\<rparr>"
  let ?A = "\<lambda>s. {i. i < length (w_loggers s) \<and> LoggerLock i \<notin> w_held s}"
  have "?A s1 = ?A s - {l}" "l \<in> ?A s" "finite (?A s)"
    using lg free s1 by (auto simp: logger_at_eq_Some)
  then have "card (?A s1) < card (?A s)"
    by (metis card_Diff1_less)
  then show "((root, level, ev, s1), l, level, ev, s)
      \<in> measure (\<lambda>(l, level, ev, s). card (?A s))"
    by simp
qed simp

declare Logger_log.simps [simp del]

definition Logger_debug :: "addr \<Rightarrow> LogEvent \<Rightarrow> ('z, unit) logc" where
  "Logger_debug l ev = Logger_log l DEBUG ev"

definition Logger_info :: "addr \<Rightarrow> LogEvent \<Rightarrow> ('z, unit) logc" where
  "Logger_info l ev = Logger_log l INFO ev"

definition Logger_warn :: "addr \<Rightarrow> LogEvent \<Rightarrow> ('z, unit) logc" where
  "Logger_warn l ev = Logger_log l WARN ev"

definition Logger_error :: "addr \<Rightarrow> LogEvent \<Rightarrow> ('z, unit) logc" where
  "Logger_error l ev = Logger_log l ERROR ev"

definition Logger_fatal :: "addr \<Rightarrow> LogEvent \<Rightarrow> ('z, unit) logc" where
  "Logger_fatal l ev = Logger_log l FATAL ev"

text \<open>\<open>addAppender\<close>: an appender without a formatter gets the logger's, and stays marked as inheriting.\<close>

definition Logger_addAppender :: "addr \<Rightarrow> addr \<Rightarrow> ('z, unit) logc" where
  "Logger_addAppender l a =
     bindc (get_logger l) (\<lambda>_.
     with_lock (LoggerLock l)
       (bindc (get_logger l) (\<lambda>lg.
        bindc (LogAppender_getFormmater a) (\<lambda>f.
        bindc (if f = None then
                 with_lock (AppenderLock a) (bindc (get_appender a) (\<lambda>ap.
                   modify (put_appender a (ap\<lparr>ap_formatter := lg_formatter lg\<rparr>))))
               else ret ()) (\<lambda>_.
        modify (put_logger l (lg\<lparr>lg_appenders := lg_appenders lg @ [a]\<rparr>)))))))"

text \<open>\<open>delAppender\<close> erases the first entry that is the given pointer.\<close>

definition Logger_delAppender :: "addr \<Rightarrow> addr \<Rightarrow> ('z, unit) logc" where
  "Logger_delAppender l a =
     bindc (get_logger l) (\<lambda>_.
     with_lock (LoggerLock l)
       (bindc (get_logger l) (\<lambda>lg.
        modify (put_logger l (lg\<lparr>lg_appenders := remove1 a (lg_appenders lg)\<rparr>)))))"

definition Logger_clearAppender :: "addr \<Rightarrow> ('z, unit) logc" where
  "Logger_clearAppender l =
     bindc (get_logger l) (\<lambda>lg. modify (put_logger l (lg\<lparr>lg_appenders := []\<rparr>)))"

definition Logger_getLevel :: "addr \<Rightarrow> ('z, Level) logc" where
  "Logger_getLevel l = bindc (get_logger l) (\<lambda>lg. ret (lg_level lg))"

definition Logger_setLevel :: "addr \<Rightarrow> Level \<Rightarrow> ('z, unit) logc" where
  "Logger_setLevel l level =
     bindc (get_logger l) (\<lambda>lg. modify (put_logger l (lg\<lparr>lg_level := level\<rparr>)))"

definition Logger_getName :: "addr \<Rightarrow> ('z, string) logc" where
  "Logger_getName l = bindc (get_logger l) (\<lambda>lg. ret (lg_name lg))"

definition Logger_getFormatter :: "addr \<Rightarrow> ('z, LogFormatter option) logc" where
  "Logger_getFormatter l =
     bindc (get_logger l) (\<lambda>_.
     with_lock (LoggerLock l) (bindc (get_logger l) (\<lambda>lg. ret (lg_formatter lg))))"

text \<open>\<open>setFormatter(LogFormatter::ptr)\<close>: the appenders that inherit follow the logger.\<close>

definition inherit_formatter :: "LogFormatter option \<Rightarrow> addr \<Rightarrow> ('z, unit) logc" where
  "inherit_formatter val i =
     bindc (get_appender i) (\<lambda>_.
     with_lock (AppenderLock i) (bindc (get_appender i) (\<lambda>ap.
       if \<not> ap_hasFormatter ap then modify (put_appender i (ap\<lparr>ap_formatter := val\<rparr>)) else ret ())))"

definition Logger_setFormatter :: "addr \<Rightarrow> LogFormatter option \<Rightarrow> ('z, unit) logc" where
  "Logger_setFormatter l val =
     bindc (get_logger l) (\<lambda>_.
     with_lock (LoggerLock l)
       (bindc (get_logger l) (\<lambda>lg.
        bindc (modify (put_logger l (lg\<lparr>lg_formatter := val\<rparr>))) (\<lambda>_.
        for_each (inherit_formatter val) (lg_appenders lg)))))"

text \<open>\<open>setFormatter(const std::string&)\<close>: a pattern with an error is reported and not installed.\<close>

definition cout :: "string \<Rightarrow> ('z, unit) logc" where
  "cout text = modify (\<lambda>s. s\<lparr>w_cout := w_cout s @ text\<rparr>)"

definition Logger_setFormatter_str :: "addr \<Rightarrow> string \<Rightarrow> ('z, unit) logc" where
  "Logger_setFormatter_str l val =
     bindc (lift_result (LogFormatter_new val)) (\<lambda>new_val.
       if lf_error new_val then
         bindc (get_logger l) (\<lambda>lg.
           cout (''Logger setFormatter name='' @ lg_name lg @ ''value='' @ val @ '' invalid formatter'' @ newline))
       else Logger_setFormatter l (Some new_val))"

section \<open>LoggerManager\<close>

definition LoggerManager_init :: "('z, unit) logc" where
  "LoggerManager_init = ret ()"

text \<open>The constructor, on a store of loggers and appenders that may already hold other objects.\<close>

definition LoggerManager_new :: "('z, unit) logc" where
  "LoggerManager_new =
     bindc (Logger_new ''root'') (\<lambda>root.
     bindc StdoutLogAppender_new (\<lambda>a.
     bindc (Logger_addAppender root a) (\<lambda>_.
     bindc (modify (\<lambda>s. s\<lparr>w_root := root, w_m_loggers := []\<rparr>)) (\<lambda>_.
     bindc (Logger_getName root) (\<lambda>name.
     bindc (modify (\<lambda>s. s\<lparr>w_m_loggers := omap_put name root (w_m_loggers s)\<rparr>)) (\<lambda>_.
     LoggerManager_init))))))"

definition LoggerManager_getRoot :: "('z, addr) logc" where
  "LoggerManager_getRoot s = (Inr (w_root s), s)"

definition LoggerManager_getLogger :: "string \<Rightarrow> ('z, addr) logc" where
  "LoggerManager_getLogger name =
     with_lock ManagerLock (\<lambda>s.
       case map_of (w_m_loggers s) name of
         Some l \<Rightarrow> (Inr l, s)
       | None \<Rightarrow>
           bindc (Logger_new name) (\<lambda>l.
           bindc (get_logger l) (\<lambda>lg.
           bindc (modify (\<lambda>s. put_logger l (lg\<lparr>lg_root := Some (w_root s)\<rparr>) s)) (\<lambda>_.
           bindc (modify (\<lambda>s. s\<lparr>w_m_loggers := omap_put name l (w_m_loggers s)\<rparr>)) (\<lambda>_.
           ret l)))) s)"

section \<open>LogEventWrap and the macros\<close>

text \<open>The destructor of the wrapper hands the event to its logger.\<close>

definition LogEventWrap_dtor :: "LogEvent \<Rightarrow> ('z, unit) logc" where
  "LogEventWrap_dtor ev = Logger_log (ev_logger ev) (ev_level ev) ev"

text \<open>
  \<open>SYLAR_LOG_LEVEL(logger, level) << text\<close> at a place in the sources given by \<open>file\<close> and \<open>line\<close>,
  and \<open>SYLAR_LOG_FMT_LEVEL\<close> with its format arguments.
\<close>

definition new_event :: "addr \<Rightarrow> Level \<Rightarrow> string \<Rightarrow> i32 \<Rightarrow> 'z log_world_scheme \<Rightarrow> LogEvent" where
  "new_event l level file line s =
     LogEvent_new l level file line 0 (w_tid s) (w_fid s) (w_clock s) (w_tname s)"

definition SYLAR_LOG_LEVEL :: "addr \<Rightarrow> Level \<Rightarrow> string \<Rightarrow> i32 \<Rightarrow> string \<Rightarrow> ('z, unit) logc" where
  "SYLAR_LOG_LEVEL l level file line text =
     bindc (Logger_getLevel l) (\<lambda>logger_level s.
       if logger_level \<le> level then
         LogEventWrap_dtor (LogEvent_getSS_put text (new_event l level file line s)) s
       else (Inr (), s))"

definition SYLAR_LOG_FMT_LEVEL ::
    "(string \<Rightarrow> 'va \<Rightarrow> string option) \<Rightarrow> addr \<Rightarrow> Level \<Rightarrow> string \<Rightarrow> i32 \<Rightarrow> string \<Rightarrow> 'va \<Rightarrow> ('z, unit) logc" where
  "SYLAR_LOG_FMT_LEVEL vasprintf l level file line fmt args =
     bindc (Logger_getLevel l) (\<lambda>logger_level s.
       if logger_level \<le> level then
         LogEventWrap_dtor (LogEvent_format vasprintf fmt args (new_event l level file line s)) s
       else (Inr (), s))"


section \<open>Well-formed logging states\<close>

definition logger_ok :: "'z log_world_scheme \<Rightarrow> Logger \<Rightarrow> bool" where
  "logger_ok s lg \<longleftrightarrow>
     lg_formatter lg \<noteq> None \<and>
     (\<forall>a \<in> set (lg_appenders lg). \<exists>ap. appender_at s a = Some ap \<and> ap_formatter ap \<noteq> None) \<and>
     (lg_root lg = None \<or> lg_root lg = Some (w_root s))"

definition wf_log :: "'z log_world_scheme \<Rightarrow> bool" where
  "wf_log s \<longleftrightarrow>
     (\<forall>l lg. logger_at s l = Some lg \<longrightarrow> logger_ok s lg) \<and>
     (\<exists>root. logger_at s (w_root s) = Some root \<and> lg_name root = ''root'' \<and> lg_root root = None) \<and>
     omap_ok (w_m_loggers s) \<and>
     map_of (w_m_loggers s) ''root'' = Some (w_root s) \<and>
     (\<forall>name l. map_of (w_m_loggers s) name = Some l \<longrightarrow> logger_name s l = Some name)"

text \<open>The environment gives every date format a text that fits the buffer.\<close>

definition dates_ok :: "'z log_world_scheme \<Rightarrow> bool" where
  "dates_ok s \<longleftrightarrow> (\<forall>f t. w_strftime s f t \<noteq> None)"

section \<open>Logging\<close>

lemma format_loop_returns:
  assumes "\<And>f t. tm f t \<noteq> None" and "nm (ev_logger ev) \<noteq> None"
  shows "\<exists>t. format_loop tm nm l level ev items ss = Inr t"
proof (induction items arbitrary: ss)
  case Nil
  then show ?case by simp
next
  case (Cons it items)
  have "\<exists>out. FormatItem_format tm nm l level ev it = Inr out"
    using assms(2) by (cases it) (auto simp: assms(1) split: option.splits)
  with Cons show ?case by auto
qed

lemma record_text_returns:
  assumes "dates_ok s" and "logger_name s (ev_logger ev) \<noteq> None" and "ap_formatter ap \<noteq> None"
  shows "\<exists>t. record_text s ap l level ev = Inr t"
  using assms format_loop_returns [of "w_strftime s" "logger_name s" ev]
  by (auto simp: record_text_def dates_ok_def LogFormatter_format_def)

lemma Logger_log_below:
  "logger_at s l = Some lg \<Longrightarrow> level < lg_level lg \<Longrightarrow> Logger_log l level ev s = (Inr (), s)"
  by (subst Logger_log.simps) auto

lemma Logger_log_above:
  assumes "logger_at s l = Some lg" and "lg_level lg \<le> level" and "LoggerLock l \<notin> w_held s"
  shows "Logger_log l level ev s =
     with_lock (LoggerLock l)
       (if lg_appenders lg \<noteq> [] then for_each (\<lambda>i. LogAppender_log i l level ev) (lg_appenders lg)
        else case lg_root lg of Some root \<Rightarrow> Logger_log root level ev | None \<Rightarrow> ret ()) s"
  using assms by (subst Logger_log.simps) (auto simp: with_lock_def Let_def ret_def split: option.splits)

lemma frame_Logger_log: "log_frame s (snd (Logger_log l level ev s))"
proof (induction l level ev s rule: Logger_log.induct)
  case (1 l level ev s)
  show ?case
  proof (cases "\<exists>lg. logger_at s l = Some lg \<and> lg_level lg \<le> level \<and> LoggerLock l \<notin> w_held s")
    case True
    then obtain lg where lg: "logger_at s l = Some lg" "lg_level lg \<le> level" "LoggerLock l \<notin> w_held s"
      by blast
    let ?s1 = "s\<lparr>w_held := insert (LoggerLock l) (w_held s)\<rparr>"
    let ?body = "if lg_appenders lg \<noteq> [] then for_each (\<lambda>i. LogAppender_log i l level ev) (lg_appenders lg)
        else case lg_root lg of Some root \<Rightarrow> Logger_log root level ev | None \<Rightarrow> ret ()"
    have "log_frame ?s1 (snd (Logger_log root level ev ?s1))" if "lg_appenders lg = []" "lg_root lg = Some root" for root
      by (rule "1.IH" [OF lg refl]) (use that in simp_all)
    then have "log_frame ?s1 (snd (?body ?s1))"
      by (simp add: any_appender.loop_frame ret_def split: option.splits)
    then show ?thesis
      unfolding Logger_log_above [OF lg] by (rule frame_with_lock)
  next
    case False
    then show ?thesis by (subst Logger_log.simps) (auto split: option.splits)
  qed
qed

text \<open>
  What logging an event at a logger shows on the console: nothing below the logger's level; the
  console appenders of the logger in their order; or, when the logger has no appender, what the
  root logger shows.
\<close>

definition own_shown :: "'z log_world_scheme \<Rightarrow> addr \<Rightarrow> Level \<Rightarrow> LogEvent \<Rightarrow> string" where
  "own_shown s l level ev =
     (case logger_at s l of
        None \<Rightarrow> []
      | Some lg \<Rightarrow>
          if lg_level lg \<le> level then concat (map (shown console_text s l level ev) (lg_appenders lg)) else [])"

definition log_shown :: "'z log_world_scheme \<Rightarrow> addr \<Rightarrow> Level \<Rightarrow> LogEvent \<Rightarrow> string" where
  "log_shown s l level ev =
     (case logger_at s l of
        None \<Rightarrow> []
      | Some lg \<Rightarrow>
          if lg_level lg \<le> level \<and> lg_appenders lg = [] \<and> lg_root lg \<noteq> None
          then own_shown s (w_root s) level ev else own_shown s l level ev)"

lemma shown_held [simp]: "shown console (s\<lparr>w_held := h\<rparr>) l level ev = shown console s l level ev"
  by (simp add: fun_eq_iff shown_def split: option.splits sum.splits)

lemma own_shown_held [simp]: "own_shown (s\<lparr>w_held := h\<rparr>) l level ev = own_shown s l level ev"
  by (simp add: own_shown_def split: option.splits)

lemma Logger_log_own:
  assumes lg: "logger_at s l = Some lg" "lg_appenders lg \<noteq> [] \<or> lg_root lg = None"
    and ok: "logger_ok s lg" "dates_ok s" "logger_name s (ev_logger ev) \<noteq> None"
    and free: "LoggerLock l \<notin> w_held s" "\<forall>a. AppenderLock a \<notin> w_held s"
  shows "\<exists>s'. Logger_log l level ev s = (Inr (), s') \<and> w_cout s' = w_cout s @ own_shown s l level ev"
proof (cases "lg_level lg \<le> level")
  case False
  with lg Logger_log_below [of s l lg level ev] show ?thesis by (simp add: own_shown_def)
next
  case True
  let ?s1 = "s\<lparr>w_held := insert (LoggerLock l) (w_held s)\<rparr>"
  have "ready (\<lambda>_. True) ?s1 l level ev a" if "a \<in> set (lg_appenders lg)" for a
  proof -
    from that ok(1) obtain ap where ap: "appender_at s a = Some ap" "ap_formatter ap \<noteq> None"
      by (auto simp: logger_ok_def)
    from record_text_returns [OF ok(2,3) ap(2)] obtain t where "record_text s ap l level ev = Inr t" by blast
    with ap free show ?thesis by (simp add: ready_def)
  qed
  from any_appender.loop_delivers [OF this]
  obtain s2 where "for_each (\<lambda>i. LogAppender_log i l level ev) (lg_appenders lg) ?s1 = (Inr (), s2)"
    "w_cout s2 = w_cout s @ concat (map (shown console_text s l level ev) (lg_appenders lg))"
    by auto
  then show ?thesis
    using lg(1,2) True free unfolding Logger_log_above [OF lg(1) True free(1)]
    by (auto simp: with_lock_def own_shown_def ret_def)
qed

lemma Logger_log_shown:
  assumes wf: "wf_log s" and l: "logger_at s l \<noteq> None" and dates: "dates_ok s"
    and name: "logger_name s (ev_logger ev) \<noteq> None" and free: "w_held s = {}"
  shows "\<exists>s'. Logger_log l level ev s = (Inr (), s') \<and> w_cout s' = w_cout s @ log_shown s l level ev"
proof -
  from l obtain lg where lg: "logger_at s l = Some lg" by blast
  with wf have ok: "logger_ok s lg" by (auto simp: wf_log_def)
  from wf obtain root where root: "logger_at s (w_root s) = Some root" "lg_root root = None" "logger_ok s root"
    by (auto simp: wf_log_def)
  show ?thesis
  proof (cases "lg_level lg \<le> level \<and> lg_appenders lg = [] \<and> lg_root lg \<noteq> None")
    case False
    then consider "lg_appenders lg \<noteq> [] \<or> lg_root lg = None" | "level < lg_level lg" by auto
    then show ?thesis
    proof cases
      case 1
      with Logger_log_own [OF lg 1 ok dates name] lg free False show ?thesis by (auto simp: log_shown_def)
    next
      case 2
      with lg False Logger_log_below [OF lg 2, of ev] show ?thesis by (auto simp: log_shown_def own_shown_def)
    qed
  next
    case True
    let ?s1 = "s\<lparr>w_held := insert (LoggerLock l) (w_held s)\<rparr>"
    from True ok have r: "lg_root lg = Some (w_root s)" by (auto simp: logger_ok_def)
    with root(1,2) lg have "w_root s \<noteq> l" by auto
    then have free1: "LoggerLock (w_root s) \<notin> w_held ?s1" "\<forall>a. AppenderLock a \<notin> w_held ?s1" using free by auto
    have "\<exists>s'. Logger_log (w_root s) level ev ?s1 = (Inr (), s') \<and> w_cout s' = w_cout ?s1 @ own_shown ?s1 (w_root s) level ev"
      using root dates name free1
      by (intro Logger_log_own [where lg = root])
        (auto simp: logger_ok_def dates_ok_def logger_name_held)
    then show ?thesis
      using lg True r free Logger_log_above [OF lg, of level ev]
      by (auto simp: with_lock_def log_shown_def)
  qed
qed

lemma new_event_logger [simp]: "ev_logger (LogEvent_getSS_put text (new_event l level file line s)) = l"
  by (simp add: new_event_def LogEvent_new_def LogEvent_getSS_put_def)

lemma new_event_level [simp]: "ev_level (LogEvent_getSS_put text (new_event l level file line s)) = level"
  by (simp add: new_event_def LogEvent_new_def LogEvent_getSS_put_def)

lemma log_shown_below:
  "logger_at s l = Some lg \<Longrightarrow> level < lg_level lg \<Longrightarrow> log_shown s l level ev = []"
  by (auto simp: log_shown_def own_shown_def)

text \<open>What is shown does not depend on earlier output.\<close>

lemma log_shown_frame: "log_frame s s' \<Longrightarrow> log_shown s' l level ev = log_shown s l level ev"
proof -
  assume fr: "log_frame s s'"
  have "own_shown s' k level ev = own_shown s k level ev" for k
    using fr any_appender.shown_frame [OF fr, abs_def] by (simp add: own_shown_def log_frame_logger_at split: option.splits)
  moreover have "w_root s' = w_root s" using fr by (simp add: log_frame_def)
  ultimately show ?thesis using fr by (auto simp: log_shown_def log_frame_logger_at split: option.splits)
qed

text \<open>A log statement, from the macro to the console.\<close>

lemma SYLAR_LOG_LEVEL_shown:
  assumes "wf_log s" and "w_held s = {}" and "dates_ok s" and "logger_at s l \<noteq> None"
  shows "\<exists>s'. SYLAR_LOG_LEVEL l level file line text s = (Inr (), s') \<and>
     w_cout s' = w_cout s @ log_shown s l level (LogEvent_getSS_put text (new_event l level file line s)) \<and>
     log_frame s s'"
proof -
  let ?ev = "LogEvent_getSS_put text (new_event l level file line s)"
  from assms(4) obtain lg where lg: "logger_at s l = Some lg" by blast
  have ev: "ev_logger ?ev = l" by (simp add: new_event_def LogEvent_new_def LogEvent_getSS_put_def)
  then have "logger_name s (ev_logger ?ev) \<noteq> None" using lg by (simp add: logger_name_def)
  from Logger_log_shown [OF assms(1,4,3) this assms(2), of level]
  obtain s' where s': "Logger_log l level ?ev s = (Inr (), s')" "w_cout s' = w_cout s @ log_shown s l level ?ev" by blast
  have "log_frame s s'" using frame_Logger_log [of s l level ?ev] s'(1) by simp
  with s' lg ev log_shown_below [OF lg] show ?thesis
    by (auto simp: SYLAR_LOG_LEVEL_def Logger_getLevel_def get_logger_def bindc_def ret_def LogEventWrap_dtor_def not_le)
qed

end
