(* ===== verification/LoggerOps.thy ===== *)
theory LoggerOps
  imports Logger
begin

text \<open>
  The operations of \<open>Logger\<close>, \<open>LogAppender\<close> and \<open>LoggerManager\<close> evaluated on states in which the
  calling thread holds no lock, the invariant of the logging state, and the transition system of
  all calls a program can make.
\<close>

section \<open>Every operation on a state with no lock held\<close>

lemma appender_at_put_logger [simp]: "appender_at (put_logger l lg s) a = appender_at s a"
  by (simp add: appender_at_def put_logger_def)

lemma logger_at_put_appender [simp]: "logger_at (put_appender a ap s) l = logger_at s l"
  by (simp add: logger_at_def put_appender_def)

lemma logger_at_put_logger:
  "logger_at (put_logger l lg s) k = (if k = l \<and> logger_at s l \<noteq> None then Some lg else logger_at s k)"
  by (auto simp: logger_at_def put_logger_def)

lemma appender_at_put_appender:
  "appender_at (put_appender a ap s) b = (if b = a \<and> appender_at s a \<noteq> None then Some ap else appender_at s b)"
  by (auto simp: appender_at_def put_appender_def)

lemma put_held [simp]:
  "put_logger l lg (s\<lparr>w_held := h\<rparr>) = (put_logger l lg s)\<lparr>w_held := h\<rparr>"
  "put_appender a ap (s\<lparr>w_held := h\<rparr>) = (put_appender a ap s)\<lparr>w_held := h\<rparr>"
  "w_held (put_logger l lg s) = w_held s" "w_held (put_appender a ap s) = w_held s"
  "w_m_loggers (put_logger l lg s) = w_m_loggers s" "w_m_loggers (put_appender a ap s) = w_m_loggers s"
  "w_root (put_logger l lg s) = w_root s" "w_root (put_appender a ap s) = w_root s"
  by (simp_all add: put_logger_def put_appender_def)

lemma held_idem: "w_held s = {} \<Longrightarrow> s\<lparr>w_held := {}\<rparr> = s"
  by simp

lemmas op_simps = bindc_def with_lock_def get_logger_def get_appender_def comp_simps

lemma LogAppender_setFormatter_eval:
  "appender_at s a = Some ap \<Longrightarrow> w_held s = {} \<Longrightarrow>
     LogAppender_setFormatter a val s =
       (Inr (), put_appender a (ap\<lparr>ap_formatter := val, ap_hasFormatter := (val \<noteq> None)\<rparr>) s)"
  by (simp add: LogAppender_setFormatter_def op_simps held_idem)

lemma LogAppender_setLevel_eval:
  "appender_at s a = Some ap \<Longrightarrow> LogAppender_setLevel a level s = (Inr (), put_appender a (ap\<lparr>ap_level := level\<rparr>) s)"
  by (simp add: LogAppender_setLevel_def op_simps)

lemma Logger_setLevel_eval:
  "logger_at s l = Some lg \<Longrightarrow> Logger_setLevel l level s = (Inr (), put_logger l (lg\<lparr>lg_level := level\<rparr>) s)"
  by (simp add: Logger_setLevel_def op_simps)

lemma Logger_clearAppender_eval:
  "logger_at s l = Some lg \<Longrightarrow> Logger_clearAppender l s = (Inr (), put_logger l (lg\<lparr>lg_appenders := []\<rparr>) s)"
  by (simp add: Logger_clearAppender_def op_simps)

lemma Logger_delAppender_eval:
  "logger_at s l = Some lg \<Longrightarrow> w_held s = {} \<Longrightarrow>
     Logger_delAppender l a s = (Inr (), put_logger l (lg\<lparr>lg_appenders := remove1 a (lg_appenders lg)\<rparr>) s)"
  by (simp add: Logger_delAppender_def op_simps held_idem)

definition with_formatter :: "LogFormatter option \<Rightarrow> LogAppender \<Rightarrow> LogAppender" where
  "with_formatter val ap = (if ap_formatter ap = None then ap\<lparr>ap_formatter := val\<rparr> else ap)"

lemma put_appender_same: "appender_at s a = Some ap \<Longrightarrow> put_appender a ap s = s"
proof -
  assume "appender_at s a = Some ap"
  then have "(w_appenders s)[a := ap] = w_appenders s"
    by (auto simp: appender_at_eq_Some intro: list_update_same_conv [THEN iffD2])
  then show ?thesis by (simp add: put_appender_def)
qed

lemma Logger_addAppender_eval:
  assumes "logger_at s l = Some lg" and "appender_at s a = Some ap" and "w_held s = {}"
  shows "Logger_addAppender l a s =
     (Inr (), put_logger l (lg\<lparr>lg_appenders := lg_appenders lg @ [a]\<rparr>)
        (put_appender a (with_formatter (lg_formatter lg) ap) s))"
  using assms put_appender_same [OF assms(2)]
  by (simp add: Logger_addAppender_def LogAppender_getFormmater_def op_simps with_formatter_def held_idem)

lemma LoggerManager_getLogger_known:
  "w_held s = {} \<Longrightarrow> map_of (w_m_loggers s) name = Some l \<Longrightarrow> LoggerManager_getLogger name s = (Inr l, s)"
  by (simp add: LoggerManager_getLogger_def op_simps held_idem)

definition default_formatter :: LogFormatter where
  "default_formatter =
     \<lparr>lf_pattern = default_pattern,
      lf_items =
        [DateTimeFormatItem ''%Y-%m-%d %H:%M:%S'', TabFormatItem, ThreadFormatItem, TabFormatItem,
         ThreadNameFormatItem, TabFormatItem, FiberFormatItem, TabFormatItem, StringFormatItem ''['',
         LevelFormatItem, StringFormatItem '']'', TabFormatItem, StringFormatItem ''['', NameFormatItem,
         StringFormatItem '']'', TabFormatItem, FilenameFormatItem, StringFormatItem '':'',
         LineFormatItem, TabFormatItem, MessageFormatItem, NewLineFormatItem],
      lf_error = False\<rparr>"

lemma LogFormatter_new_default: "LogFormatter_new default_pattern = Inr default_formatter"
  unfolding default_formatter_def default_pattern_def by code_simp

definition fresh_logger :: "string \<Rightarrow> addr option \<Rightarrow> Logger" where
  "fresh_logger name root =
     \<lparr>lg_name = name, lg_level = DEBUG, lg_appenders = [], lg_formatter = Some default_formatter, lg_root = root\<rparr>"

lemma Logger_new_eval:
  "Logger_new name s = (Inr (length (w_loggers s)), s\<lparr>w_loggers := w_loggers s @ [fresh_logger name None]\<rparr>)"
  by (simp add: Logger_new_def op_simps LogFormatter_new_default fresh_logger_def)

lemma LoggerManager_getLogger_fresh:
  assumes "w_held s = {}" and "map_of (w_m_loggers s) name = None"
  shows "LoggerManager_getLogger name s =
     (Inr (length (w_loggers s)),
      s\<lparr>w_loggers := w_loggers s @ [fresh_logger name (Some (w_root s))],
        w_m_loggers := omap_put name (length (w_loggers s)) (w_m_loggers s)\<rparr>)"
  using assms
  by (simp add: LoggerManager_getLogger_def op_simps Logger_new_eval logger_at_def put_logger_def
      fresh_logger_def)

lemma FileLogAppender_new_eval:
  assumes "w_held s = {}"
    and "reopen_stream \<lparr>fa_filename = filename, fa_filestream = ofstream_new, fa_lastTime = 0\<rparr> (w_fs s) = (st, fs)"
  shows "FileLogAppender_new filename s =
     (Inr (length (w_appenders s)),
      s\<lparr>w_appenders := w_appenders s @
          [\<lparr>ap_level = DEBUG, ap_formatter = None, ap_hasFormatter = False,
            ap_class = FileLogAppender \<lparr>fa_filename = filename, fa_filestream = st, fa_lastTime = 0\<rparr>\<rparr>],
        w_fs := fs\<rparr>)"
proof -
  let ?fa = "\<lparr>fa_filename = filename, fa_filestream = ofstream_new, fa_lastTime = 0\<rparr>"
  let ?ap = "\<lparr>ap_level = DEBUG, ap_formatter = None, ap_hasFormatter = False, ap_class = FileLogAppender ?fa\<rparr>"
  let ?s = "s\<lparr>w_appenders := w_appenders s @ [?ap]\<rparr>"
  have "FileLogAppender_reopen (length (w_appenders s)) ?s =
      (Inr (os_fail st), put_appender (length (w_appenders s))
         (?ap\<lparr>ap_class := FileLogAppender (?fa\<lparr>fa_filestream := st\<rparr>)\<rparr>) (?s\<lparr>w_fs := fs\<rparr>))"
    using assms by (intro FileLogAppender_reopen_eval) (simp_all add: appender_at_def)
  then show ?thesis
    by (simp add: FileLogAppender_new_def op_simps Let_def put_appender_def)
qed

text \<open>The loop of \<open>setFormatter\<close> over the appenders.\<close>

lemma inherit_loop:
  assumes "\<forall>a \<in> set xs. appender_at s a \<noteq> None" and "\<forall>a. AppenderLock a \<notin> w_held s"
  shows "\<exists>aps. for_each (inherit_formatter val) xs s = (Inr (), s\<lparr>w_appenders := aps\<rparr>) \<and>
     length aps = length (w_appenders s) \<and>
     (\<forall>a < length aps. aps ! a =
        (if a \<in> set xs \<and> \<not> ap_hasFormatter (w_appenders s ! a)
         then (w_appenders s ! a)\<lparr>ap_formatter := val\<rparr> else w_appenders s ! a))"
  using assms
proof (induction xs arbitrary: s)
  case Nil
  then show ?case by (auto intro!: exI [of _ "w_appenders s"])
next
  case (Cons x xs)
  from Cons.prems obtain ap where ap: "appender_at s x = Some ap" by auto
  define ap' where "ap' = (if \<not> ap_hasFormatter ap then ap\<lparr>ap_formatter := val\<rparr> else ap)"
  define s1 where "s1 = put_appender x ap' s"
  have one: "inherit_formatter val x s = (Inr (), s1)"
    using ap Cons.prems(2) put_appender_same [OF ap]
    by (auto simp: inherit_formatter_def op_simps s1_def ap'_def)
  have "\<forall>a \<in> set xs. appender_at s1 a \<noteq> None" "\<forall>a. AppenderLock a \<notin> w_held s1"
    using Cons.prems by (auto simp: s1_def appender_at_put_appender)
  from Cons.IH [OF this] obtain aps where
    rest: "for_each (inherit_formatter val) xs s1 = (Inr (), s1\<lparr>w_appenders := aps\<rparr>)"
    and len: "length aps = length (w_appenders s1)"
    and nth: "\<forall>a < length aps. aps ! a =
        (if a \<in> set xs \<and> \<not> ap_hasFormatter (w_appenders s1 ! a)
         then (w_appenders s1 ! a)\<lparr>ap_formatter := val\<rparr> else w_appenders s1 ! a)"
    by blast
  have "w_appenders s1 = (w_appenders s)[x := ap']" "x < length (w_appenders s)" "w_appenders s ! x = ap"
    using ap by (simp_all add: s1_def put_appender_def appender_at_eq_Some)
  then show ?case
    using one rest len nth
    by (auto simp: s1_def put_appender_def nth_list_update ap'_def intro!: exI [of _ aps])
qed


lemma Logger_setFormatter_eval:
  assumes lg: "logger_at s l = Some lg" and aps: "\<forall>a \<in> set (lg_appenders lg). appender_at s a \<noteq> None"
    and free: "w_held s = {}"
  shows "\<exists>t. Logger_setFormatter l val s = (Inr (), t) \<and>
     t = put_logger l (lg\<lparr>lg_formatter := val\<rparr>) (s\<lparr>w_appenders := w_appenders t\<rparr>) \<and>
     (\<forall>a. appender_at t a = map_option (\<lambda>ap.
        if a \<in> set (lg_appenders lg) \<and> \<not> ap_hasFormatter ap then ap\<lparr>ap_formatter := val\<rparr> else ap) (appender_at s a))"
proof -
  define s1 where "s1 = put_logger l (lg\<lparr>lg_formatter := val\<rparr>) (s\<lparr>w_held := {LoggerLock l}\<rparr>)"
  have "\<forall>a \<in> set (lg_appenders lg). appender_at s1 a \<noteq> None" "\<forall>a. AppenderLock a \<notin> w_held s1"
    using aps by (simp_all add: s1_def)
  from inherit_loop [OF this, of val] obtain aps' where
    loop: "for_each (inherit_formatter val) (lg_appenders lg) s1 = (Inr (), s1\<lparr>w_appenders := aps'\<rparr>)"
    and nth: "length aps' = length (w_appenders s1)"
      "\<forall>a < length aps'. aps' ! a =
        (if a \<in> set (lg_appenders lg) \<and> \<not> ap_hasFormatter (w_appenders s1 ! a)
         then (w_appenders s1 ! a)\<lparr>ap_formatter := val\<rparr> else w_appenders s1 ! a)"
    by blast
  have s1_aps: "w_appenders s1 = w_appenders s" by (simp add: s1_def put_logger_def)
  let ?t = "put_logger l (lg\<lparr>lg_formatter := val\<rparr>) (s\<lparr>w_appenders := aps'\<rparr>)"
  have "Logger_setFormatter l val s = (Inr (), ?t)"
    using lg free loop by (simp add: Logger_setFormatter_def op_simps s1_def put_logger_def)
  moreover have "w_appenders ?t = aps'" by (simp add: put_logger_def)
  ultimately show ?thesis
    using nth unfolding s1_aps by (auto simp: appender_at_def)
qed

section \<open>The invariant\<close>

lemma logger_ok_appenders:
  assumes "logger_ok s lg" and "w_root t = w_root s"
    and "\<And>a ap. appender_at s a = Some ap \<Longrightarrow> ap_formatter ap \<noteq> None \<Longrightarrow> \<exists>ap'. appender_at t a = Some ap' \<and> ap_formatter ap' \<noteq> None"
  shows "logger_ok t lg"
  using assms by (fastforce simp: logger_ok_def)

lemma wf_log_transfer:
  assumes "wf_log s" and "w_root t = w_root s" and "w_m_loggers t = w_m_loggers s"
    and "w_loggers t = w_loggers s"
    and "\<And>a ap. appender_at s a = Some ap \<Longrightarrow> ap_formatter ap \<noteq> None \<Longrightarrow> \<exists>ap'. appender_at t a = Some ap' \<and> ap_formatter ap' \<noteq> None"
  shows "wf_log t"
proof -
  have "logger_at t = logger_at s" using assms(4) by (simp add: fun_eq_iff logger_at_def)
  with assms logger_ok_appenders [OF _ assms(2,5)] show ?thesis
    by (simp add: wf_log_def logger_name_def)
qed

lemma wf_log_frame: "log_frame s t \<Longrightarrow> wf_log s \<Longrightarrow> wf_log t"
  by (rule wf_log_transfer [of s])
    (auto simp: log_frame_def same_settings_def appender_at_def list_all2_conv_all_nth split: if_splits)

lemma w_loggers_put_appender: "w_loggers (put_appender a ap s) = w_loggers s"
  by (simp add: put_appender_def)

lemma wf_put_appender:
  assumes "wf_log s" and "appender_at s a = Some ap" and "ap_formatter ap \<noteq> None \<Longrightarrow> ap_formatter ap' \<noteq> None"
  shows "wf_log (put_appender a ap' s)"
  using assms(1)
  by (rule wf_log_transfer) (use assms(2,3) in \<open>auto simp: appender_at_put_appender w_loggers_put_appender\<close>)

lemma wf_put_logger:
  assumes wf: "wf_log s" and lg: "logger_at s l = Some lg" and ok: "logger_ok s lg'"
    and same: "lg_name lg' = lg_name lg" "lg_root lg' = lg_root lg"
  shows "wf_log (put_logger l lg' s)"
proof -
  have "logger_ok (put_logger l lg' s) k \<longleftrightarrow> logger_ok s k" for k
    by (simp add: logger_ok_def)
  moreover have "logger_name (put_logger l lg' s) = logger_name s"
    using lg same(1) by (auto simp: fun_eq_iff logger_name_def logger_at_put_logger)
  ultimately show ?thesis
    using wf lg ok same by (auto simp: wf_log_def logger_at_put_logger)
qed

lemma wf_new_appender: "wf_log s \<Longrightarrow> wf_log (s\<lparr>w_appenders := w_appenders s @ [ap]\<rparr>)"
  by (rule wf_log_transfer [of s]) (auto simp: appender_at_def nth_append split: if_splits)

lemma fresh_logger_sel [simp]: "lg_name (fresh_logger name root) = name" "lg_root (fresh_logger name root) = root"
  by (simp_all add: fresh_logger_def)

lemma wf_new_logger:
  assumes wf: "wf_log s" and new: "map_of (w_m_loggers s) name = None"
  shows "wf_log (s\<lparr>w_loggers := w_loggers s @ [fresh_logger name (Some (w_root s))],
        w_m_loggers := omap_put name (length (w_loggers s)) (w_m_loggers s)\<rparr>)" (is "wf_log ?t")
proof -
  have at: "logger_at ?t k = (if k = length (w_loggers s) then Some (fresh_logger name (Some (w_root s))) else logger_at s k)" for k
    by (simp add: logger_at_def nth_append)
  have ok: "logger_ok ?t k \<longleftrightarrow> logger_ok s k" for k
    by (simp add: logger_ok_def appender_at_def)
  have old: "logger_at s (length (w_loggers s)) = None" by (simp add: logger_at_def)
  have unused: "map_of (w_m_loggers s) name' \<noteq> Some (length (w_loggers s))" for name'
    using wf old by (fastforce simp: wf_log_def logger_name_def)
  have "logger_ok s (fresh_logger name (Some (w_root s)))" by (simp add: logger_ok_def fresh_logger_def)
  with wf new old unused show ?thesis
    by (auto simp: wf_log_def at ok logger_name_def om.ok_put split: if_splits)
qed

text \<open>The invariant of the calls: the state is well formed and the thread holds no lock between calls.\<close>

definition log_inv :: "'z log_world_scheme \<Rightarrow> bool" where
  "log_inv s \<longleftrightarrow> wf_log s \<and> w_held s = {}"

lemma log_inv_logger_ok: "log_inv s \<Longrightarrow> logger_at s l = Some lg \<Longrightarrow> logger_ok s lg"
  by (auto simp: log_inv_def wf_log_def)

lemma inv_frame: "log_frame s t \<Longrightarrow> log_inv s \<Longrightarrow> log_inv t"
  using wf_log_frame [of s t] by (auto simp: log_inv_def log_frame_def)

lemma inv_LogAppender_setFormatter: "log_inv s \<Longrightarrow> log_inv (snd (LogAppender_setFormatter a (Some lf) s))"
proof (cases "appender_at s a")
  case None
  then show "log_inv s \<Longrightarrow> ?thesis"
    by (simp add: LogAppender_setFormatter_def op_simps log_inv_def held_idem)
next
  case (Some ap)
  then show "log_inv s \<Longrightarrow> ?thesis"
    by (auto simp: LogAppender_setFormatter_eval log_inv_def intro!: wf_put_appender)
qed

lemma inv_LogAppender_setLevel: "log_inv s \<Longrightarrow> log_inv (snd (LogAppender_setLevel a level s))"
  by (auto simp: LogAppender_setLevel_def op_simps log_inv_def intro!: wf_put_appender split: option.splits)

lemma inv_Logger_setLevel: "log_inv s \<Longrightarrow> log_inv (snd (Logger_setLevel l level s))"
  by (auto simp: Logger_setLevel_def op_simps log_inv_def wf_log_def [of s] logger_ok_def
      intro!: wf_put_logger split: option.splits)

lemma inv_Logger_clearAppender: "log_inv s \<Longrightarrow> log_inv (snd (Logger_clearAppender l s))"
  by (auto simp: Logger_clearAppender_def op_simps log_inv_def wf_log_def [of s] logger_ok_def
      intro!: wf_put_logger split: option.splits)

lemma inv_Logger_delAppender: "log_inv s \<Longrightarrow> log_inv (snd (Logger_delAppender l a s))"
proof (cases "logger_at s l")
  case (Some lg)
  assume inv: "log_inv s"
  then have "logger_ok s (lg\<lparr>lg_appenders := remove1 a (lg_appenders lg)\<rparr>)"
    using log_inv_logger_ok [OF inv Some] notin_set_remove1 by (fastforce simp: logger_ok_def)
  with inv Some show ?thesis
    by (simp add: Logger_delAppender_eval log_inv_def wf_put_logger)
qed (simp add: Logger_delAppender_def op_simps)

lemma inv_Logger_addAppender: "log_inv s \<Longrightarrow> log_inv (snd (Logger_addAppender l a s))"
proof -
  assume inv: "log_inv s"
  show ?thesis
  proof (cases "logger_at s l")
    case None
    with inv show ?thesis by (simp add: Logger_addAppender_def op_simps)
  next
    case (Some lg)
    note lg = this
    show ?thesis
    proof (cases "appender_at s a")
      case None
      with inv lg show ?thesis
        by (simp add: Logger_addAppender_def LogAppender_getFormmater_def op_simps log_inv_def held_idem)
    next
      case ap: (Some ap)
      let ?s1 = "put_appender a (with_formatter (lg_formatter lg) ap) s"
      note ok = log_inv_logger_ok [OF inv lg]
      have wf1: "wf_log ?s1"
        using inv ap by (auto simp: log_inv_def with_formatter_def intro!: wf_put_appender)
      then have "logger_ok ?s1 lg" using lg by (auto simp: wf_log_def)
      then have "logger_ok ?s1 (lg\<lparr>lg_appenders := lg_appenders lg @ [a]\<rparr>)"
        using ok ap by (auto simp: logger_ok_def with_formatter_def)
      then have "wf_log (put_logger l (lg\<lparr>lg_appenders := lg_appenders lg @ [a]\<rparr>) ?s1)"
        using wf1 lg by (intro wf_put_logger) auto
      with inv lg ap show ?thesis by (simp add: Logger_addAppender_eval log_inv_def)
    qed
  qed
qed

lemma inv_Logger_setFormatter: "log_inv s \<Longrightarrow> log_inv (snd (Logger_setFormatter l (Some lf) s))"
proof (cases "logger_at s l")
  case None
  then show "log_inv s \<Longrightarrow> ?thesis" by (simp add: Logger_setFormatter_def op_simps)
next
  case (Some lg)
  assume inv: "log_inv s"
  have ok: "logger_ok s lg" using log_inv_logger_ok [OF inv Some] .
  with Logger_setFormatter_eval [OF Some, of "Some lf"] inv obtain t where
    t: "Logger_setFormatter l (Some lf) s = (Inr (), t)"
      "t = put_logger l (lg\<lparr>lg_formatter := Some lf\<rparr>) (s\<lparr>w_appenders := w_appenders t\<rparr>)"
    and at: "\<And>a. appender_at t a = map_option (\<lambda>ap.
        if a \<in> set (lg_appenders lg) \<and> \<not> ap_hasFormatter ap then ap\<lparr>ap_formatter := Some lf\<rparr> else ap) (appender_at s a)"
    by (fastforce simp: logger_ok_def log_inv_def)
  define s1 where "s1 = s\<lparr>w_appenders := w_appenders t\<rparr>"
  have at1: "appender_at s1 a = appender_at t a" for a
    by (simp add: s1_def appender_at_def)
  have wf1: "wf_log s1"
    by (rule wf_log_transfer [of s]) (use inv in \<open>auto simp: log_inv_def at1 at, auto simp: s1_def\<close>)
  have lg1: "logger_at s1 l = Some lg" using Some by (auto simp: s1_def logger_at_def split: if_splits)
  with wf1 have "logger_ok s1 (lg\<lparr>lg_formatter := Some lf\<rparr>)" by (auto simp: wf_log_def logger_ok_def)
  with wf1 lg1 have "wf_log (put_logger l (lg\<lparr>lg_formatter := Some lf\<rparr>) s1)" by (intro wf_put_logger) auto
  moreover have "w_held t = {}" using inv by (subst t(2)) (simp add: log_inv_def)
  ultimately show ?thesis using t by (simp add: log_inv_def s1_def)
qed

lemma inv_cout: "log_inv s \<Longrightarrow> log_inv (snd (cout text s))"
  by (rule inv_frame [of s]) (simp_all add: cout_def modify_apply)

lemma inv_Logger_setFormatter_str: "log_inv s \<Longrightarrow> log_inv (snd (Logger_setFormatter_str l val s))"
  unfolding Logger_setFormatter_str_def
  by (rule bindc_inv [where P = log_inv])
    (auto simp: lift_result_apply get_logger_def inv_Logger_setFormatter inv_cout
      intro!: bindc_inv [where P = log_inv] split: option.splits)

lemma inv_StdoutLogAppender_new: "log_inv s \<Longrightarrow> log_inv (snd (StdoutLogAppender_new s))"
  by (simp add: StdoutLogAppender_new_def log_inv_def wf_new_appender)

lemma inv_FileLogAppender_new: "log_inv s \<Longrightarrow> log_inv (snd (FileLogAppender_new filename s))"
proof -
  assume "log_inv s"
  then have "log_inv (s\<lparr>w_appenders := w_appenders s @ [ap]\<rparr>)" for ap
    by (simp add: log_inv_def wf_new_appender)
  then show ?thesis
    unfolding FileLogAppender_new_def Let_def
    by (intro bindc_inv [where P = log_inv]) (auto simp: ret_apply intro: inv_frame [OF frame_FileLogAppender_reopen])
qed

lemma inv_LoggerManager_getLogger: "log_inv s \<Longrightarrow> log_inv (snd (LoggerManager_getLogger name s))"
  using wf_new_logger [of s name]
  by (cases "map_of (w_m_loggers s) name")
    (simp_all add: log_inv_def LoggerManager_getLogger_known LoggerManager_getLogger_fresh)

lemma inv_Logger_log: "log_inv s \<Longrightarrow> log_inv (snd (Logger_log l level ev s))"
  by (rule inv_frame [OF frame_Logger_log])


lemma inv_SYLAR_LOG_LEVEL: "log_inv s \<Longrightarrow> log_inv (snd (SYLAR_LOG_LEVEL l level file line text s))"
  unfolding SYLAR_LOG_LEVEL_def Logger_getLevel_def
  by (rule bindc_inv [where P = log_inv])
    (auto simp: LogEventWrap_dtor_def inv_Logger_log get_logger_def ret_apply
      intro!: bindc_inv [where P = log_inv] split: option.splits)

lemma inv_SYLAR_LOG_FMT_LEVEL:
  "log_inv s \<Longrightarrow> log_inv (snd (SYLAR_LOG_FMT_LEVEL vasprintf l level file line fmt args s))"
  unfolding SYLAR_LOG_FMT_LEVEL_def Logger_getLevel_def
  by (rule bindc_inv [where P = log_inv])
    (auto simp: LogEventWrap_dtor_def inv_Logger_log get_logger_def ret_apply
      intro!: bindc_inv [where P = log_inv] split: option.splits)

lemma inv_env:
  assumes "log_inv s"
  shows "log_inv (s\<lparr>w_fs := fs\<rparr>)" "log_inv (s\<lparr>w_clock := now\<rparr>)"
    "log_inv (s\<lparr>w_tid := tid, w_fid := fid, w_tname := tname\<rparr>)"
  using assms unfolding log_inv_def
  by (auto elim!: wf_log_transfer simp: appender_at_def split: if_splits)

section \<open>All calls a program can make\<close>

text \<open>
  A program calls the operations in any order and with any arguments, except that a formatter it
  installs is not a null pointer; between the calls the clock, the files and the running thread
  change arbitrarily. A call that fails leaves the state it had reached.
\<close>

inductive log_step :: "'z log_world_scheme \<Rightarrow> 'z log_world_scheme \<Rightarrow> bool" where
  step_getLogger: "log_step s (snd (LoggerManager_getLogger name s))"
| step_newStdout: "log_step s (snd (StdoutLogAppender_new s))"
| step_newFile: "log_step s (snd (FileLogAppender_new filename s))"
| step_reopen: "log_step s (snd (FileLogAppender_reopen a s))"
| step_addAppender: "log_step s (snd (Logger_addAppender l a s))"
| step_delAppender: "log_step s (snd (Logger_delAppender l a s))"
| step_clearAppender: "log_step s (snd (Logger_clearAppender l s))"
| step_setLevel: "log_step s (snd (Logger_setLevel l level s))"
| step_setFormatter: "log_step s (snd (Logger_setFormatter l (Some lf) s))"
| step_setPattern: "log_step s (snd (Logger_setFormatter_str l val s))"
| step_appenderLevel: "log_step s (snd (LogAppender_setLevel a level s))"
| step_appenderFormatter: "log_step s (snd (LogAppender_setFormatter a (Some lf) s))"
| step_log: "log_step s (snd (Logger_log l level ev s))"
| step_macro: "log_step s (snd (SYLAR_LOG_LEVEL l level file line text s))"
| step_files: "log_step s (s\<lparr>w_fs := fs\<rparr>)"
| step_time: "log_step s (s\<lparr>w_clock := now\<rparr>)"
| step_thread: "log_step s (s\<lparr>w_tid := tid, w_fid := fid, w_tname := tname\<rparr>)"

text \<open>The state the constructor of the manager leaves on an empty store.\<close>

definition log_init :: "'z log_world_scheme \<Rightarrow> bool" where
  "log_init s \<longleftrightarrow> (\<exists>s0. w_loggers s0 = [] \<and> w_appenders s0 = [] \<and> w_held s0 = {} \<and> LoggerManager_new s0 = (Inr (), s))"

definition console_appender :: LogAppender where
  "console_appender = \<lparr>ap_level = DEBUG, ap_formatter = Some default_formatter, ap_hasFormatter = False,
     ap_class = StdoutLogAppender\<rparr>"

lemma LoggerManager_new_eval:
  assumes "w_loggers s = []" and "w_appenders s = []" and "w_held s = {}"
  shows "LoggerManager_new s =
     (Inr (), s\<lparr>w_loggers := [(fresh_logger ''root'' None)\<lparr>lg_appenders := [0]\<rparr>],
       w_appenders := [console_appender], w_root := 0, w_m_loggers := [(''root'', 0)]\<rparr>)"
proof -
  let ?ap = "\<lparr>ap_level = DEBUG, ap_formatter = None, ap_hasFormatter = False, ap_class = StdoutLogAppender\<rparr>"
  let ?lg = "fresh_logger ''root'' None"
  let ?s2 = "s\<lparr>w_loggers := [?lg], w_appenders := [?ap]\<rparr>"
  have "Logger_addAppender 0 0 ?s2 = (Inr (), put_logger 0 (?lg\<lparr>lg_appenders := lg_appenders ?lg @ [0]\<rparr>)
        (put_appender 0 (with_formatter (lg_formatter ?lg) ?ap) ?s2))"
    using assms by (intro Logger_addAppender_eval) (simp_all add: logger_at_def appender_at_def)
  then show ?thesis
    using assms
    by (simp add: LoggerManager_new_def op_simps Logger_new_eval StdoutLogAppender_new_def with_formatter_def
        fresh_logger_def console_appender_def put_logger_def put_appender_def Logger_getName_def
        LoggerManager_init_def logger_at_def)
qed

lemma inv_log_init: "log_init s \<Longrightarrow> log_inv s"
  by (auto simp: log_init_def LoggerManager_new_eval log_inv_def wf_log_def logger_ok_def logger_at_def
      appender_at_def fresh_logger_def console_appender_def logger_name_def split: if_splits)

interpretation logging: transition_system log_init log_step log_inv
proof
  fix s t
  show "log_step s t \<Longrightarrow> log_inv s \<Longrightarrow> log_inv t"
    by (induction rule: log_step.induct)
      (simp_all add: inv_LoggerManager_getLogger inv_StdoutLogAppender_new inv_FileLogAppender_new
        inv_frame [OF frame_FileLogAppender_reopen] inv_Logger_addAppender inv_Logger_delAppender
        inv_Logger_clearAppender inv_Logger_setLevel inv_Logger_setFormatter inv_Logger_setFormatter_str
        inv_LogAppender_setLevel inv_LogAppender_setFormatter inv_Logger_log inv_SYLAR_LOG_LEVEL inv_env)
qed (rule inv_log_init)

end
