(* ===== verification/LogProperties.thy ===== *)
theory LogProperties
  imports LoggerOps
begin

text \<open>
  The properties of the logging components: the pattern language, the levels, the registry, the
  delivery of records, and the files.
\<close>

section \<open>Patterns and levels\<close>

lemma format_loop_concat:
  assumes "\<forall>it \<in> set items. \<exists>t. FormatItem_format tm nm l level ev it = Inr t"
  shows "format_loop tm nm l level ev items ss =
     Inr (ss @ concat (map (\<lambda>it. projr (FormatItem_format tm nm l level ev it)) items))"
  using assms by (induction items arbitrary: ss) auto

lemma format_loop_fails:
  assumes "FormatItem_format tm nm l level ev it = Inl e"
    and "\<forall>x \<in> set before. \<exists>t. FormatItem_format tm nm l level ev x = Inr t"
  shows "format_loop tm nm l level ev (before @ it # rest) ss = Inl e"
  using assms by (induction before arbitrary: ss) auto

text \<open>The pattern parser returns for every pattern, keeps the pattern, and flags an error exactly
  when some percent sign that is not followed by another one is not followed by a maximal run of
  letters and braces that is a key of the item table.\<close>

theorem LogFormatter_error_exact:
  "\<exists>lf. LogFormatter_new p = Inr lf \<and> lf_pattern lf = p \<and> (lf_error lf \<longleftrightarrow> (\<exists>i. i < length p \<and> bad_item_at p i))"
proof -
  obtain lf where lf: "LogFormatter_new p = Inr lf" using LogFormatter_new_total by blast
  then have "lf_pattern lf = p" by (elim LogFormatter_new_fields)
  with lf lf_error_iff [OF lf] show ?thesis by auto
qed

text \<open>C26: a pattern printed from literals and items, where the literals are non-empty, separated by
  items, free of percent signs and do not continue an item, is parsed without error into exactly
  those items, and a record formatted with it is the texts of the items one after the other.\<close>

theorem LogFormatter_renders:
  assumes "wf_tokens ts"
    and "\<forall>t \<in> set ts. \<exists>out. FormatItem_format tm nm l level ev (tok_item t) = Inr out"
  shows "\<exists>lf. LogFormatter_new (pattern_of ts) = Inr lf \<and> \<not> lf_error lf \<and> lf_items lf = map tok_item ts \<and>
     LogFormatter_format tm nm lf l level ev =
       Inr (concat (map (\<lambda>t. projr (FormatItem_format tm nm l level ev (tok_item t))) ts))"
  using assms format_loop_concat [of "map tok_item ts" tm nm l level ev "[]"]
  by (auto simp: LogFormatter_new_pattern_of LogFormatter_format_def o_def)

theorem LogFormatter_renders_witness:
  "\<exists>lf. LogFormatter_new ''[%p] %m%n'' = Inr lf \<and> \<not> lf_error lf \<and>
     LogFormatter_format (\<lambda>f t. Some ''now'') (\<lambda>a. Some ''root'') lf 0 WARN
       (LogEvent_getSS_put ''hello'' (LogEvent_new 0 WARN ''a.cc'' 3 0 7 0 1000 ''main'')) = Inr (''[WARN] hello'' @ newline)"
proof -
  let ?ts = "[Lit ''['', Item (CHR ''p''), Lit ''] '', Item (CHR ''m''), Item (CHR ''n'')]"
  let ?ev = "LogEvent_getSS_put ''hello'' (LogEvent_new 0 WARN ''a.cc'' 3 0 7 0 1000 ''main'')"
  have wf: "wf_tokens ?ts" by (simp add: s_format_item_def c_isalpha_def)
  have p: "pattern_of ?ts = ''[%p] %m%n''" by (simp add: pattern_of_def)
  have items: "map tok_item ?ts = [StringFormatItem ''['', LevelFormatItem, StringFormatItem ''] '', MessageFormatItem, NewLineFormatItem]"
    by (simp add: s_format_item_def)
  have "\<forall>t \<in> set ?ts. \<exists>out. FormatItem_format (\<lambda>f t. Some ''now'') (\<lambda>a. Some ''root'') 0 WARN ?ev (tok_item t) = Inr out"
    using items by auto
  from LogFormatter_renders [OF wf this] show ?thesis
    unfolding p by (auto simp: s_format_item_def LogEvent_getSS_put_def LogEvent_new_def)
qed

lemma bad_item_at_brace:
  "p ! i = CHR ''%'' \<Longrightarrow> i + 1 < length p \<Longrightarrow> p ! (i + 1) \<noteq> CHR ''%'' \<Longrightarrow> CHR ''{'' \<in> set (item_run p i) \<Longrightarrow> bad_item_at p i"
  by (simp add: bad_item_at_def s_format_item_brace)

text \<open>The two forms of the pattern language that the sources announce and the parser does not
  accept: an item with a format in braces, such as a date format, and a doubled percent sign at
  the end of the pattern. Both are flagged as errors whatever surrounds them.\<close>

theorem LogFormatter_unusable_forms:
  "(\<exists>lf. LogFormatter_new (before @ ''%d{'' @ fmt @ ''}'' @ after) = Inr lf \<and> lf_error lf) \<and>
   (\<exists>lf. LogFormatter_new (before @ ''%%'') = Inr lf \<and> lf_error lf)"
proof
  let ?p = "before @ ''%d{'' @ fmt @ ''}'' @ after"
  obtain lf where lf: "LogFormatter_new ?p = Inr lf" using LogFormatter_new_total by blast
  have "CHR ''{'' \<in> set (item_run ?p (length before))"
    by (simp add: item_run_def c_isalpha_def)
  then have "bad_item_at ?p (length before)"
    by (intro bad_item_at_brace) (auto simp: nth_append)
  with lf_error_iff [OF lf] lf show "\<exists>lf. LogFormatter_new ?p = Inr lf \<and> lf_error lf" by auto
next
  let ?p = "before @ ''%%''"
  obtain lf where lf: "LogFormatter_new ?p = Inr lf" using LogFormatter_new_total by blast
  have "bad_item_at ?p (length before + 1)"
    by (auto simp: bad_item_at_def nth_append item_run_def s_format_item_keys)
  with lf_error_iff [OF lf] lf show "\<exists>lf. LogFormatter_new ?p = Inr lf \<and> lf_error lf" by auto
qed

text \<open>Reading a level back from its name gives the level, for every level but the out-of-range one.\<close>

theorem Level_roundtrip:
  "LogLevel_FromString (LogLevel_ToString l) = (if l = Level100 then UNKNOW else l)"
  by (rule FromString_ToString)

section \<open>What the logging system promises\<close>

text \<open>A process at its start, for the concrete instances below.\<close>

definition blank_world :: log_world where
  "blank_world =
     \<lparr>w_loggers = [], w_appenders = [], w_m_loggers = [], w_root = 0, w_held = {}, w_cout = [],
      w_fs = \<lparr>fs_dir = Map.empty, fs_data = [], fs_writable = (\<lambda>_. True)\<rparr>, w_clock = 1000,
      w_strftime = (\<lambda>f t. Some ''now''), w_tid = 7, w_fid = 0, w_tname = ''main''\<rparr>"

definition start_world :: log_world where
  "start_world = snd (LoggerManager_new blank_world)"

lemma LoggerManager_new_blank: "LoggerManager_new blank_world = (Inr (), start_world)"
  by (simp add: start_world_def LoggerManager_new_eval blank_world_def)

lemma start_world_reachable: "reachable log_init log_step start_world"
proof (rule reach_init)
  have "w_loggers blank_world = []" "w_appenders blank_world = []" "w_held blank_world = {}"
    by (simp_all add: blank_world_def)
  with LoggerManager_new_blank show "log_init start_world" unfolding log_init_def by blast
qed

lemma start_world_fields [simp]:
  "w_m_loggers start_world = [(''root'', 0)]" "w_root start_world = 0" "w_held start_world = {}"
  "w_loggers start_world = [(fresh_logger ''root'' None)\<lparr>lg_appenders := [0]\<rparr>]"
  "w_appenders start_world = [console_appender]" "w_strftime start_world = (\<lambda>f t. Some ''now'')"
  "w_cout start_world = []" "w_tid start_world = 7" "w_fid start_world = 0" "w_tname start_world = ''main''"
  "w_clock start_world = 1000"
  by (simp_all add: start_world_def LoggerManager_new_eval blank_world_def)

text \<open>C12: in every state a program can reach, the loggers are well formed (each logger has a formatter, each
  of its appenders exists and has a formatter, the registry is sorted and files every logger under
  its own name, the root is registered) and no lock is left held.\<close>

theorem logging_invariant:
  "reachable log_init log_step s \<Longrightarrow> wf_log s \<and> w_held s = {}"
  using logging.reach_inv [of s] by (simp add: log_inv_def)

theorem logging_invariant_witness: "wf_log start_world \<and> w_held start_world = {}"
  using logging_invariant [OF start_world_reachable] .

text \<open>C1: from every reachable state, a log statement on a registered logger runs to its end (it neither
  blocks on a lock nor follows a null pointer), writes to the console exactly the records of the
  console appenders of that logger, or of the root logger when the logger has none, and nothing
  when the level is too low, and changes nothing but the output.\<close>

theorem log_statement_delivers:
  assumes "reachable log_init log_step s" and "dates_ok s" and "map_of (w_m_loggers s) name = Some l"
  shows "\<exists>s'. SYLAR_LOG_LEVEL l level file line text s = (Inr (), s') \<and>
     w_cout s' = w_cout s @ log_shown s l level (LogEvent_getSS_put text (new_event l level file line s)) \<and>
     log_frame s s'"
proof -
  have inv: "wf_log s" "w_held s = {}" using logging.reach_inv [OF assms(1)] by (auto simp: log_inv_def)
  with assms(3) have "logger_name s l = Some name" by (auto simp: wf_log_def)
  then have "logger_at s l \<noteq> None" by (auto simp: logger_name_def)
  with inv assms(2) show ?thesis by (intro SYLAR_LOG_LEVEL_shown)
qed

theorem log_statement_delivers_witness:
  "\<exists>s'. SYLAR_LOG_LEVEL 0 INFO ''a.cc'' 3 ''hello'' start_world = (Inr (), s') \<and>
     w_cout s' = ''now'' @ tab @ ''7'' @ tab @ ''main'' @ tab @ ''0'' @ tab @ ''[INFO]'' @ tab @ ''[root]'' @ tab @ ''a.cc:3'' @ tab @ ''hello'' @ newline"
proof -
  have "dates_ok start_world" by (simp add: dates_ok_def)
  moreover have "log_shown start_world 0 INFO (LogEvent_getSS_put ''hello'' (new_event 0 INFO ''a.cc'' 3 start_world)) =
     ''now'' @ tab @ ''7'' @ tab @ ''main'' @ tab @ ''0'' @ tab @ ''[INFO]'' @ tab @ ''[root]'' @ tab @ ''a.cc:3'' @ tab @ ''hello'' @ newline"
    by (simp add: log_shown_def own_shown_def logger_at_def fresh_logger_def shown_def appender_at_def
        console_appender_def record_text_def LogFormatter_format_def default_formatter_def console_text_def
        new_event_def LogEvent_new_def LogEvent_getSS_put_def logger_name_def show_nat.simps show_int_def Level_order digit_chars)
  ultimately show ?thesis
    using log_statement_delivers [OF start_world_reachable, of "''root''" 0 INFO "''a.cc''" 3 "''hello''"] by auto
qed

text \<open>In every reachable state \<open>getLogger\<close> returns a logger of the given name, creating and
  registering it when there is none; asked again it returns the same object and changes nothing,
  and no other registration is touched.\<close>

theorem getLogger_registers:
  assumes "reachable log_init log_step s"
  shows "\<exists>l t. LoggerManager_getLogger name s = (Inr l, t) \<and> logger_name t l = Some name \<and>
     map_of (w_m_loggers t) = (map_of (w_m_loggers s))(name \<mapsto> l) \<and>
     LoggerManager_getLogger name t = (Inr l, t)"
proof -
  have inv: "wf_log s" "w_held s = {}" using logging.reach_inv [OF assms] by (auto simp: log_inv_def)
  show ?thesis
  proof (cases "map_of (w_m_loggers s) name")
    case None
    with inv show ?thesis
      by (auto simp: LoggerManager_getLogger_fresh LoggerManager_getLogger_known logger_name_def logger_at_def)
  next
    case (Some l)
    then have "logger_name s l = Some name" using inv by (auto simp: wf_log_def)
    with Some inv show ?thesis by (auto simp: LoggerManager_getLogger_known)
  qed
qed

theorem getLogger_registers_witness:
  "\<exists>l t. LoggerManager_getLogger ''system'' start_world = (Inr l, t) \<and> logger_name t l = Some ''system'' \<and>
     map_of (w_m_loggers t) = [''root'' \<mapsto> 0, ''system'' \<mapsto> l] \<and>
     LoggerManager_getLogger ''system'' t = (Inr l, t)"
  using getLogger_registers [OF start_world_reachable, of "''system''"] by (simp add: fun_upd_twist)

text \<open>\<open>setFormatter\<close> with a pattern: a pattern the parser flags is reported on the console and
  nothing else changes; any other becomes the formatter of the logger and of exactly those of its
  appenders that have no formatter of their own.\<close>

theorem setFormatter_pattern:
  assumes "reachable log_init log_step s" and "logger_at s l = Some lg" and "LogFormatter_new val = Inr lf"
  shows "\<exists>t. Logger_setFormatter_str l val s = (Inr (), t) \<and>
     (if lf_error lf then
        t = s\<lparr>w_cout := w_cout s @ ''Logger setFormatter name='' @ lg_name lg @ ''value='' @ val @ '' invalid formatter'' @ newline\<rparr>
      else
        logger_at t = (logger_at s)(l \<mapsto> lg\<lparr>lg_formatter := Some lf\<rparr>) \<and>
        (\<forall>a. appender_at t a = map_option (\<lambda>ap.
           if a \<in> set (lg_appenders lg) \<and> \<not> ap_hasFormatter ap then ap\<lparr>ap_formatter := Some lf\<rparr> else ap)
           (appender_at s a)))"
proof (cases "lf_error lf")
  case True
  with assms show ?thesis by (simp add: Logger_setFormatter_str_def op_simps cout_def)
next
  case False
  have inv: "log_inv s" using logging.reach_inv [OF assms(1)] .
  then have ok: "logger_ok s lg" using assms(2) by (rule log_inv_logger_ok)
  from Logger_setFormatter_eval [OF assms(2), of "Some lf"] ok inv obtain t where
    t: "Logger_setFormatter l (Some lf) s = (Inr (), t)"
      "t = put_logger l (lg\<lparr>lg_formatter := Some lf\<rparr>) (s\<lparr>w_appenders := w_appenders t\<rparr>)"
    and at: "\<forall>a. appender_at t a = map_option (\<lambda>ap.
        if a \<in> set (lg_appenders lg) \<and> \<not> ap_hasFormatter ap then ap\<lparr>ap_formatter := Some lf\<rparr> else ap) (appender_at s a)"
    by (fastforce simp: logger_ok_def log_inv_def)
  have "logger_at t k = ((logger_at s)(l \<mapsto> lg\<lparr>lg_formatter := Some lf\<rparr>)) k" for k
    using assms(2) by (subst t(2)) (auto simp: logger_at_put_logger, auto simp: logger_at_def split: if_splits)
  with t(1) at False assms(3) show ?thesis
    by (auto simp: Logger_setFormatter_str_def op_simps fun_eq_iff)
qed

lemma start_world_at:
  "logger_at start_world 0 = Some ((fresh_logger ''root'' None)\<lparr>lg_appenders := [0]\<rparr>)"
  "appender_at start_world 0 = Some console_appender"
  by (simp_all add: logger_at_def appender_at_def)

theorem setFormatter_pattern_witness:
  "\<exists>t. Logger_setFormatter_str 0 ''%p %m%n'' start_world = (Inr (), t) \<and>
     appender_at t 0 = Some (console_appender\<lparr>ap_formatter := Some
       \<lparr>lf_pattern = ''%p %m%n'', lf_items = [LevelFormatItem, StringFormatItem '' '', MessageFormatItem, NewLineFormatItem],
        lf_error = False\<rparr>\<rparr>)"
proof -
  have "LogFormatter_new ''%p %m%n'' = Inr \<lparr>lf_pattern = ''%p %m%n'',
      lf_items = [LevelFormatItem, StringFormatItem '' '', MessageFormatItem, NewLineFormatItem], lf_error = False\<rparr>"
    by code_simp
  from setFormatter_pattern [OF start_world_reachable start_world_at(1) this] show ?thesis
    by (auto simp: start_world_at(2) console_appender_def)
qed

text \<open>\<open>addAppender\<close> gives an appender without a formatter the logger's one, leaves it marked as
  inheriting, and appends it to the logger; \<open>delAppender\<close> then takes out the first occurrence only,
  so that adding an appender the logger does not have and deleting it gives back the logger.\<close>

theorem addAppender_delAppender:
  assumes "reachable log_init log_step s" and "logger_at s l = Some lg" and "appender_at s a = Some ap"
    and "a \<notin> set (lg_appenders lg)"
  shows "\<exists>t u. Logger_addAppender l a s = (Inr (), t) \<and>
     logger_at t l = Some (lg\<lparr>lg_appenders := lg_appenders lg @ [a]\<rparr>) \<and>
     appender_at t a = Some (if ap_formatter ap = None then ap\<lparr>ap_formatter := lg_formatter lg\<rparr> else ap) \<and>
     Logger_delAppender l a t = (Inr (), u) \<and> w_loggers u = w_loggers s"
proof -
  have free: "w_held s = {}" using logging.reach_inv [OF assms(1)] by (simp add: log_inv_def)
  let ?t = "put_logger l (lg\<lparr>lg_appenders := lg_appenders lg @ [a]\<rparr>)
        (put_appender a (with_formatter (lg_formatter lg) ap) s)"
  have t: "logger_at ?t l = Some (lg\<lparr>lg_appenders := lg_appenders lg @ [a]\<rparr>)" "w_held ?t = {}"
    using assms free by (simp_all add: logger_at_put_logger)
  have "(w_loggers s)[l := lg] = w_loggers s"
    using assms(2) by (auto simp: logger_at_eq_Some intro: list_update_same_conv [THEN iffD2])
  then show ?thesis
    using assms t Logger_addAppender_eval [OF assms(2,3) free] Logger_delAppender_eval [OF t, of a]
    by (auto simp: with_formatter_def remove1_append put_logger_def put_appender_def appender_at_def
        split: if_splits)
qed


text \<open>A start state with a second logger and a file appender, reached by calls.\<close>

definition file_world :: log_world where
  "file_world = snd (FileLogAppender_new ''a.log'' start_world)"

lemma file_world_reachable: "reachable log_init log_step file_world"
  unfolding file_world_def by (rule reach_step [OF start_world_reachable step_newFile])

definition log_file :: FileLogAppender_part where
  "log_file = \<lparr>fa_filename = ''a.log'', fa_filestream = \<lparr>os_file = Some 0, os_fail = False\<rparr>, fa_lastTime = 0\<rparr>"

lemma start_world_fs: "w_fs start_world = \<lparr>fs_dir = Map.empty, fs_data = [], fs_writable = (\<lambda>_. True)\<rparr>"
  by (simp add: start_world_def LoggerManager_new_eval blank_world_def)

lemma file_world_eq:
  "file_world = start_world\<lparr>w_appenders := [console_appender,
       \<lparr>ap_level = DEBUG, ap_formatter = None, ap_hasFormatter = False, ap_class = FileLogAppender log_file\<rparr>],
     w_fs := \<lparr>fs_dir = [''a.log'' \<mapsto> 0], fs_data = [[]], fs_writable = (\<lambda>_. True)\<rparr>\<rparr>"
  unfolding file_world_def log_file_def
  by (subst FileLogAppender_new_eval)
    (simp_all add: reopen_stream_def ofstream_close_def ofstream_new_def ofstream_open_def start_world_fs Let_def)

lemma file_world_at:
  "logger_at file_world 0 = Some ((fresh_logger ''root'' None)\<lparr>lg_appenders := [0]\<rparr>)"
  "appender_at file_world 1 = Some \<lparr>ap_level = DEBUG, ap_formatter = None, ap_hasFormatter = False,
     ap_class = FileLogAppender log_file\<rparr>"
  "w_held file_world = {}"
  by (simp_all add: file_world_eq logger_at_def appender_at_def)

theorem addAppender_delAppender_witness:
  "\<exists>t u. Logger_addAppender 0 1 file_world = (Inr (), t) \<and>
     Logger_delAppender 0 1 t = (Inr (), u) \<and> w_loggers u = w_loggers file_world"
  using addAppender_delAppender [OF file_world_reachable file_world_at(1,2)] by auto

text \<open>C34: the first record a file appender writes in a new second ends up at the end of the file that
  has the configured path at that time, also when the file was removed or replaced since the last
  record; the appender stays as configured.\<close>

theorem file_record_survives_removal:
  assumes "appender_at s a = Some ap" and "ap_class ap = FileLogAppender fa" and "ap_level ap \<le> level"
    and "AppenderLock a \<notin> w_held s" and "record_text s ap l level ev = Inr t"
    and "fs_ok (w_fs s)" and "fs_writable (w_fs s) (fa_filename fa)" and "w_clock s \<noteq> fa_lastTime fa"
    and "os_fail (fa_filestream fa) \<Longrightarrow> os_file (fa_filestream fa) = None"
  shows "\<exists>s'. LogAppender_log a l level ev s = (Inr (), s') \<and>
     fs_read (w_fs s') (fa_filename fa) =
       Some ((case fs_read (w_fs s) (fa_filename fa) of None \<Rightarrow> [] | Some c \<Rightarrow> c) @ t) \<and> log_frame s s'"
proof -
  obtain fa' fs' where fw: "file_write (w_clock s) t fa (w_fs s) = (fa', fs')" by fastforce
  have log: "LogAppender_log a l level ev s = (Inr (), put_file a ap fa' fs' s)"
    using assms FileLogAppender_log_eval [OF assms(1-5) fw] by (simp add: LogAppender_log_dispatch is_stdout_def)
  moreover have "log_frame s (put_file a ap fa' fs' s)"
    using frame_LogAppender_log [of s a l level ev] log by simp
  ultimately show ?thesis
    using file_write_new_second [OF assms(6,7,8,9) fw] put_file_facts(3) [OF assms(1)] by simp
qed

text \<open>The file of \<open>file_world\<close> is removed before the record is written.\<close>

definition removed_world :: log_world where
  "removed_world = (snd (Logger_addAppender 0 1 file_world))\<lparr>w_fs := \<lparr>fs_dir = Map.empty, fs_data = [''old''], fs_writable = (\<lambda>_. True)\<rparr>\<rparr>"

theorem file_record_survives_removal_witness:
  "\<exists>s'. LogAppender_log 1 0 INFO (LogEvent_getSS_put ''x'' (new_event 0 INFO ''a.cc'' 3 removed_world)) removed_world = (Inr (), s') \<and>
     fs_read (w_fs s') ''a.log'' =
       Some (''now'' @ tab @ ''7'' @ tab @ ''main'' @ tab @ ''0'' @ tab @ ''[INFO]'' @ tab @ ''[root]'' @ tab @ ''a.cc:3'' @ tab @ ''x'' @ newline)"
proof -
  let ?ap = "\<lparr>ap_level = DEBUG, ap_formatter = Some default_formatter, ap_hasFormatter = False, ap_class = FileLogAppender log_file\<rparr>"
  let ?ev = "LogEvent_getSS_put ''x'' (new_event 0 INFO ''a.cc'' 3 removed_world)"
  let ?t = "''now'' @ tab @ ''7'' @ tab @ ''main'' @ tab @ ''0'' @ tab @ ''[INFO]'' @ tab @ ''[root]'' @ tab @ ''a.cc:3'' @ tab @ ''x'' @ newline"
  have w: "removed_world = file_world\<lparr>w_loggers := [(fresh_logger ''root'' None)\<lparr>lg_appenders := [0, 1]\<rparr>],
      w_appenders := [console_appender, ?ap], w_fs := \<lparr>fs_dir = Map.empty, fs_data = [''old''], fs_writable = (\<lambda>_. True)\<rparr>\<rparr>"
    unfolding removed_world_def Logger_addAppender_eval [OF file_world_at]
    by (simp add: file_world_eq with_formatter_def fresh_logger_def put_logger_def put_appender_def)
  have rec: "record_text removed_world ?ap 0 INFO ?ev = Inr ?t"
    by (simp add: w file_world_eq record_text_def LogFormatter_format_def default_formatter_def
        new_event_def LogEvent_new_def LogEvent_getSS_put_def logger_name_def logger_at_def fresh_logger_def
        show_nat.simps show_int_def digit_chars)
  have "\<exists>s'. LogAppender_log 1 0 INFO ?ev removed_world = (Inr (), s') \<and>
     fs_read (w_fs s') (fa_filename log_file) =
       Some ((case fs_read (w_fs removed_world) (fa_filename log_file) of None \<Rightarrow> [] | Some c \<Rightarrow> c) @ ?t) \<and>
     log_frame removed_world s'"
    by (rule file_record_survives_removal [OF _ _ _ _ rec])
      (simp_all add: w file_world_eq appender_at_def log_file_def fs_ok_def Level_order)
  moreover have "fs_read (w_fs removed_world) (fa_filename log_file) = None" "fa_filename log_file = ''a.log''"
    by (simp_all add: w fs_read_def log_file_def)
  ultimately show ?thesis by auto
qed


text \<open>\<open>reopen\<close> returns whether the stream is in a failed state, so it returns false when the path can be
  opened and true when it cannot; a successful reopen leaves the stream on the file of the path.\<close>

theorem reopen_reports_failure:
  assumes "appender_at s a = Some ap" and "ap_class ap = FileLogAppender fa" and "AppenderLock a \<notin> w_held s"
    and "os_fail (fa_filestream fa) \<Longrightarrow> os_file (fa_filestream fa) = None"
  shows "\<exists>s' st. FileLogAppender_reopen a s = (Inr (\<not> fs_writable (w_fs s) (fa_filename fa)), s') \<and>
     appender_at s' a = Some (ap\<lparr>ap_class := FileLogAppender (fa\<lparr>fa_filestream := st\<rparr>)\<rparr>) \<and>
     os_file st = (if fs_writable (w_fs s) (fa_filename fa) then fs_dir (w_fs s') (fa_filename fa) else None)"
proof -
  obtain st fs where r: "reopen_stream fa (w_fs s) = (st, fs)" by fastforce
  then have "os_fail st = (\<not> fs_writable (w_fs s) (fa_filename fa))"
    "os_file st = (if fs_writable (w_fs s) (fa_filename fa) then fs_dir fs (fa_filename fa) else None)"
    using assms(4)
    by (auto simp: reopen_stream_def ofstream_open_def ofstream_close_def Let_def split: if_splits option.splits)
  with FileLogAppender_reopen_eval [OF assms(1-3) r] put_file_facts [OF assms(1)] show ?thesis
    by auto
qed

theorem reopen_reports_failure_witness:
  "\<exists>s'. FileLogAppender_reopen 1 file_world = (Inr False, s')"
  using reopen_reports_failure [OF file_world_at(2), of log_file]
  by (auto simp: file_world_at(3) file_world_eq log_file_def)

end
