(* ===== verification/LogFormatterRef.thy ===== *)
theory LogFormatterRef
  imports LogProperties
begin

text \<open>
  The pattern language of \<open>LogFormatter\<close> as a parser on lists: what \<open>LogFormatter::init\<close> (\<open>src/sylar/log.cc\<close>)
  makes of a pattern, without indices, status flags and the intermediate vector, and the proof that the
  two agree on every pattern.
\<close>

section \<open>The reference parser\<close>

text \<open>
  A percent sign starts an item, whose key is the letters and closing braces that follow it. If an opening brace comes
  next, everything to the closing brace belongs to the key too, which then is in no table; when there is no closing
  brace before the end of the letters, the percent sign is reported and dropped. Each item comes with whether it is an error.
\<close>

definition key_char :: "char \<Rightarrow> bool" where
  "key_char c \<longleftrightarrow> item_char c \<and> c \<noteq> CHR ''{''"

definition format_char :: "char \<Rightarrow> bool" where
  "format_char c \<longleftrightarrow> item_char c \<and> c \<noteq> CHR ''}''"

definition literal_items :: "string \<Rightarrow> (FormatItem \<times> bool) list" where
  "literal_items lit = (if lit = [] then [] else [(StringFormatItem lit, False)])"

definition key_item :: "string \<Rightarrow> FormatItem \<times> bool" where
  "key_item key =
     (case map_of s_format_item key of
        None \<Rightarrow> (StringFormatItem (''<<error_format %'' @ key @ ''>>''), True)
      | Some mk \<Rightarrow> (mk [], False))"

function pattern_items :: "string \<Rightarrow> string \<Rightarrow> (FormatItem \<times> bool) list" where
  "pattern_items lit [] = literal_items lit"
| "pattern_items lit (c # cs) =
     (if c \<noteq> CHR ''%'' then pattern_items (lit @ [c]) cs
      else if cs \<noteq> [] \<and> hd cs = CHR ''%'' then pattern_items (lit @ ''%'') cs
      else
        (let key = takeWhile key_char cs; rest = dropWhile key_char cs in
         if rest \<noteq> [] \<and> hd rest = CHR ''{'' then
           (let fmt = takeWhile format_char (tl rest); after = dropWhile format_char (tl rest) in
            if after \<noteq> [] \<and> hd after = CHR ''}'' then
              literal_items lit @ key_item (key @ ''{'' @ fmt @ ''}'') # pattern_items [] (tl after)
            else (StringFormatItem ''<<pattern_error>>'', True) # pattern_items lit cs)
         else literal_items lit @ key_item key # pattern_items [] rest))"
  by pat_completeness auto
termination
proof (relation "measure (\<lambda>(lit, cs). length cs)")
  fix lit :: string and c cs key rest fmt after
  assume "rest = dropWhile key_char cs" "after = dropWhile format_char (tl rest)"
  then have "length rest \<le> length cs" "length after \<le> length rest"
    using length_dropWhile_le [of key_char cs] length_dropWhile_le [of format_char "tl rest"] by auto
  then show "(([], tl after), lit, c # cs) \<in> measure (\<lambda>(lit, cs). length cs)" by simp
next
  fix lit :: string and c cs key rest
  assume "rest = dropWhile key_char cs"
  then show "(([], rest), lit, c # cs) \<in> measure (\<lambda>(lit, cs). length cs)"
    using length_dropWhile_le [of key_char cs] by auto
qed simp_all

declare pattern_items.simps [simp del]

lemma pattern_items_percent:
  assumes "\<not> (cs \<noteq> [] \<and> hd cs = CHR ''%'')"
    and "key = takeWhile key_char cs" and "rest = dropWhile key_char cs"
    and "fmt = takeWhile format_char (tl rest)" and "after = dropWhile format_char (tl rest)"
  shows "pattern_items lit (CHR ''%'' # cs) =
     (if rest \<noteq> [] \<and> hd rest = CHR ''{'' then
        (if after \<noteq> [] \<and> hd after = CHR ''}'' then
           literal_items lit @ key_item (key @ ''{'' @ fmt @ ''}'') # pattern_items [] (tl after)
         else (StringFormatItem ''<<pattern_error>>'', True) # pattern_items lit cs)
      else literal_items lit @ key_item key # pattern_items [] rest)"
  unfolding pattern_items.simps(2) Let_def assms(2-5) if_not_P [OF assms(1)] by simp

section \<open>The inner loop\<close>

lemma drop_at: "n < length p \<Longrightarrow> drop n p = p ! n # drop (n + 1) p"
  by (simp add: Cons_nth_drop_Suc)

text \<open>Inside the braces the loop runs to the closing brace or to the end of the letters.\<close>

lemma scan_item_format:
  assumes "fb \<le> n" and "n \<le> length p"
  shows "\<exists>fmt'. scan_item p i n 1 fb str fmt =
     (let m = n + length (takeWhile format_char (drop n p)) in
      if m < length p \<and> p ! m = CHR ''}'' then Inr (m + 1, 0, str, fmt') else Inr (m, 1, str, fmt))"
  using assms
proof (induction "length p - n" arbitrary: n)
  case 0
  then show ?case by (subst scan_item.simps) simp
next
  case (Suc k)
  then have n: "n < length p" by simp
  consider "\<not> item_char (p ! n)" | "p ! n = CHR ''}''" | "format_char (p ! n)" by (auto simp: format_char_def)
  then show ?case
  proof cases
    case 3
    with n have "scan_item p i n 1 fb str fmt = scan_item p i (n + 1) 1 fb str fmt"
      by (subst scan_item.simps) (auto simp: format_char_def)
    moreover have "length (takeWhile format_char (drop n p)) = 1 + length (takeWhile format_char (drop (n + 1) p))"
      using 3 by (simp add: drop_at [OF n])
    ultimately show ?thesis using Suc.hyps(1) [of "n + 1"] Suc.hyps(2) Suc.prems by simp
  next
    case 2
    with Suc.prems n have "scan_item p i n 1 fb str fmt =
        (case substr p (fb + 1) (size_sub (size_sub n fb) 1) of Inl e \<Rightarrow> Inl e | Inr fmt' \<Rightarrow> Inr (n + 1, 0, str, fmt'))"
      by (subst scan_item.simps) simp
    moreover have "takeWhile format_char (drop n p) = []" using 2 by (simp add: drop_at [OF n] format_char_def)
    ultimately show ?thesis using 2 n Suc.prems by (simp add: substr_def)
  next
    case 1
    then have "takeWhile format_char (drop n p) = []" by (auto simp: drop_at [OF n] format_char_def)
    with 1 n show ?thesis by (subst scan_item.simps) auto
  qed
qed

lemma scan_item_key:
  assumes "i < n" and "n \<le> length p"
  shows "scan_item p i n 0 fb str fmt =
     (let m = n + length (takeWhile key_char (drop n p)) in
      if m < length p \<and> p ! m = CHR ''{'' then scan_item p i (m + 1) 1 (m + 1) (take (m - i - 1) (drop (i + 1) p)) fmt
      else Inr (m, 0, str, fmt))"
  using assms
proof (induction "length p - n" arbitrary: n)
  case 0
  then show ?case by (subst scan_item.simps) simp
next
  case (Suc k)
  then have n: "n < length p" by simp
  consider "\<not> item_char (p ! n)" | "p ! n = CHR ''{''" | "key_char (p ! n)" by (auto simp: key_char_def)
  then show ?case
  proof cases
    case 3
    with n have "scan_item p i n 0 fb str fmt = scan_item p i (n + 1) 0 fb str fmt"
      by (subst scan_item.simps) (auto simp: key_char_def)
    moreover have "length (takeWhile key_char (drop n p)) = 1 + length (takeWhile key_char (drop (n + 1) p))"
      using 3 by (simp add: drop_at [OF n])
    ultimately show ?thesis using Suc.hyps(1) [of "n + 1"] Suc.hyps(2) Suc.prems by simp
  next
    case 2
    with Suc.prems n have "scan_item p i n 0 fb str fmt =
        (case substr p (i + 1) (n - i - 1) of Inl e \<Rightarrow> Inl e | Inr str' \<Rightarrow> scan_item p i (n + 1) 1 (n + 1) str' fmt)"
      by (subst scan_item.simps) simp
    moreover have "takeWhile key_char (drop n p) = []" using 2 by (simp add: drop_at [OF n] key_char_def)
    ultimately show ?thesis using 2 n Suc.prems by (simp add: substr_def)
  next
    case 1
    then have "takeWhile key_char (drop n p) = []" by (auto simp: drop_at [OF n] key_char_def)
    with 1 n show ?thesis by (subst scan_item.simps) auto
  qed
qed

text \<open>The two loops together, in terms of the text after the percent sign.\<close>

lemma dropWhile_drop: "dropWhile P xs = drop (length (takeWhile P xs)) xs"
  by (metis append_eq_conv_conj takeWhile_dropWhile_id)

lemma hd_drop_at: "drop m p \<noteq> [] \<and> hd (drop m p) = c \<longleftrightarrow> m < length p \<and> p ! m = c"
  by (auto simp: hd_drop_conv_nth)

lemma scan_item_plain:
  assumes i: "i < length p" and key: "key = takeWhile key_char (drop (i + 1) p)" "rest = dropWhile key_char (drop (i + 1) p)"
    and plain: "\<not> (rest \<noteq> [] \<and> hd rest = CHR ''{'')"
  shows "scan_item p i (i + 1) 0 0 [] [] = Inr (i + 1 + length key, 0, [], [])"
    and "drop (i + 1 + length key) p = rest" and "substr p (i + 1) (i + 1 + length key - i - 1) = Inr key"
proof -
  have rest: "rest = drop (i + 1 + length key) p" using key by (simp add: dropWhile_drop add.commute)
  then show "drop (i + 1 + length key) p = rest" by simp
  have no: "\<not> (i + 1 + length key < length p \<and> p ! (i + 1 + length key) = CHR ''{'')"
    using plain unfolding rest hd_drop_at .
  have le: "i < i + 1" "i + 1 \<le> length p" using i by simp_all
  show "scan_item p i (i + 1) 0 0 [] [] = Inr (i + 1 + length key, 0, [], [])"
    using scan_item_key [OF le, of 0 "[]" "[]", folded key(1)] unfolding Let_def if_not_P [OF no] .
  show "substr p (i + 1) (i + 1 + length key - i - 1) = Inr key"
    using i key(1) by (simp add: substr_def) (metis takeWhile_eq_take)
qed

lemma scan_item_braces:
  assumes i: "i < length p" and key: "key = takeWhile key_char (drop (i + 1) p)" "rest = dropWhile key_char (drop (i + 1) p)"
    and brace: "rest \<noteq> [] \<and> hd rest = CHR ''{''"
    and fmt: "fmt = takeWhile format_char (tl rest)" "after = dropWhile format_char (tl rest)"
  shows "after \<noteq> [] \<and> hd after = CHR ''}'' \<Longrightarrow>
      \<exists>n str fmt'. scan_item p i (i + 1) 0 0 [] [] = Inr (n, 0, str, fmt') \<and> i < n \<and> n \<le> length p \<and>
        substr p (i + 1) (n - i - 1) = Inr (key @ ''{'' @ fmt @ ''}'') \<and> drop n p = tl after"
    and "\<not> (after \<noteq> [] \<and> hd after = CHR ''}'') \<Longrightarrow> \<exists>n str fmt'. scan_item p i (i + 1) 0 0 [] [] = Inr (n, 1, str, fmt')"
proof -
  let ?m = "i + 1 + length key" let ?l = "?m + 1 + length fmt"
  have rest: "rest = drop ?m p" using key by (simp add: dropWhile_drop add.commute)
  have m: "?m < length p" "p ! ?m = CHR ''{''" using brace unfolding rest hd_drop_at by auto
  have tl: "tl rest = drop (?m + 1) p" by (simp add: rest tl_drop drop_Suc)
  have after: "after = drop ?l p" using fmt by (simp add: dropWhile_drop tl add.commute add.left_commute)
  have le: "i < i + 1" "i + 1 \<le> length p" "?m + 1 \<le> ?m + 1" "?m + 1 \<le> length p" using i m by simp_all
  have "scan_item p i (i + 1) 0 0 [] [] = scan_item p i (?m + 1) 1 (?m + 1) (take (?m - i - 1) (drop (i + 1) p)) []"
    using scan_item_key [OF le(1,2), of 0 "[]" "[]", folded key(1)] unfolding Let_def if_P [OF conjI [OF m]] .
  then obtain str fmt' where scan: "scan_item p i (i + 1) 0 0 [] [] =
      (if ?l < length p \<and> p ! ?l = CHR ''}'' then Inr (?l + 1, 0, str, fmt') else Inr (?l, 1, str, []))"
    using scan_item_format [OF le(3,4), of i _ "[]"] unfolding Let_def fmt(1) tl by metis
  have parts: "drop (i + 1) p = key @ ''{'' @ fmt @ after"
  proof -
    have "drop (i + 1) p = key @ rest" using key by simp
    also have "rest = CHR ''{'' # tl rest" using brace by (cases rest) auto
    also have "tl rest = fmt @ after" using fmt by simp
    finally show ?thesis by simp
  qed
  {
    assume a: "after \<noteq> [] \<and> hd after = CHR ''}''"
    then have l: "?l < length p" "p ! ?l = CHR ''}''" unfolding after hd_drop_at by auto
    have "after = CHR ''}'' # tl after" using a by (cases after) auto
    with parts have "drop (i + 1) p = (key @ ''{'' @ fmt @ ''}'') @ tl after" by simp
    then have "substr p (i + 1) (?l + 1 - i - 1) = Inr (key @ ''{'' @ fmt @ ''}'')" using i by (simp add: substr_def)
    moreover have "drop (?l + 1) p = tl after" by (simp add: after tl_drop drop_Suc)
    ultimately show "\<exists>n str fmt'. scan_item p i (i + 1) 0 0 [] [] = Inr (n, 0, str, fmt') \<and> i < n \<and> n \<le> length p \<and>
        substr p (i + 1) (n - i - 1) = Inr (key @ ''{'' @ fmt @ ''}'') \<and> drop n p = tl after"
      using scan l by (intro exI [of _ "?l + 1"]) auto
  }
  assume "\<not> (after \<noteq> [] \<and> hd after = CHR ''}'')"
  then have "\<not> (?l < length p \<and> p ! ?l = CHR ''}'')" unfolding after hd_drop_at .
  with scan show "\<exists>n str fmt'. scan_item p i (i + 1) 0 0 [] [] = Inr (n, 1, str, fmt')" by auto
qed

section \<open>The whole parser\<close>

text \<open>The entries collected so far and the rest of the pattern, as items with their error marks.\<close>

definition parsed :: "vec_entry list \<times> string \<times> bool \<Rightarrow> FormatItem list \<times> bool" where
  "parsed r = (case r of (vec, nstr, m_error) \<Rightarrow>
     (map fst (map make_item (flush_nstr vec nstr)), m_error \<or> list_ex snd (map make_item (flush_nstr vec nstr))))"

definition expected :: "vec_entry list \<Rightarrow> bool \<Rightarrow> (FormatItem \<times> bool) list \<Rightarrow> FormatItem list \<times> bool" where
  "expected vec m_error items =
     (map fst (map make_item vec) @ map fst items, m_error \<or> list_ex snd (map make_item vec) \<or> list_ex snd items)"

lemma parsed_literal: "parsed (vec, nstr, m_error) = expected vec m_error (literal_items nstr)"
  by (simp add: parsed_def expected_def flush_nstr_def literal_items_def make_item_def)

lemma expected_flush:
  "make_item (key, fmt, 1) = key_item key \<Longrightarrow>
     expected (flush_nstr vec nstr @ [(key, fmt, 1)]) m_error items = expected vec m_error (literal_items nstr @ key_item key # items)"
  by (auto simp: expected_def flush_nstr_def literal_items_def make_item_def split: if_splits)

lemma make_item_key: "make_item (key, [], 1) = key_item key"
  by (simp add: make_item_def key_item_def)

lemma make_item_brace: "CHR ''{'' \<in> set key \<Longrightarrow> make_item (key, fmt, 1) = key_item key"
  by (simp add: make_item_def key_item_def s_format_item_brace)

lemma init_loop_reference:
  assumes "i \<le> length p"
  shows "\<exists>r. init_loop p i vec nstr m_error = Inr r \<and> parsed r = expected vec m_error (pattern_items nstr (drop i p))"
  using assms
proof (induction "length p - i" arbitrary: i vec nstr m_error rule: less_induct)
  case less
  show ?case
  proof (cases "i < length p")
    case False
    with less.prems show ?thesis
      by (subst init_loop.simps) (simp add: parsed_literal pattern_items.simps(1))
  next
    case True
    let ?cs = "drop (i + 1) p" let ?key = "takeWhile key_char ?cs" let ?rest = "dropWhile key_char ?cs"
    let ?fmt = "takeWhile format_char (tl ?rest)" let ?after = "dropWhile format_char (tl ?rest)"
    note ref = drop_at [OF True] pattern_items.simps(2) [of nstr "p ! i" ?cs]
    note pct = hd_drop_at [of "i + 1" p "CHR ''%''"]
    have next1: "\<exists>r. init_loop p (i + 1) vec' nstr' err = Inr r \<and> parsed r = expected vec' err (pattern_items nstr' ?cs)" for vec' nstr' err
      using less.hyps [of "i + 1"] True by simp
    consider "p ! i \<noteq> CHR ''%''" | "p ! i = CHR ''%''" "i + 1 < length p \<and> p ! (i + 1) = CHR ''%''"
      | (plain) "p ! i = CHR ''%''" "\<not> (i + 1 < length p \<and> p ! (i + 1) = CHR ''%'')" "\<not> (?rest \<noteq> [] \<and> hd ?rest = CHR ''{'')"
      | (closed) "p ! i = CHR ''%''" "\<not> (i + 1 < length p \<and> p ! (i + 1) = CHR ''%'')" "?rest \<noteq> [] \<and> hd ?rest = CHR ''{''"
          "?after \<noteq> [] \<and> hd ?after = CHR ''}''"
      | (open_brace) "p ! i = CHR ''%''" "\<not> (i + 1 < length p \<and> p ! (i + 1) = CHR ''%'')" "?rest \<noteq> [] \<and> hd ?rest = CHR ''{''"
          "\<not> (?after \<noteq> [] \<and> hd ?after = CHR ''}'')"
      by blast
    then show ?thesis
    proof cases
      case 1
      then have "pattern_items nstr (drop i p) = pattern_items (nstr @ [p ! i]) ?cs" unfolding ref by simp
      with 1 True next1 show ?thesis by (subst init_loop.simps) simp
    next
      case 2
      then have "?cs \<noteq> [] \<and> hd ?cs = CHR ''%''" using pct by blast
      then have "pattern_items nstr (drop i p) = pattern_items (nstr @ ''%'') ?cs" unfolding ref using 2(1) by simp
      with 2 True next1 show ?thesis by (subst init_loop.simps) simp
    next
      case plain
      note scan = scan_item_plain [OF True refl refl plain(3)]
      let ?n = "i + 1 + length ?key"
      have no: "\<not> (?cs \<noteq> [] \<and> hd ?cs = CHR ''%'')" using plain(2) pct by blast
      have "pattern_items nstr (drop i p) = literal_items nstr @ key_item ?key # pattern_items [] ?rest"
        unfolding ref(1) plain(1) pattern_items_percent [OF no refl refl refl refl] if_not_P [OF plain(3)] by (rule refl)
      moreover have "init_loop p i vec nstr m_error = init_loop p ?n (flush_nstr vec nstr @ [(?key, [], 1)]) [] m_error"
        using True plain(1,2) scan(1,3) by (subst init_loop.simps) auto
      moreover have "?n \<le> length p" using True length_takeWhile_le [of key_char ?cs] by simp
      ultimately show ?thesis
        using less.hyps [of ?n "flush_nstr vec nstr @ [(?key, [], 1)]" "[]" m_error] True
        unfolding scan(2) expected_flush [OF make_item_key] by simp
    next
      case closed
      let ?str = "?key @ ''{'' @ ?fmt @ ''}''"
      obtain n str fmt' where scan: "scan_item p i (i + 1) 0 0 [] [] = Inr (n, 0, str, fmt')" "i < n" "n \<le> length p"
        "substr p (i + 1) (n - i - 1) = Inr ?str" "drop n p = tl ?after"
        using scan_item_braces(1) [OF True refl refl closed(3) refl refl closed(4)] by blast
      have no: "\<not> (?cs \<noteq> [] \<and> hd ?cs = CHR ''%'')" using closed(2) pct by blast
      have "pattern_items nstr (drop i p) = literal_items nstr @ key_item ?str # pattern_items [] (tl ?after)"
        unfolding ref(1) closed(1) pattern_items_percent [OF no refl refl refl refl] if_P [OF closed(3)] if_P [OF closed(4)] by (rule refl)
      moreover have "init_loop p i vec nstr m_error = init_loop p n (flush_nstr vec nstr @ [(?str, fmt', 1)]) [] m_error"
        using True closed(1,2) scan(1,4) by (subst init_loop.simps) auto
      moreover have "make_item (?str, fmt', 1) = key_item ?str" by (rule make_item_brace) simp
      ultimately show ?thesis
        using less.hyps [of n "flush_nstr vec nstr @ [(?str, fmt', 1)]" "[]" m_error] True scan(2,3,5)
          expected_flush [of ?str fmt' vec nstr m_error] by simp
    next
      case open_brace
      obtain n str fmt' where scan: "scan_item p i (i + 1) 0 0 [] [] = Inr (n, 1, str, fmt')"
        using scan_item_braces(2) [OF True refl refl open_brace(3) refl refl open_brace(4)] by blast
      have no: "\<not> (?cs \<noteq> [] \<and> hd ?cs = CHR ''%'')" using open_brace(2) pct by blast
      have "pattern_items nstr (drop i p) = (StringFormatItem ''<<pattern_error>>'', True) # pattern_items nstr ?cs"
        unfolding ref(1) open_brace(1) pattern_items_percent [OF no refl refl refl refl] if_P [OF open_brace(3)] if_not_P [OF open_brace(4)] by (rule refl)
      moreover have "init_loop p i vec nstr m_error = init_loop p (i + 1) (vec @ [(''<<pattern_error>>'', fmt', 0)]) nstr True"
        using True open_brace(1,2) scan by (subst init_loop.simps) auto
      moreover have "expected (vec @ [(''<<pattern_error>>'', fmt', 0)]) True items =
          expected vec m_error ((StringFormatItem ''<<pattern_error>>'', True) # items)" for items
        by (simp add: expected_def make_item_def)
      ultimately show ?thesis using next1 [of "vec @ [(''<<pattern_error>>'', fmt', 0)]" nstr True] by simp
    qed
  qed
qed

section \<open>The property\<close>

text \<open>C10: the index-based parser of \<open>LogFormatter::init\<close>, with its flags, its vector of tuples and its table, is equivalent to the
  reference parser: for every pattern it returns, with exactly the items of the reference parser in their order, and the error
  flag set exactly when one of them is marked.\<close>

theorem LogFormatter_reference:
  "LogFormatter_new p =
     Inr \<lparr>lf_pattern = p, lf_items = map fst (pattern_items [] p), lf_error = list_ex snd (pattern_items [] p)\<rparr>"
proof -
  obtain vec nstr err where r: "init_loop p 0 [] [] False = Inr (vec, nstr, err)"
    "parsed (vec, nstr, err) = expected [] False (pattern_items [] p)"
    using init_loop_reference [of 0 p "[]" "[]" False] by auto
  from r(2) show ?thesis by (auto simp: LogFormatter_new_def r(1) parsed_def expected_def Let_def)
qed

end
