(* ===== verification/Yaml.thy ===== *)
theory Yaml
  imports Prelude
begin

text \<open>
  What the sources use of yaml-cpp. A node is null, a scalar, a sequence or a map, as in the YAML
  data model; parsing, printing and the accessors whose result on the wrong kind of node is the
  library's own business are parameters, collected in the record \<open>yaml_cpp\<close>. \<open>yaml_laws\<close> states the
  documented behaviour the code relies on.
\<close>

section \<open>Results in sequence\<close>

definition rbind :: "'a result \<Rightarrow> ('a \<Rightarrow> 'b result) \<Rightarrow> 'b result" where
  "rbind r f = (case r of Inl e \<Rightarrow> Inl e | Inr a \<Rightarrow> f a)"

lemma rbind_simps [simp]: "rbind (Inl e) f = Inl e" "rbind (Inr a) f = f a"
  by (simp_all add: rbind_def)

lemma rbind_eq_Inr: "rbind r f = Inr b \<longleftrightarrow> (\<exists>a. r = Inr a \<and> f a = Inr b)"
  by (cases r) auto

fun rfold :: "('x \<Rightarrow> 'a \<Rightarrow> 'a result) \<Rightarrow> 'x list \<Rightarrow> 'a \<Rightarrow> 'a result" where
  "rfold f [] a = Inr a"
| "rfold f (x # xs) a = rbind (f x a) (rfold f xs)"

section \<open>Nodes\<close>

datatype Node = Null | Scalar string | Sequence "Node list" | Map "(Node \<times> Node) list"

fun Node_IsMap :: "Node \<Rightarrow> bool" where
  "Node_IsMap (Map _) = True"
| "Node_IsMap _ = False"

fun Node_IsScalar :: "Node \<Rightarrow> bool" where
  "Node_IsScalar (Scalar _) = True"
| "Node_IsScalar _ = False"

fun Node_Scalar :: "Node \<Rightarrow> string" where
  "Node_Scalar (Scalar s) = s"
| "Node_Scalar _ = []"

fun Node_size :: "Node \<Rightarrow> nat" where
  "Node_size (Sequence ns) = length ns"
| "Node_size (Map kvs) = length kvs"
| "Node_size _ = 0"

text \<open>
  \<open>push_back\<close> turns a null node into a sequence, \<open>node[key] = value\<close> turns it into a map. The sources
  only do this to nodes that start as null.
\<close>

fun Node_push_back :: "Node \<Rightarrow> Node \<Rightarrow> Node result" where
  "Node_push_back Null n = Inr (Sequence [n])"
| "Node_push_back (Sequence ns) n = Inr (Sequence (ns @ [n]))"
| "Node_push_back _ n = Inl (Throw (yaml_exception ''bad pushback''))"

fun assoc_put :: "string \<Rightarrow> Node \<Rightarrow> (Node \<times> Node) list \<Rightarrow> (Node \<times> Node) list" where
  "assoc_put k v [] = [(Scalar k, v)]"
| "assoc_put k v ((a, b) # kvs) = (if a = Scalar k then (a, v) # kvs else (a, b) # assoc_put k v kvs)"

fun Node_put :: "string \<Rightarrow> Node \<Rightarrow> Node \<Rightarrow> Node result" where
  "Node_put k v Null = Inr (Map [(Scalar k, v)])"
| "Node_put k v (Map kvs) = Inr (Map (assoc_put k v kvs))"
| "Node_put k v _ = Inl (Throw (yaml_exception ''bad subscript''))"

text \<open>
  The library's functions. \<open>y_index\<close> is \<open>node[i]\<close> for an index, \<open>y_get\<close> is \<open>node["key"]\<close>, \<open>None\<close> when the
  result is not defined, \<open>y_pairs\<close> lists \<open>it->first\<close> and \<open>it->second\<close> from \<open>begin()\<close> to \<open>end()\<close>.
\<close>

record yaml_cpp =
  y_load :: "string \<Rightarrow> Node result"
  y_emit :: "Node \<Rightarrow> string"
  y_as_string :: "Node \<Rightarrow> string result"
  y_index :: "Node \<Rightarrow> nat \<Rightarrow> Node result"
  y_get :: "Node \<Rightarrow> string \<Rightarrow> Node option result"
  y_pairs :: "Node \<Rightarrow> (Node \<times> Node) list result"

definition yaml_laws :: "yaml_cpp \<Rightarrow> bool" where
  "yaml_laws Y \<longleftrightarrow>
     (\<forall>n. y_load Y (y_emit Y n) = Inr n) \<and>
     (\<forall>s. y_as_string Y (Scalar s) = Inr s) \<and>
     (\<forall>ns i. i < length ns \<longrightarrow> y_index Y (Sequence ns) i = Inr (ns ! i)) \<and>
     (\<forall>kvs k. y_get Y (Map kvs) k = Inr (map_of kvs (Scalar k))) \<and>
     (\<forall>kvs. y_pairs Y (Map kvs) = Inr kvs) \<and> y_pairs Y Null = Inr []"

lemma yaml_lawsD:
  assumes "yaml_laws Y"
  shows "y_load Y (y_emit Y n) = Inr n" "y_as_string Y (Scalar s) = Inr s"
    "i < length ns \<Longrightarrow> y_index Y (Sequence ns) i = Inr (ns ! i)"
    "y_get Y (Map kvs) k = Inr (map_of kvs (Scalar k))"
    "y_pairs Y (Map kvs) = Inr kvs" "y_pairs Y Null = Inr []"
  using assms by (simp_all add: yaml_laws_def)

lemma assoc_put_new: "Scalar k \<notin> fst ` set kvs \<Longrightarrow> assoc_put k v kvs = kvs @ [(Scalar k, v)]"
  by (induction k v kvs rule: assoc_put.induct) auto

lemma map_of_assoc_put: "map_of (assoc_put k v kvs) = (map_of kvs)(Scalar k \<mapsto> v)"
  by (induction k v kvs rule: assoc_put.induct) auto

end
