(* ===== verification/Locks.thy ===== *)
theory Locks
  imports Yaml
begin

text \<open>
  The synchronisation classes of \<open>src/sylar/thread.h\<close> and \<open>src/sylar/thread.cc\<close>: semaphore, mutexes, and
  the scoped guards. A lock operation of a thread is a partial function of the state of the lock:
  \<open>None\<close> means that the thread has to wait. Releasing a lock that the thread does not hold has no
  defined result.
\<close>

type_synonym tid = nat

section \<open>Semaphore\<close>

definition SEM_VALUE_MAX :: nat where
  "SEM_VALUE_MAX = 2 ^ 31 - 1"

definition Semaphore_new :: "u32 \<Rightarrow> nat result" where
  "Semaphore_new count =
     (if unat count > SEM_VALUE_MAX then Inl (Throw (logic_error ''sem_init error'')) else Inr (unat count))"

text \<open>\<open>sem_wait\<close> fails when a signal interrupts it.\<close>

definition Semaphore_wait :: "bool \<Rightarrow> nat \<Rightarrow> nat result option" where
  "Semaphore_wait interrupted c =
     (if interrupted then Some (Inl (Throw (logic_error ''sem_wait error'')))
      else if c = 0 then None
      else Some (Inr (c - 1)))"

definition Semaphore_notify :: "nat \<Rightarrow> nat result" where
  "Semaphore_notify c =
     (if c = SEM_VALUE_MAX then Inl (Throw (logic_error ''sem_post error'')) else Inr (c + 1))"

text \<open>\<open>~Semaphore\<close>; destroying a semaphore that threads wait for is not defined.\<close>

definition Semaphore_dtor :: "tid set \<Rightarrow> unit result" where
  "Semaphore_dtor waiting = (if waiting = {} then Inr () else Inl Indeterminate)"

section \<open>Mutexes\<close>

text \<open>\<open>Mutex\<close> over \<open>pthread_mutex_t\<close>: the thread that holds it.\<close>

definition Mutex_new :: "tid option" where
  "Mutex_new = None"

definition Mutex_lock :: "tid \<Rightarrow> tid option \<Rightarrow> tid option option" where
  "Mutex_lock t m = (if m = None then Some (Some t) else None)"

definition Mutex_unlock :: "tid \<Rightarrow> tid option \<Rightarrow> tid option result" where
  "Mutex_unlock t m = (if m = Some t then Inr None else Inl Indeterminate)"

text \<open>Destroying a lock that a thread holds is not defined.\<close>

definition Mutex_dtor :: "tid option \<Rightarrow> unit result" where
  "Mutex_dtor m = (if m = None then Inr () else Inl Indeterminate)"

text \<open>\<open>Spinlock\<close> over \<open>pthread_spinlock_t\<close>: a thread that has to wait spins.\<close>

definition Spinlock_new :: "tid option" where
  "Spinlock_new = None"

definition Spinlock_lock :: "tid \<Rightarrow> tid option \<Rightarrow> tid option option" where
  "Spinlock_lock t m = (if m = None then Some (Some t) else None)"

definition Spinlock_unlock :: "tid \<Rightarrow> tid option \<Rightarrow> tid option result" where
  "Spinlock_unlock t m = (if m = Some t then Inr None else Inl Indeterminate)"

definition Spinlock_dtor :: "tid option \<Rightarrow> unit result" where
  "Spinlock_dtor m = (if m = None then Inr () else Inl Indeterminate)"

text \<open>\<open>NullMutex\<close> and \<open>NullRWMutex\<close> do nothing.\<close>

definition NullMutex_lock :: "tid \<Rightarrow> unit \<Rightarrow> unit option" where
  "NullMutex_lock t m = Some ()"

definition NullMutex_unlock :: "tid \<Rightarrow> unit \<Rightarrow> unit result" where
  "NullMutex_unlock t m = Inr ()"

definition NullRWMutex_rdlock :: "tid \<Rightarrow> unit \<Rightarrow> unit option" where
  "NullRWMutex_rdlock t m = Some ()"

definition NullRWMutex_wrlock :: "tid \<Rightarrow> unit \<Rightarrow> unit option" where
  "NullRWMutex_wrlock t m = Some ()"

definition NullRWMutex_unlock :: "tid \<Rightarrow> unit \<Rightarrow> unit result" where
  "NullRWMutex_unlock t m = Inr ()"

text \<open>\<open>RWMutex\<close> over \<open>pthread_rwlock_t\<close>: one writer or any number of readers.\<close>

record RWMutex =
  rw_writer :: "tid option"
  rw_readers :: "tid list"

definition RWMutex_new :: RWMutex where
  "RWMutex_new = \<lparr>rw_writer = None, rw_readers = []\<rparr>"

definition RWMutex_rdlock :: "tid \<Rightarrow> RWMutex \<Rightarrow> RWMutex option" where
  "RWMutex_rdlock t m = (if rw_writer m = None then Some (m\<lparr>rw_readers := t # rw_readers m\<rparr>) else None)"

definition RWMutex_wrlock :: "tid \<Rightarrow> RWMutex \<Rightarrow> RWMutex option" where
  "RWMutex_wrlock t m =
     (if rw_writer m = None \<and> rw_readers m = [] then Some (m\<lparr>rw_writer := Some t\<rparr>) else None)"

definition RWMutex_unlock :: "tid \<Rightarrow> RWMutex \<Rightarrow> RWMutex result" where
  "RWMutex_unlock t m =
     (if rw_writer m = Some t then Inr (m\<lparr>rw_writer := None\<rparr>)
      else if t \<in> set (rw_readers m) then Inr (m\<lparr>rw_readers := remove1 t (rw_readers m)\<rparr>)
      else Inl Indeterminate)"

definition RWMutex_dtor :: "RWMutex \<Rightarrow> unit result" where
  "RWMutex_dtor m = (if rw_writer m = None \<and> rw_readers m = [] then Inr () else Inl Indeterminate)"

section \<open>Scoped guards\<close>

text \<open>
  \<open>ScopedLockImpl\<close> over the \<open>lock\<close> and \<open>unlock\<close> of the calling thread; the state is that of the mutex
  and \<open>m_locked\<close>. The guards for reading and for writing are the same code over \<open>rdlock\<close> and \<open>wrlock\<close>.
\<close>

definition ScopedLock_new :: "('m \<Rightarrow> 'm option) \<Rightarrow> 'm \<Rightarrow> ('m \<times> bool) option" where
  "ScopedLock_new lock m = map_option (\<lambda>m'. (m', True)) (lock m)"

definition ScopedLock_lock :: "('m \<Rightarrow> 'm option) \<Rightarrow> 'm \<times> bool \<Rightarrow> ('m \<times> bool) option" where
  "ScopedLock_lock lock g =
     (if \<not> snd g then map_option (\<lambda>m'. (m', True)) (lock (fst g)) else Some g)"

definition ScopedLock_unlock :: "('m \<Rightarrow> 'm result) \<Rightarrow> 'm \<times> bool \<Rightarrow> ('m \<times> bool) result" where
  "ScopedLock_unlock unlock g =
     (if snd g then rbind (unlock (fst g)) (\<lambda>m'. Inr (m', False)) else Inr g)"

definition ScopedLock_dtor :: "('m \<Rightarrow> 'm result) \<Rightarrow> 'm \<times> bool \<Rightarrow> 'm result" where
  "ScopedLock_dtor unlock g = rbind (ScopedLock_unlock unlock g) (\<lambda>g'. Inr (fst g'))"

definition ReadScopedLock_new :: "tid \<Rightarrow> RWMutex \<Rightarrow> (RWMutex \<times> bool) option" where
  "ReadScopedLock_new t m = ScopedLock_new (RWMutex_rdlock t) m"

definition ReadScopedLock_lock :: "tid \<Rightarrow> RWMutex \<times> bool \<Rightarrow> (RWMutex \<times> bool) option" where
  "ReadScopedLock_lock t g = ScopedLock_lock (RWMutex_rdlock t) g"

definition ReadScopedLock_unlock :: "tid \<Rightarrow> RWMutex \<times> bool \<Rightarrow> (RWMutex \<times> bool) result" where
  "ReadScopedLock_unlock t g = ScopedLock_unlock (RWMutex_unlock t) g"

definition ReadScopedLock_dtor :: "tid \<Rightarrow> RWMutex \<times> bool \<Rightarrow> RWMutex result" where
  "ReadScopedLock_dtor t g = ScopedLock_dtor (RWMutex_unlock t) g"

definition WriteScopedLock_new :: "tid \<Rightarrow> RWMutex \<Rightarrow> (RWMutex \<times> bool) option" where
  "WriteScopedLock_new t m = ScopedLock_new (RWMutex_wrlock t) m"

definition WriteScopedLock_lock :: "tid \<Rightarrow> RWMutex \<times> bool \<Rightarrow> (RWMutex \<times> bool) option" where
  "WriteScopedLock_lock t g = ScopedLock_lock (RWMutex_wrlock t) g"

definition WriteScopedLock_unlock :: "tid \<Rightarrow> RWMutex \<times> bool \<Rightarrow> (RWMutex \<times> bool) result" where
  "WriteScopedLock_unlock t g = ScopedLock_unlock (RWMutex_unlock t) g"

definition WriteScopedLock_dtor :: "tid \<Rightarrow> RWMutex \<times> bool \<Rightarrow> RWMutex result" where
  "WriteScopedLock_dtor t g = ScopedLock_dtor (RWMutex_unlock t) g"

section \<open>Threads with guards on one mutex\<close>

text \<open>
  Each thread may have one guard on the mutex: it constructs it, calls \<open>lock\<close> and \<open>unlock\<close> on it in any
  order, and destroys it. The guard of a thread is \<open>None\<close> or its \<open>m_locked\<close>.
\<close>

inductive guard_step ::
    "(tid \<Rightarrow> 'm \<Rightarrow> 'm option) \<Rightarrow> (tid \<Rightarrow> 'm \<Rightarrow> 'm result) \<Rightarrow>
     'm \<times> (tid \<Rightarrow> bool option) \<Rightarrow> 'm \<times> (tid \<Rightarrow> bool option) \<Rightarrow> bool"
  for lock unlock where
  guard_new: "g t = None \<Longrightarrow> ScopedLock_new (lock t) m = Some (m', b) \<Longrightarrow> guard_step lock unlock (m, g) (m', g(t \<mapsto> b))"
| guard_lock: "g t = Some b \<Longrightarrow> ScopedLock_lock (lock t) (m, b) = Some (m', b') \<Longrightarrow>
     guard_step lock unlock (m, g) (m', g(t \<mapsto> b'))"
| guard_unlock: "g t = Some b \<Longrightarrow> ScopedLock_unlock (unlock t) (m, b) = Inr (m', b') \<Longrightarrow>
     guard_step lock unlock (m, g) (m', g(t \<mapsto> b'))"
| guard_dtor: "g t = Some b \<Longrightarrow> ScopedLock_dtor (unlock t) (m, b) = Inr m' \<Longrightarrow>
     guard_step lock unlock (m, g) (m', g(t := None))"

inductive_cases guard_stepE: "guard_step lock unlock s s'"

definition guard_init :: "'m \<Rightarrow> 'm \<times> (tid \<Rightarrow> bool option) \<Rightarrow> bool" where
  "guard_init m0 s \<longleftrightarrow> s = (m0, \<lambda>_. None)"

definition guard_inv :: "('m \<Rightarrow> tid \<Rightarrow> bool) \<Rightarrow> 'm \<times> (tid \<Rightarrow> bool option) \<Rightarrow> bool" where
  "guard_inv holds s \<longleftrightarrow>
     (\<forall>t. snd s t = Some True \<longleftrightarrow> holds (fst s) t) \<and> (\<forall>t u. holds (fst s) t \<longrightarrow> holds (fst s) u \<longrightarrow> t = u)"

text \<open>
  What a mutex promises to its guards: at the start nobody holds it; \<open>lock\<close> succeeds exactly when
  nobody holds it, and then the caller is the only holder; the holder can release it.
\<close>

locale exclusive_lock =
  fixes lock :: "tid \<Rightarrow> 'm \<Rightarrow> 'm option" and unlock :: "tid \<Rightarrow> 'm \<Rightarrow> 'm result"
    and holds :: "'m \<Rightarrow> tid \<Rightarrow> bool" and m0 :: 'm
  assumes start_free: "\<not> holds m0 t"
    and lock_holds: "lock t m = Some m' \<Longrightarrow> holds m' u \<longleftrightarrow> u = t"
    and lock_free: "lock t m \<noteq> None \<longleftrightarrow> (\<forall>u. \<not> holds m u)"
    and unlock_holder: "holds m t \<Longrightarrow> \<exists>m'. unlock t m = Inr m' \<and> (\<forall>u. \<not> holds m' u)"
begin

lemma unlock_releases: "holds m t \<Longrightarrow> unlock t m = Inr m' \<Longrightarrow> \<not> holds m' u"
  using unlock_holder by fastforce

lemma inv_start: "guard_init m0 s \<Longrightarrow> guard_inv holds s"
  by (simp add: guard_init_def guard_inv_def start_free)

lemma lock_none_held: "lock t m = Some m' \<Longrightarrow> \<not> holds m u"
  using lock_free [of t m] by simp

lemma inv_step: "guard_step lock unlock s s' \<Longrightarrow> guard_inv holds s \<Longrightarrow> guard_inv holds s'"
proof (induction rule: guard_step.induct)
  case (guard_new g t m m' b)
  then have l: "lock t m = Some m'" "b = True" by (auto simp: ScopedLock_new_def)
  with guard_new lock_none_held [OF l(1)] show ?case
    by (auto simp: guard_inv_def lock_holds [OF l(1)])
next
  case (guard_lock g t b m m' b')
  show ?case
  proof (cases b)
    case False
    with guard_lock have l: "lock t m = Some m'" "b' = True" by (auto simp: ScopedLock_lock_def)
    with guard_lock lock_none_held [OF l(1)] show ?thesis
      by (auto simp: guard_inv_def lock_holds [OF l(1)])
  next
    case True
    with guard_lock have "m' = m" "b' = b" by (auto simp: ScopedLock_lock_def)
    with guard_lock show ?thesis by (simp add: fun_upd_idem)
  qed
next
  case (guard_unlock g t b m m' b')
  show ?case
  proof (cases b)
    case True
    with guard_unlock have u: "unlock t m = Inr m'" "b' = False" "holds m t"
      by (auto simp: ScopedLock_unlock_def rbind_eq_Inr guard_inv_def)
    with guard_unlock unlock_releases [OF u(3,1)] show ?thesis by (auto simp: guard_inv_def)
  next
    case False
    with guard_unlock have "m' = m" "b' = b" by (auto simp: ScopedLock_unlock_def)
    with guard_unlock show ?thesis by (simp add: fun_upd_idem)
  qed
next
  case (guard_dtor g t b m m')
  show ?case
  proof (cases b)
    case True
    with guard_dtor have u: "unlock t m = Inr m'" "holds m t"
      by (auto simp: ScopedLock_dtor_def ScopedLock_unlock_def rbind_eq_Inr guard_inv_def)
    with guard_dtor unlock_releases [OF u(2,1)] show ?thesis by (auto simp: guard_inv_def)
  next
    case False
    with guard_dtor.hyps have m: "m' = m" "g t \<noteq> Some True" by (simp_all add: ScopedLock_dtor_def ScopedLock_unlock_def)
    with guard_dtor.prems have "\<not> holds m t" by (simp add: guard_inv_def)
    with m guard_dtor.prems show ?thesis by (simp add: guard_inv_def)
  qed
qed

lemma reach_guard_inv: "reachable (guard_init m0) (guard_step lock unlock) s \<Longrightarrow> guard_inv holds s"
  by (induction rule: reachable.induct) (auto intro: inv_start inv_step)

lemma one_locked_guard:
  "reachable (guard_init m0) (guard_step lock unlock) (m, g) \<Longrightarrow> g t = Some True \<Longrightarrow> g u = Some True \<Longrightarrow> t = u"
  using reach_guard_inv by (fastforce simp: guard_inv_def)

lemma guard_never_stuck:
  assumes "reachable (guard_init m0) (guard_step lock unlock) (m, g)" and "g t = Some b"
  shows "\<exists>m' b'. ScopedLock_unlock (unlock t) (m, b) = Inr (m', b') \<and> \<not> b'"
    and "\<exists>m'. ScopedLock_dtor (unlock t) (m, b) = Inr m'"
proof -
  have "b \<Longrightarrow> holds m t" using reach_guard_inv [OF assms(1)] assms(2) by (fastforce simp: guard_inv_def)
  then show "\<exists>m' b'. ScopedLock_unlock (unlock t) (m, b) = Inr (m', b') \<and> \<not> b'"
    "\<exists>m'. ScopedLock_dtor (unlock t) (m, b) = Inr m'"
    using unlock_holder [of m t] by (cases b; force simp: ScopedLock_dtor_def ScopedLock_unlock_def)+
qed

lemma free_when_unlocked:
  assumes "reachable (guard_init m0) (guard_step lock unlock) (m, g)" and "\<forall>u. g u \<noteq> Some True"
  shows "\<exists>m'. ScopedLock_new (lock t) m = Some (m', True)"
proof -
  have "\<forall>u. \<not> holds m u" using reach_guard_inv [OF assms(1)] assms(2) by (simp add: guard_inv_def)
  then have "lock t m \<noteq> None" using lock_free by blast
  then show ?thesis by (auto simp: ScopedLock_new_def)
qed

end

interpretation mutex: exclusive_lock Mutex_lock Mutex_unlock "\<lambda>m t. m = Some t" Mutex_new
  by unfold_locales (auto simp: Mutex_lock_def Mutex_unlock_def Mutex_new_def split: if_splits)

interpretation spinlock: exclusive_lock Spinlock_lock Spinlock_unlock "\<lambda>m t. m = Some t" Spinlock_new
  by unfold_locales (auto simp: Spinlock_lock_def Spinlock_unlock_def Spinlock_new_def split: if_splits)

section \<open>Threads with guards on one read-write mutex\<close>

datatype rwguard = ReadGuard bool | WriteGuard bool

inductive rw_step :: "RWMutex \<times> (tid \<Rightarrow> rwguard option) \<Rightarrow> RWMutex \<times> (tid \<Rightarrow> rwguard option) \<Rightarrow> bool" where
  rd_new: "g t = None \<Longrightarrow> ReadScopedLock_new t m = Some (m', b) \<Longrightarrow> rw_step (m, g) (m', g(t \<mapsto> ReadGuard b))"
| rd_lock: "g t = Some (ReadGuard b) \<Longrightarrow> ReadScopedLock_lock t (m, b) = Some (m', b') \<Longrightarrow>
     rw_step (m, g) (m', g(t \<mapsto> ReadGuard b'))"
| rd_unlock: "g t = Some (ReadGuard b) \<Longrightarrow> ReadScopedLock_unlock t (m, b) = Inr (m', b') \<Longrightarrow>
     rw_step (m, g) (m', g(t \<mapsto> ReadGuard b'))"
| rd_dtor: "g t = Some (ReadGuard b) \<Longrightarrow> ReadScopedLock_dtor t (m, b) = Inr m' \<Longrightarrow>
     rw_step (m, g) (m', g(t := None))"
| wr_new: "g t = None \<Longrightarrow> WriteScopedLock_new t m = Some (m', b) \<Longrightarrow> rw_step (m, g) (m', g(t \<mapsto> WriteGuard b))"
| wr_lock: "g t = Some (WriteGuard b) \<Longrightarrow> WriteScopedLock_lock t (m, b) = Some (m', b') \<Longrightarrow>
     rw_step (m, g) (m', g(t \<mapsto> WriteGuard b'))"
| wr_unlock: "g t = Some (WriteGuard b) \<Longrightarrow> WriteScopedLock_unlock t (m, b) = Inr (m', b') \<Longrightarrow>
     rw_step (m, g) (m', g(t \<mapsto> WriteGuard b'))"
| wr_dtor: "g t = Some (WriteGuard b) \<Longrightarrow> WriteScopedLock_dtor t (m, b) = Inr m' \<Longrightarrow>
     rw_step (m, g) (m', g(t := None))"

definition rw_init :: "RWMutex \<times> (tid \<Rightarrow> rwguard option) \<Rightarrow> bool" where
  "rw_init s \<longleftrightarrow> s = (RWMutex_new, \<lambda>_. None)"

text \<open>The mutex records exactly the locked guards, and a writer is alone.\<close>

definition rw_inv :: "RWMutex \<times> (tid \<Rightarrow> rwguard option) \<Rightarrow> bool" where
  "rw_inv s \<longleftrightarrow>
     (\<forall>t. rw_writer (fst s) = Some t \<longleftrightarrow> snd s t = Some (WriteGuard True)) \<and>
     (\<forall>t. t \<in> set (rw_readers (fst s)) \<longleftrightarrow> snd s t = Some (ReadGuard True)) \<and>
     distinct (rw_readers (fst s)) \<and> (rw_writer (fst s) \<noteq> None \<longrightarrow> rw_readers (fst s) = [])"

lemmas rw_defs = ReadScopedLock_dtor_def WriteScopedLock_dtor_def ScopedLock_dtor_def ReadScopedLock_new_def ReadScopedLock_lock_def ReadScopedLock_unlock_def
  WriteScopedLock_new_def WriteScopedLock_lock_def WriteScopedLock_unlock_def
  ScopedLock_new_def ScopedLock_lock_def ScopedLock_unlock_def rbind_eq_Inr
  RWMutex_rdlock_def RWMutex_wrlock_def RWMutex_unlock_def

lemma rw_invI:
  assumes "\<And>t. rw_writer m = Some t \<longleftrightarrow> g t = Some (WriteGuard True)"
    and "\<And>t. t \<in> set (rw_readers m) \<longleftrightarrow> g t = Some (ReadGuard True)"
    and "distinct (rw_readers m)" and "rw_writer m \<noteq> None \<Longrightarrow> rw_readers m = []"
  shows "rw_inv (m, g)"
  using assms by (simp add: rw_inv_def)

lemma rw_inv_acquire_read:
  assumes "rw_inv (m, g)" and "rw_writer m = None" and "g t = None \<or> g t = Some (ReadGuard False)"
  shows "rw_inv (m\<lparr>rw_readers := t # rw_readers m\<rparr>, g(t \<mapsto> ReadGuard True))"
  using assms by (auto simp: rw_inv_def)

lemma rw_inv_acquire_write:
  assumes "rw_inv (m, g)" and "rw_writer m = None" and "rw_readers m = []"
  shows "rw_inv (m\<lparr>rw_writer := Some t\<rparr>, g(t \<mapsto> WriteGuard True))"
  using assms by (auto simp: rw_inv_def)

lemma rw_inv_release_read:
  assumes "rw_inv (m, g)" and "g t = Some (ReadGuard True)" and "x = None \<or> x = Some (ReadGuard False)"
  shows "rw_inv (m\<lparr>rw_readers := remove1 t (rw_readers m)\<rparr>, g(t := x))"
  using assms by (auto simp: rw_inv_def)

lemma rw_inv_release_write:
  assumes "rw_inv (m, g)" and "g t = Some (WriteGuard True)" and "x = None \<or> x = Some (WriteGuard False)"
  shows "rw_inv (m\<lparr>rw_writer := None\<rparr>, g(t := x))"
proof -
  have "rw_writer m = Some t" using assms(1,2) by (simp add: rw_inv_def)
  then have "g u \<noteq> Some (WriteGuard True)" if "u \<noteq> t" for u
    using assms(1) that unfolding rw_inv_def by (metis fst_conv snd_conv option.inject)
  with assms show ?thesis by (auto simp: rw_inv_def)
qed

lemma rw_inv_idle:
  assumes "rw_inv (m, g)" and "g t = Some (ReadGuard False) \<or> g t = Some (WriteGuard False)" and "x = None \<or> x = g t"
  shows "rw_inv (m, g(t := x))"
  using assms(3)
proof
  assume "x = None"
  with assms(1,2) show ?thesis by (auto simp: rw_inv_def)
qed (use assms(1) in simp)

lemma rw_inv_step: "rw_step s s' \<Longrightarrow> rw_inv s \<Longrightarrow> rw_inv s'"
proof (induction rule: rw_step.induct)
  case (rd_new g t m m' b)
  then show ?case by (auto simp: rw_defs split: if_splits intro: rw_inv_acquire_read)
next
  case (rd_lock g t b m m' b')
  then show ?case
    by (cases b) (auto simp: rw_defs fun_upd_idem split: if_splits intro: rw_inv_acquire_read)
next
  case (rd_unlock g t b m m' b')
  then have "b \<Longrightarrow> rw_writer m \<noteq> Some t" by (simp add: rw_inv_def)
  with rd_unlock show ?case
    by (cases b) (auto simp: rw_defs fun_upd_idem split: if_splits intro: rw_inv_release_read)
next
  case (rd_dtor g t b m m')
  then have "b \<Longrightarrow> rw_writer m \<noteq> Some t" by (simp add: rw_inv_def)
  with rd_dtor show ?case
    by (cases b) (auto simp: rw_defs split: if_splits intro: rw_inv_release_read rw_inv_idle)
next
  case (wr_new g t m m' b)
  then show ?case by (auto simp: rw_defs split: if_splits intro: rw_inv_acquire_write)
next
  case (wr_lock g t b m m' b')
  then show ?case
    by (cases b) (auto simp: rw_defs fun_upd_idem split: if_splits intro: rw_inv_acquire_write)
next
  case (wr_unlock g t b m m' b')
  then have "b \<Longrightarrow> rw_writer m = Some t" by (simp add: rw_inv_def)
  with wr_unlock show ?case
    by (cases b) (auto simp: rw_defs fun_upd_idem split: if_splits intro: rw_inv_release_write)
next
  case (wr_dtor g t b m m')
  then have "b \<Longrightarrow> rw_writer m = Some t" by (simp add: rw_inv_def)
  with wr_dtor show ?case
    by (cases b) (auto simp: rw_defs split: if_splits intro: rw_inv_release_write rw_inv_idle)
qed

lemma rw_inv_init: "rw_init s \<Longrightarrow> rw_inv s"
  by (simp add: rw_init_def rw_inv_def RWMutex_new_def)

interpretation rwmutex: transition_system rw_init rw_step rw_inv
  by unfold_locales (rule rw_inv_init rw_inv_step; assumption)+

section \<open>CASLock\<close>

text \<open>
  \<open>CASLock\<close> spins on an atomic flag. One pass of the loop sets the flag and returns what it was; the thread
  enters when it was clear.
\<close>

definition atomic_flag_test_and_set :: "bool \<Rightarrow> bool \<times> bool" where
  "atomic_flag_test_and_set flag = (flag, True)"

definition CASLock_new :: bool where
  "CASLock_new = False"

text \<open>One pass of \<open>while(test_and_set);\<close>: whether the thread leaves the loop, and the flag.\<close>

definition CASLock_lock_pass :: "bool \<Rightarrow> bool \<times> bool" where
  "CASLock_lock_pass flag = (case atomic_flag_test_and_set flag of (old, flag') \<Rightarrow> (\<not> old, flag'))"

definition CASLock_unlock :: "bool \<Rightarrow> bool" where
  "CASLock_unlock flag = False"

datatype cas_pc = Outside | Spinning | Inside

inductive cas_step :: "bool \<times> (tid \<Rightarrow> cas_pc) \<Rightarrow> bool \<times> (tid \<Rightarrow> cas_pc) \<Rightarrow> bool" where
  cas_call: "pc t = Outside \<Longrightarrow> cas_step (flag, pc) (flag, pc(t := Spinning))"
| cas_pass: "pc t = Spinning \<Longrightarrow> CASLock_lock_pass flag = (entered, flag') \<Longrightarrow>
     cas_step (flag, pc) (flag', pc(t := (if entered then Inside else Spinning)))"
| cas_unlock: "pc t = Inside \<Longrightarrow> cas_step (flag, pc) (CASLock_unlock flag, pc(t := Outside))"

definition cas_init :: "bool \<times> (tid \<Rightarrow> cas_pc) \<Rightarrow> bool" where
  "cas_init s \<longleftrightarrow> s = (CASLock_new, \<lambda>_. Outside)"

definition cas_inv :: "bool \<times> (tid \<Rightarrow> cas_pc) \<Rightarrow> bool" where
  "cas_inv s \<longleftrightarrow>
     (fst s \<longleftrightarrow> (\<exists>t. snd s t = Inside)) \<and> (\<forall>t u. snd s t = Inside \<longrightarrow> snd s u = Inside \<longrightarrow> t = u)"

lemma cas_inv_step: "cas_step s s' \<Longrightarrow> cas_inv s \<Longrightarrow> cas_inv s'"
proof (induction rule: cas_step.induct)
  case (cas_pass pc t flag entered flag')
  then have p: "entered = (\<not> flag)" "flag'" by (auto simp: CASLock_lock_pass_def atomic_flag_test_and_set_def)
  show ?case
  proof (cases flag)
    case True
    with cas_pass p show ?thesis by (simp add: fun_upd_idem)
  next
    case False
    with cas_pass.prems have "pc u \<noteq> Inside" for u by (auto simp: cas_inv_def)
    with False p show ?thesis by (auto simp: cas_inv_def)
  qed
next
  case (cas_call pc t flag)
  then have "pc t \<noteq> Inside" by simp
  then have "(pc(t := Spinning)) u = Inside \<longleftrightarrow> pc u = Inside" for u by auto
  with cas_call.prems show ?case by (simp add: cas_inv_def)
next
  case (cas_unlock pc t flag)
  then have "pc u \<noteq> Inside" if "u \<noteq> t" for u using that by (auto simp: cas_inv_def)
  then show ?case by (simp add: cas_inv_def CASLock_unlock_def)
qed

lemma cas_inv_init: "cas_init s \<Longrightarrow> cas_inv s"
  by (simp add: cas_init_def cas_inv_def CASLock_new_def)

interpretation caslock: transition_system cas_init cas_step cas_inv
  by unfold_locales (rule cas_inv_init cas_inv_step; assumption)+

section \<open>Properties of the locks\<close>

text \<open>C19: with any number of threads that construct, lock, unlock and destroy guards of one \<open>Spinlock\<close>, at
  most one guard is locked at a time; unlocking or destroying a guard never releases a lock the thread does not hold, and
  when no guard is locked any thread obtains the lock at once.\<close>

theorem spinlock_guards_exclude:
  assumes "reachable (guard_init Spinlock_new) (guard_step Spinlock_lock Spinlock_unlock) (m, g)"
  shows "(\<forall>t u. g t = Some True \<longrightarrow> g u = Some True \<longrightarrow> t = u) \<and>
     (\<forall>t b. g t = Some b \<longrightarrow> (\<exists>m'. ScopedLock_unlock (Spinlock_unlock t) (m, b) = Inr (m', False)) \<and>
        (\<exists>m'. ScopedLock_dtor (Spinlock_unlock t) (m, b) = Inr m')) \<and>
     ((\<forall>u. g u \<noteq> Some True) \<longrightarrow> (\<forall>t. \<exists>m'. ScopedLock_new (Spinlock_lock t) m = Some (m', True)))"
proof (intro conjI allI impI)
  show "t = u" if "g t = Some True" "g u = Some True" for t u
    using spinlock.one_locked_guard [OF assms that] .
  show "\<exists>m'. ScopedLock_unlock (Spinlock_unlock t) (m, b) = Inr (m', False)" if "g t = Some b" for t b
    using spinlock.guard_never_stuck(1) [OF assms that] by auto
  show "\<exists>m'. ScopedLock_dtor (Spinlock_unlock t) (m, b) = Inr m'" if "g t = Some b" for t b
    using spinlock.guard_never_stuck(2) [OF assms that] .
  show "\<exists>m'. ScopedLock_new (Spinlock_lock t) m = Some (m', True)" if "\<forall>u. g u \<noteq> Some True" for t
    using spinlock.free_when_unlocked [OF assms that] .
qed

lemma spinlock_example:
  "reachable (guard_init Spinlock_new) (guard_step Spinlock_lock Spinlock_unlock) (Some 1, [1 \<mapsto> True])"
proof (rule reach_step)
  show "reachable (guard_init Spinlock_new) (guard_step Spinlock_lock Spinlock_unlock) (None, \<lambda>_. None)"
    by (rule reach_init) (simp add: guard_init_def Spinlock_new_def)
  show "guard_step Spinlock_lock Spinlock_unlock (None, \<lambda>_. None) (Some 1, [1 \<mapsto> True])"
    by (rule guard_new) (simp_all add: ScopedLock_new_def Spinlock_lock_def)
qed

theorem spinlock_guards_exclude_witness:
  "(\<exists>m'. ScopedLock_unlock (Spinlock_unlock 1) (Some 1, True) = Inr (m', False)) \<and>
   (\<exists>m'. ScopedLock_dtor (Spinlock_unlock 1) (Some 1, True) = Inr m')"
  using spinlock_guards_exclude [OF spinlock_example] by simp

text \<open>C20: on a \<open>RWMutex\<close>, while a guard for writing is locked no other guard is, for reading or for writing, and
  unlocking or destroying any guard is defined; once all guards are destroyed the mutex can be destroyed.\<close>

theorem rwmutex_guards_exclude:
  assumes "reachable rw_init rw_step (m, g)"
  shows "(\<forall>t u. g t = Some (WriteGuard True) \<longrightarrow> g u = Some (WriteGuard True) \<or> g u = Some (ReadGuard True) \<longrightarrow> t = u) \<and>
     (\<forall>t b. g t = Some (ReadGuard b) \<longrightarrow>
        (\<exists>m'. ReadScopedLock_unlock t (m, b) = Inr (m', False) \<and> ReadScopedLock_dtor t (m, b) = Inr m')) \<and>
     (\<forall>t b. g t = Some (WriteGuard b) \<longrightarrow>
        (\<exists>m'. WriteScopedLock_unlock t (m, b) = Inr (m', False) \<and> WriteScopedLock_dtor t (m, b) = Inr m')) \<and>
     ((\<forall>t. g t = None) \<longrightarrow> RWMutex_dtor m = Inr ())"
proof -
  have inv: "rw_inv (m, g)" using rwmutex.reach_inv [OF assms] .
  then have w: "g t = Some (WriteGuard True) \<longleftrightarrow> rw_writer m = Some t"
    and r: "g t = Some (ReadGuard True) \<longleftrightarrow> t \<in> set (rw_readers m)" for t by (simp_all add: rw_inv_def)
  show ?thesis
  proof (intro conjI allI impI)
    fix t u assume "g t = Some (WriteGuard True)" "g u = Some (WriteGuard True) \<or> g u = Some (ReadGuard True)"
    then show "t = u" using inv w r by (auto simp: rw_inv_def)
  next
    fix t b assume "g t = Some (ReadGuard b)"
    then show "\<exists>m'. ReadScopedLock_unlock t (m, b) = Inr (m', False) \<and> ReadScopedLock_dtor t (m, b) = Inr m'"
      using w [of t] r [of t] by (cases b) (simp_all add: rw_defs)
  next
    fix t b assume "g t = Some (WriteGuard b)"
    then show "\<exists>m'. WriteScopedLock_unlock t (m, b) = Inr (m', False) \<and> WriteScopedLock_dtor t (m, b) = Inr m'"
      using w [of t] by (cases b) (simp_all add: rw_defs)
  next
    assume "\<forall>t. g t = None"
    then have e: "rw_writer m \<noteq> Some t" "t \<notin> set (rw_readers m)" for t using w [of t] r [of t] by simp_all
    have "rw_writer m = None" using e(1) [of "the (rw_writer m)"] by (cases "rw_writer m") simp_all
    moreover have "rw_readers m = []" using e(2) [of "hd (rw_readers m)"] by (cases "rw_readers m") simp_all
    ultimately show "RWMutex_dtor m = Inr ()" by (simp add: RWMutex_dtor_def)
  qed
qed

lemma rwmutex_example:
  "reachable rw_init rw_step (\<lparr>rw_writer = None, rw_readers = [2, 1]\<rparr>, [1 \<mapsto> ReadGuard True, 2 \<mapsto> ReadGuard True])"
proof -
  have 0: "reachable rw_init rw_step (RWMutex_new, \<lambda>_. None)" by (rule reach_init) (simp add: rw_init_def)
  have "reachable rw_init rw_step (\<lparr>rw_writer = None, rw_readers = [1]\<rparr>, [1 \<mapsto> ReadGuard True])"
    by (rule reach_step [OF 0], rule rd_new) (simp_all add: rw_defs RWMutex_new_def)
  then show ?thesis
    by (rule reach_step, intro rd_new) (simp_all add: rw_defs)
qed

theorem rwmutex_guards_exclude_witness:
  "\<exists>m'. ReadScopedLock_unlock 2 (\<lparr>rw_writer = None, rw_readers = [2, 1]\<rparr>, True) = Inr (m', False)"
  using rwmutex_guards_exclude [OF rwmutex_example, THEN conjunct2, THEN conjunct1, rule_format, of 2 True] by auto

lemma caslock_example: "reachable cas_init cas_step (CASLock_new, (\<lambda>_. Outside)(3 := Spinning))"
proof -
  have 0: "reachable cas_init cas_step (CASLock_new, \<lambda>_. Outside)" by (rule reach_init) (simp add: cas_init_def)
  show ?thesis by (rule reach_step [OF 0], rule cas_call) simp
qed

subsection \<open>CASLock implements the contract of Spinlock\<close>

text \<open>The holder a state of \<open>CASLock\<close> stands for.\<close>

definition cas_holder :: "bool \<times> (tid \<Rightarrow> cas_pc) \<Rightarrow> tid option \<Rightarrow> bool" where
  "cas_holder s m \<longleftrightarrow> (fst s \<longleftrightarrow> m \<noteq> None) \<and> (\<forall>t. m = Some t \<longleftrightarrow> snd s t = Inside)"

lemma cas_holder_ex: "cas_inv s \<Longrightarrow> \<exists>m. cas_holder s m"
proof (cases "\<exists>t. snd s t = Inside")
  case True
  then obtain t where "snd s t = Inside" ..
  then show "cas_inv s \<Longrightarrow> ?thesis" by (intro exI [of _ "Some t"]) (auto simp: cas_inv_def cas_holder_def)
next
  case False
  then show "cas_inv s \<Longrightarrow> ?thesis" by (intro exI [of _ None]) (auto simp: cas_inv_def cas_holder_def)
qed

lemma cas_step_simulates:
  assumes "cas_step s s'" and "cas_holder s m"
  shows "cas_holder s' m \<or> (\<exists>t m'. cas_holder s' m' \<and> (Spinlock_lock t m = Some m' \<or> Spinlock_unlock t m = Inr m'))"
  using assms
proof (induction rule: cas_step.induct)
  case (cas_call pc t flag)
  then have "cas_holder (flag, pc(t := Spinning)) m" by (auto simp: cas_holder_def)
  then show ?case ..
next
  case (cas_pass pc t flag entered flag')
  then have p: "entered = (\<not> flag)" "flag'" by (auto simp: CASLock_lock_pass_def atomic_flag_test_and_set_def)
  show ?case
  proof (cases flag)
    case True
    with cas_pass p show ?thesis by (simp add: fun_upd_idem)
  next
    case False
    with cas_pass.prems have m: "m = None" by (simp add: cas_holder_def)
    with False p cas_pass.prems have "cas_holder (flag', pc(t := Inside)) (Some t)" by (auto simp: cas_holder_def)
    with m False p show ?thesis by (auto simp: Spinlock_lock_def)
  qed
next
  case (cas_unlock pc t flag)
  then have m: "m = Some t" by (simp add: cas_holder_def)
  with cas_unlock.prems have "cas_holder (CASLock_unlock flag, pc(t := Outside)) None"
    by (auto simp: cas_holder_def CASLock_unlock_def)
  with m show ?case by (auto simp: Spinlock_unlock_def)
qed

text \<open>C21: \<open>CASLock\<close> refines \<open>Spinlock\<close>. Every reachable state of the threads on a \<open>CASLock\<close> stands for a holder (nobody at
  the start), and every step of a thread is either invisible or one \<open>lock\<close> or \<open>unlock\<close> of a \<open>Spinlock\<close> with that holder. So
  at most one thread is inside, and when none is, the next pass of the loop of any spinning thread lets it in.\<close>

theorem caslock_refines_spinlock:
  assumes "reachable cas_init cas_step s"
  shows "(cas_init s \<longrightarrow> cas_holder s Spinlock_new) \<and>
     (\<exists>m. cas_holder s m \<and>
       (\<forall>s'. cas_step s s' \<longrightarrow>
          cas_holder s' m \<or>
          (\<exists>t m'. cas_holder s' m' \<and> (Spinlock_lock t m = Some m' \<or> Spinlock_unlock t m = Inr m')))) \<and>
     (\<forall>t u. snd s t = Inside \<longrightarrow> snd s u = Inside \<longrightarrow> t = u) \<and>
     ((\<forall>t. snd s t \<noteq> Inside) \<longrightarrow> fst (CASLock_lock_pass (fst s)))"
proof (intro conjI)
  show "cas_init s \<longrightarrow> cas_holder s Spinlock_new"
    by (simp add: cas_init_def cas_holder_def CASLock_new_def Spinlock_new_def)
  have inv: "cas_inv s" by (rule caslock.reach_inv [OF assms])
  then obtain m where "cas_holder s m" using cas_holder_ex by blast
  then show "\<exists>m. cas_holder s m \<and>
       (\<forall>s'. cas_step s s' \<longrightarrow>
          cas_holder s' m \<or>
          (\<exists>t m'. cas_holder s' m' \<and> (Spinlock_lock t m = Some m' \<or> Spinlock_unlock t m = Inr m')))"
    using cas_step_simulates by blast
  show "\<forall>t u. snd s t = Inside \<longrightarrow> snd s u = Inside \<longrightarrow> t = u" using inv by (simp add: cas_inv_def)
  show "(\<forall>t. snd s t \<noteq> Inside) \<longrightarrow> fst (CASLock_lock_pass (fst s))"
    using inv by (auto simp: cas_inv_def CASLock_lock_pass_def atomic_flag_test_and_set_def)
qed

theorem caslock_refines_spinlock_witness:
  "\<exists>m. cas_holder (CASLock_new, (\<lambda>_. Outside)(3 := Spinning)) m \<and>
     (\<forall>s'. cas_step (CASLock_new, (\<lambda>_. Outside)(3 := Spinning)) s' \<longrightarrow>
        cas_holder s' m \<or>
        (\<exists>t m'. cas_holder s' m' \<and> (Spinlock_lock t m = Some m' \<or> Spinlock_unlock t m = Inr m')))"
  by (rule caslock_refines_spinlock [OF caslock_example, THEN conjunct2, THEN conjunct1])

end
