(* ===== verification/LockPrograms.thy ===== *)
theory LockPrograms
  imports Locks
begin

text \<open>
  Threads that share several locks. A thread runs a list of actions: it constructs a guard of a lock, writes to the
  stream that the lock protects, destroys the guard. Over any lock with the contract \<open>exclusive_lock\<close>, programs that take
  locks in one order never get stuck, and what they write between taking and releasing a lock is not broken up.
\<close>

section \<open>Threads\<close>

datatype ('l, 'c) act = Acquire 'l | Emit 'l 'c | Release 'l

record ('l, 'm, 'c) threads =
  th_locks :: "'l \<Rightarrow> 'm"
  th_progs :: "tid \<Rightarrow> ('l, 'c) act list"
  th_out :: "'l \<Rightarrow> 'c list"

inductive guarded_step ::
    "(tid \<Rightarrow> 'm \<Rightarrow> 'm option) \<Rightarrow> (tid \<Rightarrow> 'm \<Rightarrow> 'm result) \<Rightarrow>
     ('l, 'm, 'c) threads \<Rightarrow> ('l, 'm, 'c) threads \<Rightarrow> bool"
  for lock unlock where
  step_acquire: "th_progs s t = Acquire l # p \<Longrightarrow> ScopedLock_new (lock t) (th_locks s l) = Some (m, b) \<Longrightarrow>
     guarded_step lock unlock s (s\<lparr>th_locks := (th_locks s)(l := m), th_progs := (th_progs s)(t := p)\<rparr>)"
| step_emit: "th_progs s t = Emit l c # p \<Longrightarrow>
     guarded_step lock unlock s (s\<lparr>th_progs := (th_progs s)(t := p), th_out := (th_out s)(l := th_out s l @ [c])\<rparr>)"
| step_release: "th_progs s t = Release l # p \<Longrightarrow> ScopedLock_dtor (unlock t) (th_locks s l, True) = Inr m \<Longrightarrow>
     guarded_step lock unlock s (s\<lparr>th_locks := (th_locks s)(l := m), th_progs := (th_progs s)(t := p)\<rparr>)"

text \<open>At the start nothing is locked and nothing is written.\<close>

definition threads_start :: "'m \<Rightarrow> (tid \<Rightarrow> ('l, 'c) act list) \<Rightarrow> ('l, 'm, 'c) threads" where
  "threads_start m0 ps = \<lparr>th_locks = (\<lambda>_. m0), th_progs = ps, th_out = (\<lambda>_. [])\<rparr>"

text \<open>
  Scopes are nested, writing happens under the lock, and a lock is only taken while locks of smaller rank are held.
  The list holds the locks of the open scopes, the innermost first.
\<close>

fun scoped :: "('l \<Rightarrow> nat) \<Rightarrow> 'l list \<Rightarrow> ('l, 'c) act list \<Rightarrow> bool" where
  "scoped rank H [] = (H = [])"
| "scoped rank H (Acquire l # p) = ((\<forall>h \<in> set H. rank h < rank l) \<and> scoped rank (l # H) p)"
| "scoped rank H (Emit l c # p) = (l \<in> set H \<and> scoped rank H p)"
| "scoped rank H (Release l # p) = (H \<noteq> [] \<and> hd H = l \<and> scoped rank (tl H) p)"

text \<open>
  What a program writes in its sections under one lock, a section after the other. In an open section,
  the text written so far comes first.
\<close>

fun sections :: "'l \<Rightarrow> 'c list option \<Rightarrow> ('l, 'c) act list \<Rightarrow> 'c list list" where
  "sections l cur [] = (case cur of None \<Rightarrow> [] | Some acc \<Rightarrow> [acc])"
| "sections l cur (Acquire k # p) = (if k = l then sections l (Some []) p else sections l cur p)"
| "sections l cur (Emit k c # p) = (if k = l then sections l (map_option (\<lambda>acc. acc @ [c]) cur) p else sections l cur p)"
| "sections l cur (Release k # p) =
     (if k = l then (case cur of None \<Rightarrow> [] | Some acc \<Rightarrow> [acc]) @ sections l None p else sections l cur p)"

text \<open>A whole section under one lock, and how it continues.\<close>

definition block :: "'l \<Rightarrow> 'c list \<Rightarrow> ('l, 'c) act list" where
  "block k text = Acquire k # map (Emit k) text @ [Release k]"

lemma scoped_emits: "scoped rank H (map (Emit k) cs @ q) \<longleftrightarrow> (cs = [] \<or> k \<in> set H) \<and> scoped rank H q"
  by (induction cs) auto

lemma sections_emits:
  "sections l cur (map (Emit k) cs @ q) = sections l (if k = l then map_option (\<lambda>acc. acc @ cs) cur else cur) q"
proof (cases "k = l")
  case True
  have "sections l cur (map (Emit l) cs @ q) = sections l (map_option (\<lambda>acc. acc @ cs) cur) q"
    by (induction cs arbitrary: cur) (simp_all add: option.map_comp o_def option.map_ident)
  with True show ?thesis by simp
next
  case False
  then show ?thesis by (induction cs) simp_all
qed

lemma scoped_block [simp]: "scoped rank H (block k cs @ q) \<longleftrightarrow> (\<forall>h \<in> set H. rank h < rank k) \<and> scoped rank H q"
  by (simp add: block_def scoped_emits)

lemma sections_block [simp]: "sections l None (block k cs @ q) = (if k = l then [cs] else []) @ sections l None q"
  by (simp add: block_def sections_emits)

text \<open>The sections in which something is written.\<close>

definition written :: "'l \<Rightarrow> ('l, 'c) act list \<Rightarrow> 'c list list" where
  "written l p = filter (\<lambda>x. x \<noteq> []) (sections l None p)"

text \<open>Every step uses up one action.\<close>

lemma guarded_step_progs: "guarded_step lock unlock s s' \<Longrightarrow> \<exists>t a p. th_progs s t = a # p \<and> th_progs s' = (th_progs s)(t := p)"
  by (induction rule: guarded_step.induct) auto

lemma guarded_step_work:
  assumes "guarded_step lock unlock s s'" and fin: "finite {t. th_progs s t \<noteq> []}"
  shows "finite {t. th_progs s' t \<noteq> []}"
    and "(\<Sum>t | th_progs s' t \<noteq> []. length (th_progs s' t)) < (\<Sum>t | th_progs s t \<noteq> []. length (th_progs s t))"
proof -
  from guarded_step_progs [OF assms(1)] obtain t a p where
    t: "th_progs s t = a # p" "th_progs s' = (th_progs s)(t := p)" by blast
  let ?T = "{t. th_progs s t \<noteq> []}"
  have sub: "{u. th_progs s' u \<noteq> []} \<subseteq> ?T" using t by auto
  then show "finite {t. th_progs s' t \<noteq> []}" using fin by (rule finite_subset)
  have "(\<Sum>t | th_progs s' t \<noteq> []. length (th_progs s' t)) = (\<Sum>t \<in> ?T. length (th_progs s' t))"
    using fin sub by (intro sum.mono_neutral_left) auto
  also have "\<dots> < (\<Sum>t \<in> ?T. length (th_progs s t))"
    by (rule sum_strict_mono_ex1) (use fin t in auto)
  finally show "(\<Sum>t | th_progs s' t \<noteq> []. length (th_progs s' t)) < (\<Sum>t | th_progs s t \<noteq> []. length (th_progs s t))" .
qed

lemma guarded_steps_finite:
  "(guarded_step lock unlock)\<^sup>*\<^sup>* s s' \<Longrightarrow> finite {t. th_progs s t \<noteq> []} \<Longrightarrow> finite {t. th_progs s' t \<noteq> []}"
  by (induction rule: rtranclp_induct) (auto dest: guarded_step_work(1))

section \<open>The invariant\<close>

text \<open>The locks a thread holds are those of its open scopes.\<close>

definition locks_inv ::
    "('m \<Rightarrow> tid \<Rightarrow> bool) \<Rightarrow> ('l \<Rightarrow> nat) \<Rightarrow> (tid \<Rightarrow> 'l list) \<Rightarrow> ('l, 'm, 'c) threads \<Rightarrow> bool" where
  "locks_inv holds rank H s \<longleftrightarrow>
     (\<forall>t. scoped rank (H t) (th_progs s t) \<and> distinct (H t)) \<and> (\<forall>l t. holds (th_locks s l) t \<longleftrightarrow> l \<in> set (H t)) \<and>
     (\<forall>l t u. holds (th_locks s l) t \<longrightarrow> holds (th_locks s l) u \<longrightarrow> t = u)"

text \<open>
  The stream of a lock is a series of whole sections, each with the thread it belongs to, and what the holder of the
  lock has written of its section (\<open>pre\<close>). For every thread, its part of the series, the section it is in, and those it has
  still to run are the sections of its program.
\<close>

definition stream_inv ::
    "('m \<Rightarrow> tid \<Rightarrow> bool) \<Rightarrow> (tid \<Rightarrow> ('l, 'c) act list) \<Rightarrow> ('l, 'm, 'c) threads \<Rightarrow> 'l \<Rightarrow> (tid \<times> 'c list) list \<Rightarrow> 'c list \<Rightarrow> bool" where
  "stream_inv holds ps s l rs pre \<longleftrightarrow>
     th_out s l = concat (map snd rs) @ pre \<and> ((\<forall>t. \<not> holds (th_locks s l) t) \<longrightarrow> pre = []) \<and>
     (\<forall>t. map snd (filter (\<lambda>r. fst r = t) rs) @
        sections l (if holds (th_locks s l) t then Some pre else None) (th_progs s t) = sections l None (ps t))"

definition threads_inv ::
    "('m \<Rightarrow> tid \<Rightarrow> bool) \<Rightarrow> ('l \<Rightarrow> nat) \<Rightarrow> (tid \<Rightarrow> ('l, 'c) act list) \<Rightarrow> ('l, 'm, 'c) threads \<Rightarrow> bool" where
  "threads_inv holds rank ps s \<longleftrightarrow> (\<exists>H. locks_inv holds rank H s) \<and> (\<forall>l. \<exists>rs pre. stream_inv holds ps s l rs pre)"

lemma no_infinite_climb:
  fixes f :: "'a \<Rightarrow> nat"
  assumes "finite T" and "t \<in> T" and climb: "\<And>t. t \<in> T \<Longrightarrow> \<exists>u \<in> T. f t < f u"
  shows False
proof -
  have "Max (f ` T) \<in> f ` T" using assms(1,2) by (intro Max_in) auto
  then obtain u where "u \<in> T" "f u = Max (f ` T)" by auto
  with climb [of u] Max_ge [of "f ` T"] assms(1) show False by fastforce
qed

lemma stream_invI:
  assumes "th_out s l = concat (map snd rs) @ pre" and "(\<And>t. \<not> holds (th_locks s l) t) \<Longrightarrow> pre = []"
    and "\<And>t. map snd (filter (\<lambda>r. fst r = t) rs) @
       sections l (if holds (th_locks s l) t then Some pre else None) (th_progs s t) = sections l None (ps t)"
  shows "stream_inv holds ps s l rs pre"
  using assms by (simp add: stream_inv_def)

lemma stream_invD:
  assumes "stream_inv holds ps s l rs pre"
  shows "th_out s l = concat (map snd rs) @ pre" and "(\<And>t. \<not> holds (th_locks s l) t) \<Longrightarrow> pre = []"
    and "map snd (filter (\<lambda>r. fst r = t) rs) @
       sections l (if holds (th_locks s l) t then Some pre else None) (th_progs s t) = sections l None (ps t)"
  using assms by (simp_all add: stream_inv_def)

text \<open>An action on one lock does not concern the streams of the others.\<close>

lemma stream_inv_other:
  assumes "stream_inv holds ps s k rs pre" and "th_locks s' k = th_locks s k" and "th_out s' k = th_out s k"
    and "\<And>u cur. sections k cur (th_progs s' u) = sections k cur (th_progs s u)"
  shows "stream_inv holds ps s' k rs pre"
  using assms by (simp add: stream_inv_def)

context exclusive_lock
begin

lemma locks_inv_acquire:
  assumes inv: "locks_inv holds rank H s" and p: "th_progs s t = Acquire l # p"
    and new: "ScopedLock_new (lock t) (th_locks s l) = Some (m, b)"
  shows "locks_inv holds rank (H(t := l # H t)) (s\<lparr>th_locks := (th_locks s)(l := m), th_progs := (th_progs s)(t := p)\<rparr>)"
proof -
  have l: "lock t (th_locks s l) = Some m" using new by (auto simp: ScopedLock_new_def)
  note free = lock_none_held [OF l] and held = lock_holds [OF l]
  have "scoped rank (H t) (Acquire l # p)" using inv p by (metis locks_inv_def)
  moreover have "l \<notin> set (H u)" for u using inv free by (simp add: locks_inv_def)
  ultimately show ?thesis using inv held by (auto simp: locks_inv_def)
qed

lemma locks_inv_release:
  assumes inv: "locks_inv holds rank H s" and p: "th_progs s t = Release l # p"
    and dtor: "ScopedLock_dtor (unlock t) (th_locks s l, True) = Inr m"
  shows "locks_inv holds rank (H(t := tl (H t))) (s\<lparr>th_locks := (th_locks s)(l := m), th_progs := (th_progs s)(t := p)\<rparr>)"
proof -
  have sc: "scoped rank (H t) (Release l # p)" "distinct (H t)" using inv p by (metis locks_inv_def)+
  then obtain H' where H': "H t = l # H'" "l \<notin> set H'" "distinct H'" "scoped rank H' p" by (cases "H t") auto
  then have t: "holds (th_locks s l) t" using inv by (simp add: locks_inv_def)
  have "unlock t (th_locks s l) = Inr m" using dtor by (auto simp: ScopedLock_dtor_def ScopedLock_unlock_def rbind_eq_Inr)
  from unlock_releases [OF t this] have free: "\<not> holds m u" for u .
  have "l \<notin> set (H u)" if "u \<noteq> t" for u using inv t that by (auto simp: locks_inv_def)
  with inv H' free show ?thesis by (auto simp: locks_inv_def)
qed

lemma locks_inv_emit:
  assumes inv: "locks_inv holds rank H s" and p: "th_progs s t = Emit l c # p"
  shows "locks_inv holds rank H (s\<lparr>th_progs := (th_progs s)(t := p), th_out := out\<rparr>)"
proof -
  have "scoped rank (H t) (Emit l c # p)" using inv p by (metis locks_inv_def)
  with inv show ?thesis by (auto simp: locks_inv_def)
qed

lemma stream_inv_acquire:
  assumes inv: "stream_inv holds ps s k rs pre" and p: "th_progs s t = Acquire l # p"
    and new: "ScopedLock_new (lock t) (th_locks s l) = Some (m, b)"
  shows "stream_inv holds ps (s\<lparr>th_locks := (th_locks s)(l := m), th_progs := (th_progs s)(t := p)\<rparr>) k rs pre"
    (is "stream_inv _ _ ?s' _ _ _")
proof (cases "k = l")
  case True
  have l: "lock t (th_locks s l) = Some m" using new by (auto simp: ScopedLock_new_def)
  note free = lock_none_held [OF l] and held = lock_holds [OF l]
  have pre: "pre = []" using stream_invD(2) [OF inv] free True by blast
  show ?thesis
  proof (rule stream_invI)
    show "map snd (filter (\<lambda>r. fst r = u) rs) @ sections k (if holds (th_locks ?s' k) u then Some pre else None) (th_progs ?s' u) =
        sections k None (ps u)" for u
      using stream_invD(3) [OF inv, of u] True pre p free held by (cases "u = t") simp_all
  qed (use stream_invD(1) [OF inv] pre in simp_all)
next
  case False
  then show ?thesis using inv p by (intro stream_inv_other [OF inv]) simp_all
qed

lemma stream_inv_emit:
  assumes inv: "stream_inv holds ps s k rs pre" and p: "th_progs s t = Emit l c # p" and t: "holds (th_locks s l) t"
    and one: "\<And>u. holds (th_locks s l) u \<Longrightarrow> u = t"
  shows "\<exists>pre'. stream_inv holds ps (s\<lparr>th_progs := (th_progs s)(t := p), th_out := (th_out s)(l := th_out s l @ [c])\<rparr>) k rs pre'"
    (is "\<exists>pre'. stream_inv _ _ ?s' _ _ _")
proof (cases "k = l")
  case True
  have "stream_inv holds ps ?s' k rs (pre @ [c])"
  proof (rule stream_invI)
    show "map snd (filter (\<lambda>r. fst r = u) rs) @
        sections k (if holds (th_locks ?s' k) u then Some (pre @ [c]) else None) (th_progs ?s' u) = sections k None (ps u)" for u
    proof (cases "u = t")
      case False
      with one have "\<not> holds (th_locks s l) u" by blast
      with False True stream_invD(3) [OF inv, of u] show ?thesis by simp
    qed (use stream_invD(3) [OF inv, of u] True p t in simp)
  qed (use stream_invD(1) [OF inv] t True in simp_all)
  then show ?thesis ..
next
  case False
  then have "stream_inv holds ps ?s' k rs pre" using p by (intro stream_inv_other [OF inv]) simp_all
  then show ?thesis ..
qed

lemma stream_inv_release:
  assumes inv: "stream_inv holds ps s k rs pre" and p: "th_progs s t = Release l # p" and t: "holds (th_locks s l) t"
    and one: "\<And>u. holds (th_locks s l) u \<Longrightarrow> u = t"
    and dtor: "ScopedLock_dtor (unlock t) (th_locks s l, True) = Inr m"
  shows "\<exists>rs' pre'. stream_inv holds ps (s\<lparr>th_locks := (th_locks s)(l := m), th_progs := (th_progs s)(t := p)\<rparr>) k rs' pre'"
    (is "\<exists>rs' pre'. stream_inv _ _ ?s' _ _ _")
proof (cases "k = l")
  case True
  have "unlock t (th_locks s l) = Inr m" using dtor by (auto simp: ScopedLock_dtor_def ScopedLock_unlock_def rbind_eq_Inr)
  from unlock_releases [OF t this] have free: "\<not> holds m u" for u .
  have "stream_inv holds ps ?s' k (rs @ [(t, pre)]) []"
  proof (rule stream_invI)
    show "map snd (filter (\<lambda>r. fst r = u) (rs @ [(t, pre)])) @
        sections k (if holds (th_locks ?s' k) u then Some [] else None) (th_progs ?s' u) = sections k None (ps u)" for u
    proof (cases "u = t")
      case False
      with one have "\<not> holds (th_locks s l) u" by blast
      with False True free stream_invD(3) [OF inv, of u] show ?thesis by simp
    qed (use stream_invD(3) [OF inv, of u] True p t free in simp)
  qed (use stream_invD(1) [OF inv] True in simp_all)
  then show ?thesis by blast
next
  case False
  then have "stream_inv holds ps ?s' k rs pre" using p by (intro stream_inv_other [OF inv]) simp_all
  then show ?thesis by blast
qed

lemma threads_invI:
  "locks_inv holds rank H s \<Longrightarrow> (\<And>l. \<exists>rs pre. stream_inv holds ps s l rs pre) \<Longrightarrow> threads_inv holds rank ps s"
  unfolding threads_inv_def by blast

lemma threads_invE:
  assumes "threads_inv holds rank ps s"
  obtains H where "locks_inv holds rank H s" and "\<And>l. \<exists>rs pre. stream_inv holds ps s l rs pre"
  using assms unfolding threads_inv_def by blast

lemma threads_inv_start: "(\<And>t. scoped rank [] (ps t)) \<Longrightarrow> threads_inv holds rank ps (threads_start m0 ps)"
  unfolding threads_inv_def
proof (intro conjI allI)
  assume "\<And>t. scoped rank [] (ps t)"
  then have "locks_inv holds rank (\<lambda>_. []) (threads_start m0 ps)"
    by (simp add: locks_inv_def threads_start_def start_free)
  then show "\<exists>H. locks_inv holds rank H (threads_start m0 ps)" by (rule exI [where x = "\<lambda>_. []"])
  have "stream_inv holds ps (threads_start m0 ps) l [] []" for l
    by (simp add: stream_inv_def threads_start_def start_free)
  then show "\<exists>rs pre. stream_inv holds ps (threads_start m0 ps) l rs pre" for l by blast
qed

lemma threads_inv_step:
  assumes "guarded_step lock unlock s s'" and "threads_inv holds rank ps s"
  shows "threads_inv holds rank ps s'"
proof -
  from assms(2) obtain H where H: "locks_inv holds rank H s" and streams: "\<And>k. \<exists>rs pre. stream_inv holds ps s k rs pre"
    by (rule threads_invE) blast
  have one: "holds (th_locks s l) t \<Longrightarrow> holds (th_locks s l) u \<Longrightarrow> u = t" for l t u using H unfolding locks_inv_def by blast
  have sc: "scoped rank (H t) (th_progs s t)" "\<And>l. holds (th_locks s l) t \<longleftrightarrow> l \<in> set (H t)" for t
    using H by (simp_all add: locks_inv_def)
  show ?thesis
    using assms(1)
  proof cases
    case (step_acquire t l p m b)
    have "\<exists>rs pre. stream_inv holds ps s' k rs pre" for k
      using streams [of k] stream_inv_acquire [OF _ step_acquire(2,3)] step_acquire(1) by blast
    then show ?thesis
      using threads_invI [OF locks_inv_acquire [OF H step_acquire(2,3)]] step_acquire(1) by blast
  next
    case (step_emit t l c p)
    with sc(1) [of t] sc(2) [of l t] have t: "holds (th_locks s l) t" by simp
    have "\<exists>rs pre. stream_inv holds ps s' k rs pre" for k
      using streams [of k] stream_inv_emit [OF _ step_emit(2) t one [OF t]] step_emit(1) by blast
    then show ?thesis
      using threads_invI [OF locks_inv_emit [OF H step_emit(2)]] step_emit(1) by blast
  next
    case (step_release t l p m)
    with sc(1) [of t] have "l \<in> set (H t)" by auto
    then have t: "holds (th_locks s l) t" by (simp add: sc(2))
    have "\<exists>rs pre. stream_inv holds ps s' k rs pre" for k
      using streams [of k] stream_inv_release [OF _ step_release(2) t one [OF t] step_release(3)] step_release(1) by blast
    then show ?thesis
      using threads_invI [OF locks_inv_release [OF H step_release(2,3)]] step_release(1) by blast
  qed
qed

lemma threads_inv_steps:
  assumes "(guarded_step lock unlock)\<^sup>*\<^sup>* (threads_start m0 ps) s" and "\<And>t. scoped rank [] (ps t)"
  shows "threads_inv holds rank ps s"
  using assms(1) by (induction rule: rtranclp_induct) (auto intro: threads_inv_start threads_inv_step assms(2))

text \<open>A thread that cannot move waits for a lock that another unfinished thread holds, which wants a lock of larger rank.\<close>

lemma stuck_waits:
  assumes inv: "locks_inv holds rank H s" and p: "th_progs s t \<noteq> []"
    and stuck: "\<And>s'. \<not> guarded_step lock unlock s s'"
  shows "\<exists>l u q. th_progs s t = Acquire l # q \<and> l \<in> set (H u) \<and> th_progs s u \<noteq> []"
proof -
  obtain a q where a: "th_progs s t = a # q" using p by (cases "th_progs s t") auto
  have sc: "scoped rank (H t) (a # q)" using inv a by (metis locks_inv_def)
  show ?thesis
  proof (cases a)
    case (Acquire l)
    with stuck a have "lock t (th_locks s l) = None"
      by (metis (no_types, lifting) ScopedLock_new_def not_Some_eq option.map(2) step_acquire)
    then obtain u where "holds (th_locks s l) u" using lock_free by blast
    then have "l \<in> set (H u)" "scoped rank (H u) (th_progs s u)" using inv by (auto simp: locks_inv_def)
    then have "th_progs s u \<noteq> []" by auto
    with Acquire a \<open>l \<in> set (H u)\<close> show ?thesis by blast
  next
    case (Emit l c)
    with stuck a step_emit show ?thesis by metis
  next
    case (Release l)
    with sc have "l \<in> set (H t)" by auto
    then have "holds (th_locks s l) t" using inv by (simp add: locks_inv_def)
    then obtain m where "ScopedLock_dtor (unlock t) (th_locks s l, True) = Inr m"
      using unlock_holder by (fastforce simp: ScopedLock_dtor_def ScopedLock_unlock_def)
    with stuck a Release step_release show ?thesis by metis
  qed
qed

lemma threads_progress:
  assumes inv: "threads_inv holds rank ps s" and fin: "finite {t. th_progs s t \<noteq> []}" and more: "th_progs s t \<noteq> []"
  shows "\<exists>s'. guarded_step lock unlock s s'"
proof (rule ccontr)
  assume "\<nexists>s'. guarded_step lock unlock s s'"
  then have stuck: "\<And>s'. \<not> guarded_step lock unlock s s'" by blast
  from inv obtain H where H: "locks_inv holds rank H s" by (rule threads_invE) blast
  let ?T = "{t. th_progs s t \<noteq> []}"
  let ?want = "\<lambda>t. case th_progs s t of Acquire l # q \<Rightarrow> rank l | _ \<Rightarrow> 0"
  have "\<exists>u \<in> ?T. ?want t < ?want u" if "t \<in> ?T" for t
  proof -
    from stuck_waits [OF H _ stuck] that obtain l u q where
      l: "th_progs s t = Acquire l # q" "l \<in> set (H u)" "th_progs s u \<noteq> []" by blast
    from stuck_waits [OF H l(3) stuck] obtain k r where k: "th_progs s u = Acquire k # r" by blast
    have "scoped rank (H u) (th_progs s u)" using H by (simp add: locks_inv_def)
    with k l have "rank l < rank k" by simp
    with k l show ?thesis by (intro bexI [of _ u]) simp_all
  qed
  then show False using no_infinite_climb [OF fin, of t ?want] more by blast
qed

text \<open>
  What has been written under a lock that nobody holds is a series of whole sections; with the sections that a thread
  still has to run, those of the thread are the sections of its program, in their order.
\<close>

lemma threads_series:
  assumes inv: "threads_inv holds rank ps s" and free: "\<And>t. \<not> holds (th_locks s l) t"
  shows "\<exists>rs. th_out s l = concat (map snd rs) \<and>
     (\<forall>t. map snd (filter (\<lambda>r. fst r = t) rs) @ sections l None (th_progs s t) = sections l None (ps t))"
proof -
  from inv obtain rs pre where rs: "stream_inv holds ps s l rs pre" by (rule threads_invE) blast
  have "pre = []" using stream_invD(2) [OF rs] free by blast
  with stream_invD(1) [OF rs] stream_invD(3) [OF rs] free show ?thesis by (intro exI [of _ rs]) simp
qed

lemma threads_series_written:
  assumes "threads_inv holds rank ps s" and "\<And>t. \<not> holds (th_locks s l) t"
  shows "\<exists>rs. th_out s l = concat (map snd rs) \<and>
     (\<forall>t. map snd (filter (\<lambda>r. fst r = t) rs) @ written l (th_progs s t) = written l (ps t))"
proof -
  from threads_series [OF assms] obtain rs where rs: "th_out s l = concat (map snd rs)"
    "\<And>t. sections l None (ps t) = map snd (filter (\<lambda>r. fst r = t) rs) @ sections l None (th_progs s t)" by metis
  let ?rs = "filter (\<lambda>r. snd r \<noteq> []) rs"
  have "concat (map snd ?rs) = concat (map snd rs)" by (induction rs) auto
  moreover have "map snd (filter (\<lambda>r. fst r = t) ?rs) = filter (\<lambda>x. x \<noteq> []) (map snd (filter (\<lambda>r. fst r = t) rs))" for t
    by (induction rs) auto
  ultimately show ?thesis using rs by (intro exI [of _ ?rs]) (simp add: written_def)
qed

text \<open>Every step uses up an action, so the threads can always run to their end.\<close>

lemma threads_complete:
  assumes "threads_inv holds rank ps s" and "finite {t. th_progs s t \<noteq> []}"
  shows "\<exists>s'. (guarded_step lock unlock)\<^sup>*\<^sup>* s s' \<and> (\<forall>t. th_progs s' t = [])"
  using assms
proof (induction "\<Sum>t | th_progs s t \<noteq> []. length (th_progs s t)" arbitrary: s rule: less_induct)
  case less
  show ?case
  proof (cases "\<exists>t. th_progs s t \<noteq> []")
    case True
    then obtain t0 where "th_progs s t0 \<noteq> []" ..
    from threads_progress [OF less.prems this] obtain s1 where s1: "guarded_step lock unlock s s1" ..
    from guarded_step_work [OF s1 less.prems(2)] threads_inv_step [OF s1 less.prems(1)] less.hyps [of s1]
    obtain s' where "(guarded_step lock unlock)\<^sup>*\<^sup>* s1 s'" "\<forall>t. th_progs s' t = []" by blast
    with s1 show ?thesis by (meson converse_rtranclp_into_rtranclp)
  qed blast
qed

end

end
