(* ===== verification/LogConcurrent.thy ===== *)
theory LogConcurrent
  imports LogProperties LockPrograms
begin

text \<open>
  Several threads that log at the same time. What the calls of \<open>src/sylar/log.cc\<close> do with the spin locks of the manager,
  the loggers and the appenders is written out as a program of actions, over a configuration that does not change
  meanwhile; the text that an appender writes comes out character by character. The contract \<open>exclusive_lock\<close> of
  \<open>Spinlock\<close> then gives that no thread gets stuck and that records are not mixed up.
\<close>

section \<open>The calls as programs\<close>

text \<open>
  \<open>StdoutLogAppender::log\<close> and \<open>FileLogAppender::log\<close>. The latter takes and releases its lock once more to
  reopen the file when the second has changed (\<open>due\<close>).
\<close>

definition appender_acts ::
    "(addr \<Rightarrow> bool) \<Rightarrow> 'z log_world_scheme \<Rightarrow> addr \<Rightarrow> Level \<Rightarrow> LogEvent \<Rightarrow> addr \<Rightarrow> (lock, char) act list" where
  "appender_acts due s l level ev a =
     (case appender_at s a of
        None \<Rightarrow> []
      | Some ap \<Rightarrow>
          if level \<ge> ap_level ap then
            (if ap_class ap \<noteq> StdoutLogAppender \<and> due a then block (AppenderLock a) [] else []) @
            block (AppenderLock a) (case record_text s ap l level ev of Inl e \<Rightarrow> [] | Inr text \<Rightarrow> text)
          else [])"

text \<open>\<open>Logger::log\<close>; \<open>root_log\<close> is the call on \<open>m_root\<close>.\<close>

definition logger_acts ::
    "(addr \<Rightarrow> (lock, char) act list) \<Rightarrow> (addr \<Rightarrow> bool) \<Rightarrow> 'z log_world_scheme \<Rightarrow> Level \<Rightarrow> LogEvent \<Rightarrow> addr
     \<Rightarrow> (lock, char) act list" where
  "logger_acts root_log due s level ev l =
     (case logger_at s l of
        None \<Rightarrow> []
      | Some lg \<Rightarrow>
          if level \<ge> lg_level lg then
            [Acquire (LoggerLock l)] @
            (if lg_appenders lg \<noteq> [] then concat (map (appender_acts due s l level ev) (lg_appenders lg))
             else (case lg_root lg of Some root \<Rightarrow> root_log root | None \<Rightarrow> [])) @
            [Release (LoggerLock l)]
          else [])"

text \<open>The root logger has no root of its own.\<close>

definition log_acts ::
    "(addr \<Rightarrow> bool) \<Rightarrow> 'z log_world_scheme \<Rightarrow> addr \<Rightarrow> Level \<Rightarrow> LogEvent \<Rightarrow> (lock, char) act list" where
  "log_acts due s l level ev = logger_acts (logger_acts (\<lambda>_. []) due s level ev) due s level ev l"

text \<open>\<open>Logger::toYamlString\<close>, which calls that of the appenders.\<close>

definition yaml_acts :: "'z log_world_scheme \<Rightarrow> addr \<Rightarrow> (lock, char) act list" where
  "yaml_acts s l =
     (case logger_at s l of
        None \<Rightarrow> []
      | Some lg \<Rightarrow>
          [Acquire (LoggerLock l)] @ concat (map (\<lambda>a. block (AppenderLock a) []) (lg_appenders lg)) @
          [Release (LoggerLock l)])"

datatype log_call =
    CallLog "addr \<Rightarrow> bool" addr Level LogEvent
  | CallGetLogger string
  | CallGetFormatter addr
  | CallLoggerYaml addr
  | CallManagerYaml

fun call_acts :: "'z log_world_scheme \<Rightarrow> log_call \<Rightarrow> (lock, char) act list" where
  "call_acts s (CallLog due l level ev) = log_acts due s l level ev"
| "call_acts s (CallGetLogger name) = block ManagerLock []"
| "call_acts s (CallGetFormatter l) = block (LoggerLock l) []"
| "call_acts s (CallLoggerYaml l) = yaml_acts s l"
| "call_acts s CallManagerYaml =
     [Acquire ManagerLock] @ concat (map (\<lambda>p. yaml_acts s (snd p)) (w_m_loggers s)) @ [Release ManagerLock]"

definition calls_acts :: "'z log_world_scheme \<Rightarrow> log_call list \<Rightarrow> (lock, char) act list" where
  "calls_acts s calls = concat (map (call_acts s) calls)"

section \<open>The order of the locks\<close>

text \<open>The manager before the loggers, the root logger after the others, the appenders last.\<close>

definition lock_rank :: "addr \<Rightarrow> lock \<Rightarrow> nat" where
  "lock_rank root k =
     (case k of ManagerLock \<Rightarrow> 0 | LoggerLock l \<Rightarrow> if l = root then 2 else 1 | AppenderLock a \<Rightarrow> 3)"

lemma lock_rank_simps [simp]:
  "lock_rank r ManagerLock = 0" "lock_rank r (LoggerLock l) = (if l = r then 2 else 1)" "lock_rank r (AppenderLock a) = 3"
  by (simp_all add: lock_rank_def)

lemma root_of:
  assumes "wf_log s" and "logger_at s l = Some lg" and "lg_root lg = Some r"
  shows "r = w_root s" and "l \<noteq> r"
proof -
  have "lg_root lg = None \<or> lg_root lg = Some (w_root s)" using assms(1,2) by (simp add: wf_log_def logger_ok_def)
  with assms(3) show r: "r = w_root s" by simp
  obtain root where "logger_at s (w_root s) = Some root" "lg_root root = None" using assms(1) by (auto simp: wf_log_def)
  with assms(2,3) r show "l \<noteq> r" by auto
qed

lemma scoped_appenders:
  assumes "\<forall>h \<in> set H. lock_rank r h < 3"
  shows "scoped (lock_rank r) H (concat (map (appender_acts due s l level ev) as) @ q) \<longleftrightarrow> scoped (lock_rank r) H q"
    and "scoped (lock_rank r) H (concat (map (\<lambda>a. block (AppenderLock a) []) as) @ q) \<longleftrightarrow> scoped (lock_rank r) H q"
  using assms
  by (induction as) (auto simp: appender_acts_def split: option.splits)

lemma scoped_log_acts:
  assumes "wf_log s"
  shows "scoped (lock_rank (w_root s)) [] (log_acts due s l level ev @ q) \<longleftrightarrow> scoped (lock_rank (w_root s)) [] q"
  using root_of [OF assms]
  by (auto simp: log_acts_def logger_acts_def scoped_appenders split: option.splits)

lemma scoped_yaml_acts:
  assumes "\<forall>h \<in> set H. lock_rank r h < 1"
  shows "scoped (lock_rank r) H (yaml_acts s l @ q) \<longleftrightarrow> scoped (lock_rank r) H q"
proof -
  have "lock_rank r h < lock_rank r (LoggerLock l) \<and> lock_rank r h < 3" if "h \<in> set H" for h
    using assms that by fastforce
  then show ?thesis
    by (auto simp: yaml_acts_def scoped_appenders split: option.splits)
qed

lemma scoped_calls:
  assumes "wf_log s"
  shows "scoped (lock_rank (w_root s)) [] (calls_acts s calls)"
proof (induction calls)
  case (Cons c calls)
  have yamls: "scoped (lock_rank r) [ManagerLock] (concat (map (\<lambda>p. yaml_acts s (snd p)) ps) @ q) \<longleftrightarrow>
      scoped (lock_rank r) [ManagerLock] q" for r q and ps :: "(string \<times> addr) list"
    by (induction ps) (simp_all add: scoped_yaml_acts)
  show ?case
    using Cons.IH assms by (cases c) (simp_all add: calls_acts_def scoped_log_acts scoped_yaml_acts yamls)
qed (simp add: calls_acts_def)

section \<open>What the programs write\<close>

text \<open>The appenders a log statement reaches, each with the logger that calls it.\<close>

definition own_receivers :: "'z log_world_scheme \<Rightarrow> Level \<Rightarrow> addr \<Rightarrow> (addr \<times> addr) list" where
  "own_receivers s level l =
     (case logger_at s l of
        None \<Rightarrow> []
      | Some lg \<Rightarrow> if lg_level lg \<le> level then map (Pair l) (lg_appenders lg) else [])"

definition receivers :: "'z log_world_scheme \<Rightarrow> addr \<Rightarrow> Level \<Rightarrow> (addr \<times> addr) list" where
  "receivers s l level =
     (case logger_at s l of
        None \<Rightarrow> []
      | Some lg \<Rightarrow>
          if lg_level lg \<le> level \<and> lg_appenders lg = [] \<and> lg_root lg \<noteq> None
          then own_receivers s level (w_root s) else own_receivers s level l)"

text \<open>The texts that a call writes through an appender.\<close>

fun records_to :: "'z log_world_scheme \<Rightarrow> addr \<Rightarrow> log_call \<Rightarrow> string list" where
  "records_to s a (CallLog due l level ev) =
     map (\<lambda>(k, b). shown (\<lambda>_ t. t) s k level ev b) (filter (\<lambda>r. snd r = a) (receivers s l level))"
| "records_to s a _ = []"

text \<open>On the console these are what the model of \<open>Logger::log\<close> shows.\<close>

lemma log_shown_receivers:
  "log_shown s l level ev = concat (map (\<lambda>(k, b). shown console_text s k level ev b) (receivers s l level))"
  by (auto simp: log_shown_def own_shown_def receivers_def own_receivers_def o_def split: option.splits)

abbreviation nonempty :: "string list \<Rightarrow> string list" where
  "nonempty xs \<equiv> filter (\<lambda>x. x \<noteq> []) xs"

lemma sections_appender_acts:
  "nonempty (sections (AppenderLock a) None (appender_acts due s l level ev b @ q)) =
     nonempty (if b = a then [shown (\<lambda>_ t. t) s l level ev b] else []) @ nonempty (sections (AppenderLock a) None q)"
  by (auto simp: appender_acts_def shown_def split: option.splits sum.splits)

lemma sections_appenders:
  "nonempty (sections (AppenderLock a) None (concat (map (appender_acts due s l level ev) as) @ q)) =
     nonempty (map (shown (\<lambda>_ t. t) s l level ev) (filter (\<lambda>b. b = a) as)) @ nonempty (sections (AppenderLock a) None q)"
  "nonempty (sections (AppenderLock a) None (concat (map (\<lambda>b. block (AppenderLock b) []) as) @ q)) =
     nonempty (sections (AppenderLock a) None q)"
  by (induction as) (simp_all add: sections_appender_acts)

abbreviation texts_to :: "'z log_world_scheme \<Rightarrow> Level \<Rightarrow> LogEvent \<Rightarrow> addr \<Rightarrow> (addr \<times> addr) list \<Rightarrow> string list" where
  "texts_to s level ev a rs \<equiv> map (\<lambda>(k, b). shown (\<lambda>_ t. t) s k level ev b) (filter (\<lambda>r. snd r = a) rs)"

lemma sections_own_acts:
  assumes "logger_at s l = Some lg" and "lg_appenders lg \<noteq> [] \<or> lg_root lg = None"
  shows "nonempty (sections (AppenderLock a) None (logger_acts f due s level ev l @ q)) =
     nonempty (texts_to s level ev a (own_receivers s level l)) @ nonempty (sections (AppenderLock a) None q)"
  using assms
  by (auto simp: logger_acts_def own_receivers_def sections_appenders filter_map o_def)

lemma sections_log_acts:
  assumes "wf_log s"
  shows "nonempty (sections (AppenderLock a) None (log_acts due s l level ev @ q)) =
     nonempty (texts_to s level ev a (receivers s l level)) @ nonempty (sections (AppenderLock a) None q)"
proof (cases "\<exists>lg. logger_at s l = Some lg \<and> lg_level lg \<le> level \<and> lg_appenders lg = [] \<and> lg_root lg \<noteq> None")
  case True
  then obtain lg r where lg: "logger_at s l = Some lg" "lg_level lg \<le> level" "lg_appenders lg = []" "lg_root lg = Some r"
    by auto
  obtain root where root: "logger_at s (w_root s) = Some root" "lg_root root = None" using assms by (auto simp: wf_log_def)
  show ?thesis
    using lg root_of(1) [OF assms lg(1,4)] sections_own_acts [OF root(1)] root(2)
    by (simp add: log_acts_def logger_acts_def [of _ _ _ _ _ l] receivers_def)
next
  case False
  then consider "logger_at s l = None" | lg where "logger_at s l = Some lg" "level < lg_level lg"
    | lg where "logger_at s l = Some lg" "lg_appenders lg \<noteq> [] \<or> lg_root lg = None" by fastforce
  then show ?thesis
  proof cases
    case 3
    with False sections_own_acts [OF 3] show ?thesis by (auto simp: log_acts_def receivers_def)
  qed (auto simp: log_acts_def logger_acts_def receivers_def own_receivers_def)
qed

lemma sections_yaml_acts:
  "nonempty (sections (AppenderLock a) None (yaml_acts s l @ q)) = nonempty (sections (AppenderLock a) None q)"
  by (simp add: yaml_acts_def sections_appenders split: option.splits)

lemma written_calls:
  assumes "wf_log s"
  shows "written (AppenderLock a) (calls_acts s calls) = nonempty (concat (map (records_to s a) calls))"
proof (induction calls)
  case (Cons c calls)
  have yamls: "nonempty (sections (AppenderLock a) None (concat (map (\<lambda>p. yaml_acts s (snd p)) ps) @ q)) =
      nonempty (sections (AppenderLock a) None q)" for q and ps :: "(string \<times> addr) list"
    by (induction ps) (simp_all add: sections_yaml_acts)
  show ?case
    using Cons.IH assms
    by (cases c) (simp_all add: written_def calls_acts_def sections_log_acts sections_yaml_acts yamls)
qed (simp add: calls_acts_def written_def)

section \<open>The property\<close>

abbreviation spin_step :: "('l, tid option, 'c) threads \<Rightarrow> ('l, tid option, 'c) threads \<Rightarrow> bool" where
  "spin_step \<equiv> guarded_step Spinlock_lock Spinlock_unlock"

text \<open>C3: any number of threads that log, through any loggers, at the same time as others look up loggers and dump the
  configuration never block one another for good: as long as some thread is not done, some thread can move, and all can run to
  their end. Whenever nobody holds the lock of an appender, what it has written is a series of whole records; those of each thread
  are the records of its calls so far, in their order, and only the records of the calls it has still to make are missing.\<close>

theorem concurrent_logging:
  assumes wf: "wf_log s" and fin: "finite {t. calls t \<noteq> []}"
    and run: "spin_step\<^sup>*\<^sup>* (threads_start Spinlock_new (\<lambda>t. calls_acts s (calls t))) st"
  shows "(\<forall>t. th_progs st t \<noteq> [] \<longrightarrow> (\<exists>st'. spin_step st st')) \<and>
     (\<exists>st'. spin_step\<^sup>*\<^sup>* st st' \<and> (\<forall>t. th_progs st' t = [])) \<and>
     (\<forall>a. th_locks st (AppenderLock a) = None \<longrightarrow>
        (\<exists>rs. th_out st (AppenderLock a) = concat (map snd rs) \<and>
          (\<forall>t. map snd (filter (\<lambda>r. fst r = t) rs) @ written (AppenderLock a) (th_progs st t) =
             nonempty (concat (map (records_to s a) (calls t))))))"
proof -
  let ?ps = "\<lambda>t. calls_acts s (calls t)"
  have inv: "threads_inv (\<lambda>m t. m = Some t) (lock_rank (w_root s)) ?ps st"
    by (rule spinlock.threads_inv_steps [OF run]) (rule scoped_calls [OF wf])
  have "{t. ?ps t \<noteq> []} \<subseteq> {t. calls t \<noteq> []}" by (auto simp: calls_acts_def)
  then have "finite {t. ?ps t \<noteq> []}" using fin by (rule finite_subset)
  then have fin': "finite {t. th_progs st t \<noteq> []}" using guarded_steps_finite [OF run] by (simp add: threads_start_def)
  have "\<exists>rs. th_out st (AppenderLock a) = concat (map snd rs) \<and>
      (\<forall>t. map snd (filter (\<lambda>r. fst r = t) rs) @ written (AppenderLock a) (th_progs st t) =
         nonempty (concat (map (records_to s a) (calls t))))" if "th_locks st (AppenderLock a) = None" for a
    using spinlock.threads_series_written [OF inv, of "AppenderLock a"] that unfolding written_calls [OF wf] by simp
  then show ?thesis
    using spinlock.threads_progress [OF inv fin'] spinlock.threads_complete [OF inv fin'] by blast
qed

lemma start_world_wf: "wf_log start_world"
  using logging.reach_inv [OF start_world_reachable] by (simp add: log_inv_def)

text \<open>Two threads log through the root logger of a process that has just started.\<close>

definition two_callers :: "tid \<Rightarrow> log_call list" where
  "two_callers = (\<lambda>_. [])
     (1 := [CallLog (\<lambda>_. False) 0 INFO (LogEvent_getSS_put ''one'' (new_event 0 INFO ''a.cc'' 3 start_world))],
      2 := [CallGetLogger ''root'',
            CallLog (\<lambda>_. False) 0 WARN (LogEvent_getSS_put ''two'' (new_event 0 WARN ''b.cc'' 4 start_world))])"

lemma two_callers_finite: "finite {t. two_callers t \<noteq> []}"
  by (rule finite_subset [of _ "{1, 2}"]) (auto simp: two_callers_def)

theorem concurrent_logging_witness:
  "\<exists>st. spin_step\<^sup>*\<^sup>* (threads_start Spinlock_new (\<lambda>t. calls_acts start_world (two_callers t))) st \<and>
     (\<forall>t. th_progs st t = [])"
  using concurrent_logging [OF start_world_wf two_callers_finite rtranclp.rtrancl_refl] by blast

end
