(* ===== verification/LogIteration.thy ===== *)
theory LogIteration
  imports LogProperties Locks
begin

text \<open>
  \<open>Logger::log\<close> iterates over \<open>m_appenders\<close>, a \<open>std::list\<close>, while other threads reconfigure the loggers. The calls
  of \<open>src/sylar/log.cc\<close> that change a logger take its spin lock, so that they wait for the loop to end, except
  \<open>clearAppender\<close>. Here the loop is broken up into its accesses, and the other calls come in between.
\<close>

section \<open>The state of the threads\<close>

text \<open>
  Where a thread is in \<open>Logger::log\<close> of a logger: at the call; past the check of the level, waiting for the
  lock; in the loop, with the list it started on and the appenders still to come; and in the call on \<open>m_root\<close>, or past it. The
  calls of a thread form a stack.
\<close>

datatype log_pc = Called addr | Entering addr | Visiting addr "addr list" "addr list" | Delegating addr

record 'z logging_threads =
  lt_world :: "'z log_world_scheme"
  lt_stack :: "tid \<Rightarrow> log_pc list"
  lt_args :: "tid \<Rightarrow> Level \<times> LogEvent"

text \<open>
  What the other threads call meanwhile; \<open>clears\<close> says whether that includes \<open>clearAppender\<close>. The locks of
  \<open>w_held\<close> are those of all threads, and a call that needs one of them has to wait.
\<close>

inductive logger_op :: "bool \<Rightarrow> 'z log_world_scheme \<Rightarrow> 'z log_world_scheme \<Rightarrow> bool" for clears where
  op_add: "Logger_addAppender l a s = (Inr (), s') \<Longrightarrow> logger_op clears s s'"
| op_del: "Logger_delAppender l a s = (Inr (), s') \<Longrightarrow> logger_op clears s s'"
| op_level: "Logger_setLevel l level s = (Inr (), s') \<Longrightarrow> logger_op clears s s'"
| op_formatter: "Logger_setFormatter l val s = (Inr (), s') \<Longrightarrow> logger_op clears s s'"
| op_getFormatter: "Logger_getFormatter l s = (Inr f, s') \<Longrightarrow> logger_op clears s s'"
| op_getLogger: "LoggerManager_getLogger name s = (Inr l, s') \<Longrightarrow> logger_op clears s s'"
| op_appender: "LogAppender_setFormatter a val s = (Inr (), s') \<Longrightarrow> logger_op clears s s'"
| op_clear: "clears \<Longrightarrow> Logger_clearAppender l s = (Inr (), s') \<Longrightarrow> logger_op clears s s'"

text \<open>The iterator of a loop is valid as long as the list is the one the loop has started on.\<close>

definition loop_valid :: "'z log_world_scheme \<Rightarrow> addr \<Rightarrow> addr list \<Rightarrow> bool" where
  "loop_valid s l as \<longleftrightarrow> (case logger_at s l of None \<Rightarrow> False | Some lg \<Rightarrow> lg_appenders lg = as)"

abbreviation lock_logger :: "addr \<Rightarrow> 'z log_world_scheme \<Rightarrow> 'z log_world_scheme" where
  "lock_logger l s \<equiv> s\<lparr>w_held := insert (LoggerLock l) (w_held s)\<rparr>"

abbreviation unlock_logger :: "addr \<Rightarrow> 'z log_world_scheme \<Rightarrow> 'z log_world_scheme" where
  "unlock_logger l s \<equiv> s\<lparr>w_held := w_held s - {LoggerLock l}\<rparr>"

abbreviation goto :: "'z logging_threads \<Rightarrow> 'z log_world_scheme \<Rightarrow> tid \<Rightarrow> log_pc list \<Rightarrow> 'z logging_threads" where
  "goto x s t st \<equiv> x\<lparr>lt_world := s, lt_stack := (lt_stack x)(t := st)\<rparr>"

inductive logging_step :: "bool \<Rightarrow> 'z logging_threads \<Rightarrow> 'z logging_threads \<Rightarrow> bool" for clears where
  log_begin: "lt_stack x t = [] \<Longrightarrow>
     logging_step clears x ((goto x (lt_world x) t [Called l])\<lparr>lt_args := (lt_args x)(t := (level, ev))\<rparr>)"
| log_below: "lt_stack x t = Called l # st \<Longrightarrow> logger_at (lt_world x) l = Some lg \<Longrightarrow> fst (lt_args x t) < lg_level lg \<Longrightarrow>
     logging_step clears x (goto x (lt_world x) t st)"
| log_pass: "lt_stack x t = Called l # st \<Longrightarrow> logger_at (lt_world x) l = Some lg \<Longrightarrow> fst (lt_args x t) \<ge> lg_level lg \<Longrightarrow>
     logging_step clears x (goto x (lt_world x) t (Entering l # st))"
| log_loop: "lt_stack x t = Entering l # st \<Longrightarrow> logger_at (lt_world x) l = Some lg \<Longrightarrow> LoggerLock l \<notin> w_held (lt_world x) \<Longrightarrow>
     lg_appenders lg \<noteq> [] \<Longrightarrow>
     logging_step clears x (goto x (lock_logger l (lt_world x)) t (Visiting l (lg_appenders lg) (lg_appenders lg) # st))"
| log_delegate: "lt_stack x t = Entering l # st \<Longrightarrow> logger_at (lt_world x) l = Some lg \<Longrightarrow>
     LoggerLock l \<notin> w_held (lt_world x) \<Longrightarrow> lg_appenders lg = [] \<Longrightarrow>
     logging_step clears x (goto x (lock_logger l (lt_world x)) t
       ((case lg_root lg of Some root \<Rightarrow> [Called root] | None \<Rightarrow> []) @ Delegating l # st))"
| log_visit: "lt_stack x t = Visiting l as (a # rest) # st \<Longrightarrow> loop_valid (lt_world x) l as \<Longrightarrow>
     LogAppender_log a l (fst (lt_args x t)) (snd (lt_args x t)) (lt_world x) = (Inr (), s) \<Longrightarrow>
     logging_step clears x (goto x s t (Visiting l as rest # st))"
| log_done: "lt_stack x t = Visiting l as [] # st \<Longrightarrow>
     logging_step clears x (goto x (unlock_logger l (lt_world x)) t st)"
| log_back: "lt_stack x t = Delegating l # st \<Longrightarrow>
     logging_step clears x (goto x (unlock_logger l (lt_world x)) t st)"
| log_other: "lt_stack x t = [] \<Longrightarrow> logger_op clears (lt_world x) s \<Longrightarrow> logging_step clears x (x\<lparr>lt_world := s\<rparr>)"

text \<open>At the start nobody logs, and nobody holds the lock of a logger.\<close>

definition logging_start :: "'z logging_threads \<Rightarrow> bool" where
  "logging_start x \<longleftrightarrow> (\<forall>t. lt_stack x t = []) \<and> (\<forall>l. LoggerLock l \<notin> w_held (lt_world x))"

section \<open>The other calls leave locked loggers alone\<close>

definition lists_kept :: "'z log_world_scheme \<Rightarrow> 'z log_world_scheme \<Rightarrow> bool" where
  "lists_kept s s' \<longleftrightarrow> w_held s' = w_held s \<and>
     (\<forall>l as. LoggerLock l \<in> w_held s \<longrightarrow> loop_valid s l as \<longrightarrow> loop_valid s' l as)"

lemma loop_valid_iff: "loop_valid s l as \<longleftrightarrow> (\<exists>lg. logger_at s l = Some lg \<and> lg_appenders lg = as)"
  by (simp add: loop_valid_def split: option.split)

lemma lists_kept_same: "w_held s' = w_held s \<Longrightarrow> logger_at s' = logger_at s \<Longrightarrow> lists_kept s s'"
  by (simp add: lists_kept_def loop_valid_def)

lemma loop_valid_held: "loop_valid (s\<lparr>w_held := H\<rparr>) l as = loop_valid s l as"
  by (simp add: loop_valid_def logger_at_def)

lemma log_frame_lists_kept: "log_frame s s' \<Longrightarrow> lists_kept s s'"
  by (rule lists_kept_same) (simp_all add: log_frame_logger_at, simp add: log_frame_def)

lemma held_back: "m \<notin> H \<Longrightarrow> insert m H - {m} = H"
  by simp

lemma logger_at_held [simp]: "logger_at (s\<lparr>w_held := H\<rparr>) l = logger_at s l"
  by (simp add: logger_at_def)

lemma put_appender_held [simp]: "w_held (put_appender a ap s) = w_held s"
  by (simp add: put_appender_def)

lemma put_logger_held [simp]: "w_held (put_logger l lg s) = w_held s"
  by (simp add: put_logger_def)

lemmas kept_simps = op_simps held_back lists_kept_def loop_valid_iff logger_at_put_logger

lemma kept_setLevel: "Logger_setLevel l level s = (Inr (), s') \<Longrightarrow> lists_kept s s'"
  by (auto simp: Logger_setLevel_def kept_simps split: option.splits)

lemma kept_delAppender: "Logger_delAppender l a s = (Inr (), s') \<Longrightarrow> lists_kept s s'"
  by (auto simp: Logger_delAppender_def kept_simps split: option.splits if_splits)

lemma kept_addAppender: "Logger_addAppender l a s = (Inr (), s') \<Longrightarrow> lists_kept s s'"
  by (auto simp: Logger_addAppender_def LogAppender_getFormmater_def kept_simps split: option.splits if_splits)

lemma kept_getFormatter: "Logger_getFormatter l s = (Inr f, s') \<Longrightarrow> lists_kept s s'"
  by (auto simp: Logger_getFormatter_def kept_simps split: option.splits if_splits)

lemma kept_appender: "LogAppender_setFormatter a val s = (Inr (), s') \<Longrightarrow> lists_kept s s'"
  by (auto simp: LogAppender_setFormatter_def kept_simps split: option.splits if_splits)

lemma kept_getLogger: "LoggerManager_getLogger name s = (Inr l, s') \<Longrightarrow> lists_kept s s'"
  by (auto simp: LoggerManager_getLogger_def Logger_new_eval kept_simps logger_at_def put_logger_def nth_append split: option.splits if_splits)

text \<open>The loop of \<open>setFormatter\<close> only touches appenders.\<close>

lemma inherit_keeps:
  "inherit_formatter val a s = (r, s') \<Longrightarrow> w_held s' = w_held s \<and> logger_at s' = logger_at s"
  by (auto simp: inherit_formatter_def op_simps held_back fun_eq_iff split: option.splits if_splits)

lemma inherit_loop_keeps:
  "for_each (inherit_formatter val) as s = (r, s') \<Longrightarrow> w_held s' = w_held s \<and> logger_at s' = logger_at s"
proof (induction as arbitrary: s)
  case (Cons a as)
  obtain r1 s1 where s1: "inherit_formatter val a s = (r1, s1)" by (cases "inherit_formatter val a s")
  with inherit_keeps [OF s1] Cons show ?case by (cases r1) (auto simp: bindc_def)
qed (simp add: ret_apply)

lemma kept_setFormatter: "Logger_setFormatter l val s = (Inr (), s') \<Longrightarrow> lists_kept s s'"
proof -
  assume op: "Logger_setFormatter l val s = (Inr (), s')"
  then obtain lg where lg: "logger_at s l = Some lg" "LoggerLock l \<notin> w_held s"
    by (auto simp: Logger_setFormatter_def op_simps split: option.splits if_splits)
  let ?s1 = "put_logger l (lg\<lparr>lg_formatter := val\<rparr>) (lock_logger l s)"
  obtain r t where t: "for_each (inherit_formatter val) (lg_appenders lg) ?s1 = (r, t)" by fastforce
  have "s' = unlock_logger l t" using op lg t by (auto simp: Logger_setFormatter_def op_simps)
  with inherit_loop_keeps [OF t] lg show ?thesis by (auto simp: kept_simps)
qed

lemma logger_op_kept: "logger_op False s s' \<Longrightarrow> lists_kept s s'"
  by (erule logger_op.cases)
    (simp_all add: kept_setLevel kept_delAppender kept_addAppender kept_getFormatter kept_appender kept_getLogger kept_setFormatter)

section \<open>The invariant\<close>

fun locks_of :: "log_pc list \<Rightarrow> addr list" where
  "locks_of [] = []"
| "locks_of (Visiting l as rest # st) = l # locks_of st"
| "locks_of (Delegating l # st) = l # locks_of st"
| "locks_of (Called l # st) = locks_of st"
| "locks_of (Entering l # st) = locks_of st"

text \<open>The locks held are those of the calls under way, each of one call, and every loop is over the list of its logger.\<close>

definition iter_inv :: "'z logging_threads \<Rightarrow> bool" where
  "iter_inv x \<longleftrightarrow>
     (\<forall>l. LoggerLock l \<in> w_held (lt_world x) \<longleftrightarrow> (\<exists>t. l \<in> set (locks_of (lt_stack x t)))) \<and>
     (\<forall>t u l. l \<in> set (locks_of (lt_stack x t)) \<longrightarrow> l \<in> set (locks_of (lt_stack x u)) \<longrightarrow> t = u) \<and>
     (\<forall>t. distinct (locks_of (lt_stack x t))) \<and>
     (\<forall>t l as rest. Visiting l as rest \<in> set (lt_stack x t) \<longrightarrow> loop_valid (lt_world x) l as)"

lemma visiting_locks: "Visiting l as rest \<in> set st \<Longrightarrow> l \<in> set (locks_of st)"
  by (induction st rule: locks_of.induct) auto

lemma iter_inv_args [simp]: "iter_inv (x\<lparr>lt_args := f\<rparr>) = iter_inv x"
  by (simp add: iter_inv_def)

lemma iter_invI:
  assumes "\<And>k. LoggerLock k \<in> w_held (lt_world x) \<longleftrightarrow> (\<exists>t. k \<in> set (locks_of (lt_stack x t)))"
    and "\<And>t u k. k \<in> set (locks_of (lt_stack x t)) \<Longrightarrow> k \<in> set (locks_of (lt_stack x u)) \<Longrightarrow> t = u"
    and "\<And>t. distinct (locks_of (lt_stack x t))"
    and "\<And>t k as rest. Visiting k as rest \<in> set (lt_stack x t) \<Longrightarrow> loop_valid (lt_world x) k as"
  shows "iter_inv x"
  using assms unfolding iter_inv_def by blast

lemma iter_invD:
  assumes "iter_inv x"
  shows "LoggerLock k \<in> w_held (lt_world x) \<longleftrightarrow> (\<exists>t. k \<in> set (locks_of (lt_stack x t)))"
    and "k \<in> set (locks_of (lt_stack x t)) \<Longrightarrow> k \<in> set (locks_of (lt_stack x u)) \<Longrightarrow> t = u"
    and "distinct (locks_of (lt_stack x t))"
  using assms unfolding iter_inv_def by blast+

lemma iter_inv_visiting: "iter_inv x \<Longrightarrow> Visiting l as rest \<in> set (lt_stack x t) \<Longrightarrow> loop_valid (lt_world x) l as"
  unfolding iter_inv_def by blast

lemma inv_move:
  assumes "iter_inv x" and "lists_kept (lt_world x) s" and "locks_of st = locks_of (lt_stack x t)"
    and "\<And>l as rest. Visiting l as rest \<in> set st \<Longrightarrow> \<exists>r. Visiting l as r \<in> set (lt_stack x t)"
  shows "iter_inv (goto x s t st)"
proof -
  have locks: "locks_of (((lt_stack x)(t := st)) u) = locks_of (lt_stack x u)" for u using assms(3) by simp
  have "loop_valid s l as" if v: "Visiting l as rest \<in> set (((lt_stack x)(t := st)) u)" for u l as rest
  proof -
    have "\<exists>r. Visiting l as r \<in> set (lt_stack x u)"
    proof (cases "u = t")
      case True
      with v have "Visiting l as rest \<in> set st" by simp
      with assms(4) True show ?thesis by blast
    qed (use v in auto)
    then obtain r where r: "Visiting l as r \<in> set (lt_stack x u)" ..
    then have "loop_valid (lt_world x) l as" "LoggerLock l \<in> w_held (lt_world x)"
      using assms(1) visiting_locks [OF r] unfolding iter_inv_def by blast+
    then show ?thesis using assms(2) by (simp add: lists_kept_def)
  qed
  moreover have "w_held s = w_held (lt_world x)" using assms(2) by (simp add: lists_kept_def)
  ultimately show ?thesis using assms(1) locks by (simp add: iter_inv_def del: fun_upd_apply)
qed

text \<open>What some thread holds, one thread singled out.\<close>

lemma ex_thread:
  "(\<exists>u. k \<in> set (if u = t then xs else f u)) \<longleftrightarrow> k \<in> set xs \<or> (\<exists>u. u \<noteq> t \<and> k \<in> set (f u))"
  "(\<exists>u. k \<in> set (f u)) \<longleftrightarrow> k \<in> set (f t) \<or> (\<exists>u. u \<noteq> t \<and> k \<in> set (f u))"
proof -
  show "(\<exists>u. k \<in> set (if u = t then xs else f u)) \<longleftrightarrow> k \<in> set xs \<or> (\<exists>u. u \<noteq> t \<and> k \<in> set (f u))"
    by (metis (full_types))
  show "(\<exists>u. k \<in> set (f u)) \<longleftrightarrow> k \<in> set (f t) \<or> (\<exists>u. u \<noteq> t \<and> k \<in> set (f u))" by metis
qed

lemma inv_acquire:
  assumes "iter_inv x" and "LoggerLock l \<notin> w_held (lt_world x)" and "locks_of st = l # locks_of (lt_stack x t)"
    and "\<And>k as rest. Visiting k as rest \<in> set st \<Longrightarrow>
      (\<exists>r. Visiting k as r \<in> set (lt_stack x t)) \<or> loop_valid (lt_world x) k as"
  shows "iter_inv (goto x (lock_logger l (lt_world x)) t st)"
proof -
  have new: "l \<notin> set (locks_of (lt_stack x u))" for u using assms(1,2) unfolding iter_inv_def by blast
  have locks: "locks_of (((lt_stack x)(t := st)) u) = (if u = t then l # locks_of (lt_stack x t) else locks_of (lt_stack x u))" for u
    using assms(3) by simp
  have "loop_valid (lt_world x) k as" if v: "Visiting k as rest \<in> set (((lt_stack x)(t := st)) u)" for u k as rest
    using v assms(4) [of k as rest] iter_inv_visiting [OF assms(1)] by (cases "u = t") auto
  moreover have "LoggerLock k \<in> insert (LoggerLock l) (w_held (lt_world x)) \<longleftrightarrow>
      (\<exists>u. k \<in> set (locks_of (((lt_stack x)(t := st)) u)))" for k
  proof -
    have "LoggerLock k \<in> insert (LoggerLock l) (w_held (lt_world x)) \<longleftrightarrow> k = l \<or> (\<exists>u. k \<in> set (locks_of (lt_stack x u)))"
      using iter_invD(1) [OF assms(1)] by simp
    also have "\<dots> \<longleftrightarrow> (\<exists>u. k \<in> set (if u = t then l # locks_of (lt_stack x t) else locks_of (lt_stack x u)))"
      unfolding ex_thread(1) using ex_thread(2) [where f = "\<lambda>u. locks_of (lt_stack x u)" and k = k and t = t] by simp
    finally show ?thesis by (simp only: locks)
  qed
  moreover have "u = v" if "k \<in> set (locks_of (((lt_stack x)(t := st)) u))" "k \<in> set (locks_of (((lt_stack x)(t := st)) v))" for k u v
    using that new iter_invD(2) [OF assms(1), of k] unfolding locks by (auto split: if_splits)
  moreover have "distinct (locks_of (((lt_stack x)(t := st)) u))" for u
    using new iter_invD(3) [OF assms(1)] unfolding locks by simp
  ultimately show ?thesis by (intro iter_invI) (simp_all add: loop_valid_held del: fun_upd_apply)
qed

lemma inv_release:
  assumes "iter_inv x" and "locks_of (lt_stack x t) = l # locks_of st" and "set st \<subseteq> set (lt_stack x t)"
  shows "iter_inv (goto x (unlock_logger l (lt_world x)) t st)"
proof -
  have locks: "locks_of (((lt_stack x)(t := st)) u) = (if u = t then locks_of st else locks_of (lt_stack x u))" for u
    by simp
  have dist: "distinct (l # locks_of st)" using assms(1,2) unfolding iter_inv_def by metis
  have mine: "l \<notin> set (locks_of (lt_stack x u))" if "u \<noteq> t" for u
    using that assms(1,2) unfolding iter_inv_def by (metis list.set_intros(1))
  have "loop_valid (lt_world x) k as" if v: "Visiting k as rest \<in> set (((lt_stack x)(t := st)) u)" for u k as rest
    using v assms(3) iter_inv_visiting [OF assms(1)] by (cases "u = t") auto
  moreover have "LoggerLock k \<in> w_held (lt_world x) - {LoggerLock l} \<longleftrightarrow>
      (\<exists>u. k \<in> set (locks_of (((lt_stack x)(t := st)) u)))" for k
  proof -
    have "LoggerLock k \<in> w_held (lt_world x) - {LoggerLock l} \<longleftrightarrow> k \<noteq> l \<and> (\<exists>u. k \<in> set (locks_of (lt_stack x u)))"
      using iter_invD(1) [OF assms(1)] by auto
    also have "\<dots> \<longleftrightarrow> (\<exists>u. k \<in> set (if u = t then locks_of st else locks_of (lt_stack x u)))"
      unfolding ex_thread(1) using ex_thread(2) [where f = "\<lambda>u. locks_of (lt_stack x u)" and k = k and t = t] dist mine assms(2) by auto
    finally show ?thesis by (simp only: locks)
  qed
  moreover have "u = v" if "k \<in> set (locks_of (((lt_stack x)(t := st)) u))" "k \<in> set (locks_of (((lt_stack x)(t := st)) v))" for k u v
    using that assms(2) iter_invD(2) [OF assms(1), of k] unfolding locks by (auto split: if_splits)
  moreover have "distinct (locks_of (((lt_stack x)(t := st)) u))" for u
    using dist iter_invD(3) [OF assms(1)] unfolding locks by simp
  ultimately show ?thesis by (intro iter_invI) (simp_all add: loop_valid_held del: fun_upd_apply)
qed

lemma lists_kept_refl [simp]: "lists_kept s s"
  by (simp add: lists_kept_def)

lemma iter_inv_step: "logging_step False x x' \<Longrightarrow> iter_inv x \<Longrightarrow> iter_inv x'"
proof (induction rule: logging_step.induct)
  case log_begin
  then show ?case unfolding iter_inv_args by (intro inv_move) auto
next
  case (log_below x t l st lg)
  then show ?case by (intro inv_move) auto
next
  case (log_pass x t l st lg)
  then show ?case by (intro inv_move) auto
next
  case (log_loop x t l st lg)
  then have "loop_valid (lt_world x) l (lg_appenders lg)" by (simp add: loop_valid_def)
  with log_loop show ?case by (intro inv_acquire) auto
next
  case (log_delegate x t l st lg)
  then show ?case by (intro inv_acquire) (auto split: option.splits)
next
  case (log_visit x t l as a rest st s)
  then have "lists_kept (lt_world x) s"
    using frame_LogAppender_log [of "lt_world x" a l "fst (lt_args x t)" "snd (lt_args x t)"] log_frame_lists_kept by simp
  with log_visit show ?case by (intro inv_move) auto
next
  case (log_done x t l as st)
  then show ?case by (intro inv_release) auto
next
  case (log_back x t l st)
  then show ?case by (intro inv_release) auto
next
  case (log_other x t s)
  have "goto x s t (lt_stack x t) = x\<lparr>lt_world := s\<rparr>" by simp
  moreover have "iter_inv (goto x s t (lt_stack x t))"
    by (rule inv_move [OF log_other.prems logger_op_kept [OF log_other.hyps(2)]]) auto
  ultimately show ?case by simp
qed

lemma iter_inv_start: "logging_start x \<Longrightarrow> iter_inv x"
  by (simp add: logging_start_def iter_inv_def)

interpretation iteration: transition_system logging_start "logging_step False" iter_inv
  by unfold_locales (rule iter_inv_start iter_inv_step; assumption)+

section \<open>Property\<close>

text \<open>C11: reconfiguring loggers while threads log. As long as nobody calls \<open>clearAppender\<close>, every loop of
  \<open>Logger::log\<close> goes over the list of its logger, whose lock its thread holds, however the threads are scheduled: adding and
  deleting appenders and changing formatters waits for it. \<open>clearAppender\<close>, which the listener of the configuration
  calls on live loggers, does not: it can empty the list of any logger in the middle of a loop, whose next access then is to an erased node.\<close>

theorem iteration_under_reconfiguration:
  assumes start: "logging_start x0" and lg: "logger_at (lt_world x0) l = Some lg" "lg_appenders lg \<noteq> []" "lg_level lg \<le> level"
  shows "(\<forall>x t k as rest st. (logging_step False)\<^sup>*\<^sup>* x0 x \<longrightarrow> lt_stack x t = Visiting k as rest # st \<longrightarrow>
        loop_valid (lt_world x) k as \<and> LoggerLock k \<in> w_held (lt_world x) \<and>
        (\<forall>u. u \<noteq> t \<longrightarrow> k \<notin> set (locks_of (lt_stack x u)))) \<and>
     (\<exists>x. (logging_step True)\<^sup>*\<^sup>* x0 x \<and> lt_stack x t = [Visiting l (lg_appenders lg) (lg_appenders lg)] \<and>
        loop_valid (lt_world x) l [])"
proof (intro conjI allI impI)
  fix x t k as rest st
  assume run: "(logging_step False)\<^sup>*\<^sup>* x0 x" and st: "lt_stack x t = Visiting k as rest # st"
  have inv: "iter_inv x" using iteration.steps_inv [OF run iter_inv_start [OF start]] .
  have k: "k \<in> set (locks_of (lt_stack x t))" using st by simp
  show "loop_valid (lt_world x) k as" using iter_inv_visiting [OF inv, of k as rest t] st by simp
  show "LoggerLock k \<in> w_held (lt_world x)" using iter_invD(1) [OF inv] k by blast
  show "k \<notin> set (locks_of (lt_stack x u))" if "u \<noteq> t" for u using iter_invD(2) [OF inv k] that by blast
next
  let ?as = "lg_appenders lg" let ?s = "lt_world x0"
  have idle: "lt_stack x0 v = []" "LoggerLock l \<notin> w_held ?s" for v using start by (simp_all add: logging_start_def)
  let ?x1 = "(goto x0 ?s t [Called l])\<lparr>lt_args := (lt_args x0)(t := (level, snd (lt_args x0 t)))\<rparr>"
  let ?x2 = "goto ?x1 ?s t [Entering l]" let ?x3 = "goto ?x2 (lock_logger l ?s) t [Visiting l ?as ?as]"
  let ?s4 = "put_logger l (lg\<lparr>lg_appenders := []\<rparr>) (lock_logger l ?s)" let ?x4 = "?x3\<lparr>lt_world := ?s4\<rparr>"
  have "logging_step True x0 ?x1" using idle by (intro log_begin)
  moreover have "logging_step True ?x1 ?x2" using log_pass [of ?x1 t l "[]" lg] lg by simp
  moreover have "logging_step True ?x2 ?x3" using log_loop [of ?x2 t l "[]" lg] lg idle by simp
  moreover have "logging_step True ?x3 ?x4"
    using log_other [of ?x3 "Suc t" True ?s4] op_clear [of True l "lock_logger l ?s" ?s4] Logger_clearAppender_eval [of "lock_logger l ?s" l lg]
      lg idle by simp
  ultimately have "(logging_step True)\<^sup>*\<^sup>* x0 ?x4" by (meson converse_rtranclp_into_rtranclp rtranclp.rtrancl_refl)
  then show "\<exists>x. (logging_step True)\<^sup>*\<^sup>* x0 x \<and> lt_stack x t = [Visiting l ?as ?as] \<and> loop_valid (lt_world x) l []"
    using lg(1) by (intro exI [of _ ?x4]) (simp add: loop_valid_iff logger_at_put_logger)
qed

definition idle_threads :: "unit logging_threads" where
  "idle_threads = \<lparr>lt_world = start_world, lt_stack = (\<lambda>t. []), lt_args = (\<lambda>t. (INFO, new_event 0 INFO ''a.cc'' 3 start_world))\<rparr>"

theorem iteration_under_reconfiguration_witness:
  "\<exists>x. (logging_step True)\<^sup>*\<^sup>* idle_threads x \<and> lt_stack x 3 = [Visiting 0 [0] [0]] \<and> loop_valid (lt_world x) 0 []"
proof -
  have "logging_start idle_threads" by (simp add: logging_start_def idle_threads_def)
  from iteration_under_reconfiguration [OF this, of 0 "(fresh_logger ''root'' None)\<lparr>lg_appenders := [0]\<rparr>" INFO 3] show ?thesis
    by (simp add: idle_threads_def logger_at_def fresh_logger_def less_eq_Level_def)
qed

end
