(* ===== verification/LexicalCast.thy ===== *)
theory LexicalCast
  imports Yaml "HOL-Library.Multiset"
begin

text \<open>
  The functors \<open>LexicalCast\<close> of \<open>src/sylar/config.h\<close> for the standard containers. The conversion of
  the elements is an argument, so the definitions nest as the templates do; for a basic type it
  is \<open>boost::lexical_cast\<close>.
\<close>

section \<open>Containers\<close>

text \<open>
  \<open>std::set\<close> is a list in strictly ascending order. Where the unordered containers put a new element
  among the others in iteration order is up to the implementation: an argument \<open>place\<close>.
\<close>

fun oset_insert :: "'a::linorder \<Rightarrow> 'a list \<Rightarrow> 'a list" where
  "oset_insert x [] = [x]"
| "oset_insert x (y # ys) = (if x < y then x # y # ys else if x = y then y # ys else y # oset_insert x ys)"

definition uset_insert :: "('a \<Rightarrow> 'a list \<Rightarrow> 'a list) \<Rightarrow> 'a \<Rightarrow> 'a list \<Rightarrow> 'a list" where
  "uset_insert place x xs = (if x \<in> set xs then xs else place x xs)"

text \<open>\<open>insert\<close> of a pair does nothing when the key is present.\<close>

definition omap_insert :: "'k::linorder \<Rightarrow> 'v \<Rightarrow> ('k \<times> 'v) list \<Rightarrow> ('k \<times> 'v) list" where
  "omap_insert k v m = (if k \<in> fst ` set m then m else omap_put k v m)"

definition umap_insert ::
    "('k \<times> 'v \<Rightarrow> ('k \<times> 'v) list \<Rightarrow> ('k \<times> 'v) list) \<Rightarrow> 'k \<Rightarrow> 'v \<Rightarrow> ('k \<times> 'v) list \<Rightarrow> ('k \<times> 'v) list" where
  "umap_insert place k v m = (if k \<in> fst ` set m then m else place (k, v) m)"

section \<open>From text\<close>

text \<open>The loop over \<open>node[i]\<close> that the sequence conversions share; \<open>add\<close> is what they do with an element.\<close>

definition seq_from_string ::
    "yaml_cpp \<Rightarrow> (string \<Rightarrow> 'a result) \<Rightarrow> ('a \<Rightarrow> 'c \<Rightarrow> 'c) \<Rightarrow> 'c \<Rightarrow> string \<Rightarrow> 'c result" where
  "seq_from_string Y cast add start v =
     rbind (y_load Y v) (\<lambda>node.
       rfold (\<lambda>i m_set.
         rbind (y_index Y node i) (\<lambda>n.
         rbind (cast (y_emit Y n)) (\<lambda>x. Inr (add x m_set)))) [0..<Node_size node] start)"

definition vector_from_string :: "yaml_cpp \<Rightarrow> (string \<Rightarrow> 'a result) \<Rightarrow> string \<Rightarrow> 'a list result" where
  "vector_from_string Y cast = seq_from_string Y cast (\<lambda>x xs. xs @ [x]) []"

definition list_from_string :: "yaml_cpp \<Rightarrow> (string \<Rightarrow> 'a result) \<Rightarrow> string \<Rightarrow> 'a list result" where
  "list_from_string Y cast = seq_from_string Y cast (\<lambda>x xs. xs @ [x]) []"

definition set_from_string :: "yaml_cpp \<Rightarrow> (string \<Rightarrow> 'a::linorder result) \<Rightarrow> string \<Rightarrow> 'a list result" where
  "set_from_string Y cast = seq_from_string Y cast oset_insert []"

definition unordered_set_from_string ::
    "yaml_cpp \<Rightarrow> ('a \<Rightarrow> 'a list \<Rightarrow> 'a list) \<Rightarrow> (string \<Rightarrow> 'a result) \<Rightarrow> string \<Rightarrow> 'a list result" where
  "unordered_set_from_string Y place cast = seq_from_string Y cast (uset_insert place) []"

text \<open>The loop over the pairs of a map.\<close>

definition pairs_from_string ::
    "yaml_cpp \<Rightarrow> (string \<Rightarrow> 'a result) \<Rightarrow> (string \<Rightarrow> 'a \<Rightarrow> 'c \<Rightarrow> 'c) \<Rightarrow> 'c \<Rightarrow> string \<Rightarrow> 'c result" where
  "pairs_from_string Y cast add start v =
     rbind (y_load Y v) (\<lambda>node.
     rbind (y_pairs Y node) (\<lambda>kvs.
       rfold (\<lambda>(first, second) m_map.
         rbind (cast (y_emit Y second)) (\<lambda>x. Inr (add (Node_Scalar first) x m_map))) kvs start))"

definition map_from_string :: "yaml_cpp \<Rightarrow> (string \<Rightarrow> 'a result) \<Rightarrow> string \<Rightarrow> (string \<times> 'a) list result" where
  "map_from_string Y cast = pairs_from_string Y cast omap_insert []"

definition unordered_map_from_string ::
    "yaml_cpp \<Rightarrow> (string \<times> 'a \<Rightarrow> (string \<times> 'a) list \<Rightarrow> (string \<times> 'a) list) \<Rightarrow> (string \<Rightarrow> 'a result)
     \<Rightarrow> string \<Rightarrow> (string \<times> 'a) list result" where
  "unordered_map_from_string Y place cast = pairs_from_string Y cast (umap_insert place) []"

section \<open>To text\<close>

text \<open>The loop over the elements in iteration order, and over the pairs.\<close>

definition seq_to_string :: "yaml_cpp \<Rightarrow> ('a \<Rightarrow> string result) \<Rightarrow> 'a list \<Rightarrow> string result" where
  "seq_to_string Y print v =
     rbind (rfold (\<lambda>i node.
       rbind (print i) (\<lambda>s. rbind (y_load Y s) (\<lambda>n. Node_push_back node n))) v Null) (\<lambda>node. Inr (y_emit Y node))"

definition vector_to_string :: "yaml_cpp \<Rightarrow> ('a \<Rightarrow> string result) \<Rightarrow> 'a list \<Rightarrow> string result" where
  "vector_to_string Y print v = seq_to_string Y print v"

definition list_to_string :: "yaml_cpp \<Rightarrow> ('a \<Rightarrow> string result) \<Rightarrow> 'a list \<Rightarrow> string result" where
  "list_to_string Y print v = seq_to_string Y print v"

definition set_to_string :: "yaml_cpp \<Rightarrow> ('a \<Rightarrow> string result) \<Rightarrow> 'a list \<Rightarrow> string result" where
  "set_to_string Y print v = seq_to_string Y print v"

definition unordered_set_to_string :: "yaml_cpp \<Rightarrow> ('a \<Rightarrow> string result) \<Rightarrow> 'a list \<Rightarrow> string result" where
  "unordered_set_to_string Y print v = seq_to_string Y print v"

definition pairs_to_string :: "yaml_cpp \<Rightarrow> ('a \<Rightarrow> string result) \<Rightarrow> (string \<times> 'a) list \<Rightarrow> string result" where
  "pairs_to_string Y print v =
     rbind (rfold (\<lambda>(first, second) node.
       rbind (print second) (\<lambda>s. rbind (y_load Y s) (\<lambda>n. Node_put first n node))) v Null) (\<lambda>node. Inr (y_emit Y node))"

definition map_to_string :: "yaml_cpp \<Rightarrow> ('a \<Rightarrow> string result) \<Rightarrow> (string \<times> 'a) list \<Rightarrow> string result" where
  "map_to_string Y print v = pairs_to_string Y print v"

definition unordered_map_to_string :: "yaml_cpp \<Rightarrow> ('a \<Rightarrow> string result) \<Rightarrow> (string \<times> 'a) list \<Rightarrow> string result" where
  "unordered_map_to_string Y print v = pairs_to_string Y print v"

section \<open>Round trips\<close>

text \<open>
  A conversion of elements is good for a value when the text of the value is read back, also
  after the text has gone through a node.
\<close>

definition cast_ok :: "yaml_cpp \<Rightarrow> (string \<Rightarrow> 'a result) \<Rightarrow> ('a \<Rightarrow> string result) \<Rightarrow> 'a \<Rightarrow> bool" where
  "cast_ok Y cast print x \<longleftrightarrow>
     (\<exists>s n. print x = Inr s \<and> y_load Y s = Inr n \<and> cast s = Inr x \<and> cast (y_emit Y n) = Inr x)"

text \<open>The node an element becomes.\<close>

definition elem_node :: "yaml_cpp \<Rightarrow> ('a \<Rightarrow> string result) \<Rightarrow> 'a \<Rightarrow> Node" where
  "elem_node Y print x = projr (rbind (print x) (y_load Y))"

lemma cast_okE:
  assumes "cast_ok Y cast print x"
  obtains s where "print x = Inr s" and "y_load Y s = Inr (elem_node Y print x)"
    and "cast s = Inr x" and "cast (y_emit Y (elem_node Y print x)) = Inr x"
  using assms by (auto simp: cast_ok_def elem_node_def)

definition seq_node :: "Node list \<Rightarrow> Node" where
  "seq_node ns = (if ns = [] then Null else Sequence ns)"

lemma push_back_seq_node: "Node_push_back (seq_node ns) n = Inr (seq_node (ns @ [n]))"
  by (cases ns) (auto simp: seq_node_def)

lemma push_loop:
  assumes "\<forall>x \<in> set xs. cast_ok Y cast print x"
  shows "rfold (\<lambda>i node. rbind (print i) (\<lambda>s. rbind (y_load Y s) (\<lambda>n. Node_push_back node n))) xs (seq_node ns) =
     Inr (seq_node (ns @ map (elem_node Y print) xs))"
  using assms
proof (induction xs arbitrary: ns)
  case (Cons x xs)
  from Cons.prems have "cast_ok Y cast print x" by simp
  then obtain s where "print x = Inr s" "y_load Y s = Inr (elem_node Y print x)" by (rule cast_okE)
  with Cons show ?case by (simp add: push_back_seq_node)
qed simp

lemma seq_to_string_eval:
  "\<forall>x \<in> set xs. cast_ok Y cast print x \<Longrightarrow>
     seq_to_string Y print xs = Inr (y_emit Y (seq_node (map (elem_node Y print) xs)))"
  using push_loop [of xs Y cast print "[]"] by (simp add: seq_to_string_def seq_node_def)

lemma rfold_index:
  assumes "\<And>i acc. i < length xs \<Longrightarrow> f i acc = Inr (add (xs ! i) acc)"
  shows "rfold f [0..<length xs] acc = Inr (fold add xs acc)"
proof -
  have "rfold f [k..<k + length ys] acc = Inr (fold add ys acc)" if "\<And>i acc. i < length ys \<Longrightarrow> f (k + i) acc = Inr (add (ys ! i) acc)" for k ys acc
    using that
  proof (induction ys arbitrary: k acc)
    case (Cons y ys)
    have "f k acc = Inr (add y acc)" using Cons.prems [of 0 acc] by simp
    moreover have "rfold f [Suc k..<Suc k + length ys] (add y acc) = Inr (fold add ys (add y acc))"
    proof (rule Cons.IH)
      show "f (Suc k + i) acc = Inr (add (ys ! i) acc)" if "i < length ys" for i acc
        using Cons.prems [of "Suc i" acc] that by simp
    qed
    ultimately show ?case
      using upt_conv_Cons [of k "k + length (y # ys)"] by (simp del: upt_Suc)
  qed simp
  from this [of xs 0 acc] assms show ?thesis by simp
qed

lemma seq_from_string_eval:
  assumes "yaml_laws Y" and "\<forall>x \<in> set xs. cast_ok Y cast print x"
  shows "seq_from_string Y cast add start (y_emit Y (seq_node (map (elem_node Y print) xs))) = Inr (fold add xs start)"
proof (cases "xs = []")
  case True
  with assms(1) show ?thesis by (simp add: seq_from_string_def yaml_lawsD seq_node_def)
next
  case False
  let ?ns = "map (elem_node Y print) xs"
  have elem: "cast (y_emit Y (?ns ! i)) = Inr (xs ! i)" if "i < length xs" for i
  proof -
    have "cast_ok Y cast print (xs ! i)" using assms(2) that by simp
    then show ?thesis using that by (auto elim: cast_okE)
  qed
  have "rfold (\<lambda>i m_set. rbind (y_index Y (Sequence ?ns) i) (\<lambda>n. rbind (cast (y_emit Y n)) (\<lambda>x. Inr (add x m_set))))
      [0..<length xs] start = Inr (fold add xs start)"
    using assms(1) elem by (intro rfold_index) (simp add: yaml_lawsD)
  with False assms(1) show ?thesis by (simp add: seq_from_string_def yaml_lawsD seq_node_def)
qed

text \<open>What a container conversion inherits from the conversion of its elements.\<close>

lemma seq_cast_ok:
  assumes "yaml_laws Y" and "\<forall>x \<in> set xs. cast_ok Y cast print x" and "fold add xs start = xs"
  shows "cast_ok Y (seq_from_string Y cast add start) (seq_to_string Y print) xs"
  using seq_to_string_eval [OF assms(2)] seq_from_string_eval [OF assms(1,2), of add start] assms(1,3)
  by (simp add: cast_ok_def yaml_lawsD)

lemma fold_append_id: "fold (\<lambda>x xs. xs @ [x]) xs acc = acc @ xs"
  by (induction xs arbitrary: acc) auto

lemma oset_insert_last: "\<forall>y \<in> set ys. y < x \<Longrightarrow> oset_insert x ys = ys @ [x]"
  by (induction ys) auto

lemma fold_oset_insert_id: "sorted_wrt (<) (acc @ xs) \<Longrightarrow> fold oset_insert xs acc = acc @ xs"
  by (induction xs arbitrary: acc) (auto simp: oset_insert_last sorted_wrt_append)

lemma set_oset_insert [simp]: "set (oset_insert x xs) = insert x (set xs)"
  by (induction xs) auto

lemma sorted_oset_insert: "sorted_wrt (<) xs \<Longrightarrow> sorted_wrt (<) (oset_insert x xs)"
  by (induction xs) auto

lemma omap_put_last: "\<forall>p \<in> set m. fst p < k \<Longrightarrow> omap_put k v m = m @ [(k, v)]"
  by (induction m) auto

lemma omap_insert_last: "\<forall>p \<in> set m. fst p < k \<Longrightarrow> omap_insert k v m = m @ [(k, v)]"
  by (auto simp: omap_insert_def omap_put_last)

text \<open>The same for the pair conversions.\<close>

definition map_node :: "(string \<times> Node) list \<Rightarrow> Node" where
  "map_node kvs = (if kvs = [] then Null else Map (map (\<lambda>(k, n). (Scalar k, n)) kvs))"

lemma put_map_node:
  "k \<notin> fst ` set kvs \<Longrightarrow> Node_put k n (map_node kvs) = Inr (map_node (kvs @ [(k, n)]))"
proof (cases "kvs = []")
  case False
  assume "k \<notin> fst ` set kvs"
  then have "Scalar k \<notin> fst ` set (map (\<lambda>(k, n). (Scalar k, n)) kvs)" by force
  with False show ?thesis by (simp add: map_node_def assoc_put_new)
qed (simp add: map_node_def)

lemma put_loop:
  assumes "\<forall>p \<in> set m. cast_ok Y cast print (snd p)" and "distinct (map fst kvs @ map fst m)"
  shows "rfold (\<lambda>(first, second) node. rbind (print second) (\<lambda>s. rbind (y_load Y s) (\<lambda>n. Node_put first n node))) m (map_node kvs) =
     Inr (map_node (kvs @ map (\<lambda>(k, x). (k, elem_node Y print x)) m))"
  using assms
proof (induction m arbitrary: kvs)
  case (Cons p m)
  obtain k x where p: "p = (k, x)" by (cases p)
  with Cons.prems have "cast_ok Y cast print x" by simp
  then obtain s where "print x = Inr s" "y_load Y s = Inr (elem_node Y print x)" by (rule cast_okE)
  moreover have "k \<notin> fst ` set kvs" using Cons.prems(2) p by auto
  ultimately show ?case using Cons.IH [of "kvs @ [(k, elem_node Y print x)]"] Cons.prems p by (simp add: put_map_node)
qed simp

lemma pairs_to_string_eval:
  "\<forall>p \<in> set m. cast_ok Y cast print (snd p) \<Longrightarrow> distinct (map fst m) \<Longrightarrow>
     pairs_to_string Y print m = Inr (y_emit Y (map_node (map (\<lambda>(k, x). (k, elem_node Y print x)) m)))"
  using put_loop [of m Y cast print "[]"] by (simp add: pairs_to_string_def map_node_def)

lemma pairs_loop:
  assumes "\<forall>p \<in> set m. cast_ok Y cast print (snd p)"
  shows "rfold (\<lambda>(first, second) m_map. rbind (cast (y_emit Y second)) (\<lambda>x. Inr (add (Node_Scalar first) x m_map)))
      (map (\<lambda>(k, x). (Scalar k, elem_node Y print x)) m) acc = Inr (fold (\<lambda>(k, x). add k x) m acc)"
  using assms by (induction m arbitrary: acc) (auto elim!: cast_okE)

lemma pairs_from_string_eval:
  assumes "yaml_laws Y" and "\<forall>p \<in> set m. cast_ok Y cast print (snd p)"
  shows "pairs_from_string Y cast add start (y_emit Y (map_node (map (\<lambda>(k, x). (k, elem_node Y print x)) m))) =
     Inr (fold (\<lambda>(k, x). add k x) m start)"
proof -
  have "(\<lambda>(k, n). (Scalar k, n)) \<circ> (\<lambda>(k, x). (k, elem_node Y print x)) = (\<lambda>(k, x). (Scalar k, elem_node Y print x))"
    by (auto simp: fun_eq_iff)
  then show ?thesis
    using assms(1) pairs_loop [OF assms(2), of add start]
    by (auto simp: pairs_from_string_def yaml_lawsD map_node_def)
qed

lemma pairs_cast_ok:
  assumes "yaml_laws Y" and "\<forall>p \<in> set m. cast_ok Y cast print (snd p)" and "distinct (map fst m)"
    and "fold (\<lambda>(k, x). add k x) m start = m"
  shows "cast_ok Y (pairs_from_string Y cast add start) (pairs_to_string Y print) m"
  using pairs_to_string_eval [OF assms(2,3)] pairs_from_string_eval [OF assms(1,2), of add start] assms(1,4)
  by (simp add: cast_ok_def yaml_lawsD)

lemma fold_omap_insert_id:
  "omap_ok (acc @ m) \<Longrightarrow> fold (\<lambda>(k, x). omap_insert k x) m acc = acc @ m"
proof (induction m arbitrary: acc)
  case (Cons p m)
  obtain k x where p: "p = (k, x)" by (cases p)
  with Cons.prems have "\<forall>q \<in> set acc. fst q < k" by (auto simp: sorted_wrt_append)
  then have "omap_insert k x acc = acc @ [p]" using p by (simp add: omap_insert_last)
  with Cons p show ?case by simp
qed simp

lemma omap_ok_distinct: "omap_ok m \<Longrightarrow> distinct (map fst m)"
  by (induction m) auto

lemma fold_uset_insert:
  assumes "\<And>x xs. mset (place x xs) = add_mset x (mset xs)" and "distinct (acc @ xs)"
  shows "mset (fold (uset_insert place) xs acc) = mset (acc @ xs)"
  using assms(2)
proof (induction xs arbitrary: acc)
  case (Cons x xs)
  have "mset (uset_insert place x acc) = mset (acc @ [x])"
    using Cons.prems assms(1) [of x acc] by (simp add: uset_insert_def)
  moreover from this have "distinct (uset_insert place x acc @ xs)"
    using Cons.prems by (metis (no_types) append.assoc append_Cons append_Nil distinct_append mset_eq_imp_distinct_iff set_mset_mset)
  ultimately show ?case using Cons.IH [of "uset_insert place x acc"] by simp
qed simp

lemma fold_umap_insert:
  assumes "\<And>p m. mset (place p m) = add_mset p (mset m)" and "distinct (map fst (acc @ m))"
  shows "mset (fold (\<lambda>(k, x). umap_insert place k x) m acc) = mset (acc @ m)"
  using assms(2)
proof (induction m arbitrary: acc)
  case (Cons p m)
  obtain k x where p: "p = (k, x)" by (cases p)
  have ins: "mset (umap_insert place k x acc) = mset (acc @ [p])"
    using Cons.prems assms(1) [of p acc] p by (auto simp: umap_insert_def)
  then have "mset (map fst (umap_insert place k x acc @ m)) = mset (map fst (acc @ p # m))"
    by simp
  then have "distinct (map fst (umap_insert place k x acc @ m))"
    using Cons.prems by (metis mset_eq_imp_distinct_iff)
  with Cons.IH [OF this] ins p show ?case by simp
qed simp

end
