(* ===== verification/Config.thy ===== *)
theory Config
  imports LoggerOps LexicalCast
begin

text \<open>
  \<open>ConfigVarBase\<close>, \<open>ConfigVar\<close> and \<open>Config\<close> of \<open>src/sylar/config.h\<close> and \<open>src/sylar/config.cc\<close>. The
  variables of all types live in one store; a value is of the type \<open>'v\<close> that holds the values of
  every instantiation of the template, and \<open>cv_type\<close> is the name of the instantiation's type.
\<close>

section \<open>State\<close>

text \<open>A listener is known by a number; \<open>e_call\<close> below says what calling it does.\<close>

record 'v ConfigVar =
  cv_name :: string
  cv_description :: string
  cv_type :: string
  cv_val :: 'v
  cv_cbs :: "(u64 \<times> nat) list"

datatype rwlock = ConfigMutex | VarMutex addr

text \<open>
  The state of the logging system and, besides, the variables, the registry in iteration order, the static
  counters of \<open>addListener\<close> (one for each type), and the read and write locks the thread holds.
\<close>

record 'v cfg_world = log_world +
  c_vars :: "'v ConfigVar list"
  c_datas :: "(string \<times> addr) list"
  c_fun_id :: "string \<Rightarrow> u64"
  c_rd :: "rwlock list"
  c_wr :: "rwlock set"

type_synonym ('v, 'a) cfgc = "('v cfg_world, 'a) comp"

text \<open>
  What the instantiations and the libraries provide: the functors \<open>FromStr\<close> and \<open>ToStr\<close> of each type,
  the listeners, \<open>what()\<close>, the place of a new key among the others in the iteration order of an
  unordered map, and yaml-cpp.
\<close>

record 'v cfg_env =
  e_from :: "string \<Rightarrow> string \<Rightarrow> ('v, 'v) cfgc"
  e_to :: "string \<Rightarrow> 'v \<Rightarrow> string result"
  e_call :: "nat \<Rightarrow> 'v \<Rightarrow> 'v \<Rightarrow> ('v, unit) cfgc"
  e_what :: "exn \<Rightarrow> string"
  e_place :: "string \<times> addr \<Rightarrow> (string \<times> addr) list \<Rightarrow> (string \<times> addr) list"
  e_yaml :: yaml_cpp

definition var_at :: "'v cfg_world \<Rightarrow> addr \<Rightarrow> 'v ConfigVar option" where
  "var_at s i = (if i < length (c_vars s) then Some (c_vars s ! i) else None)"

definition get_var :: "addr \<Rightarrow> ('v, 'v ConfigVar) cfgc" where
  "get_var i s = (case var_at s i of None \<Rightarrow> (Inl NullDeref, s) | Some cv \<Rightarrow> (Inr cv, s))"

definition put_var :: "addr \<Rightarrow> 'v ConfigVar \<Rightarrow> 'v cfg_world \<Rightarrow> 'v cfg_world" where
  "put_var i cv s = s\<lparr>c_vars := (c_vars s)[i := cv]\<rparr>"

text \<open>
  \<open>ReadLock\<close> and \<open>WriteLock\<close> to the end of their scope. A thread may hold several read locks of one
  mutex; a request that conflicts with a lock the thread holds itself is never granted.
\<close>

definition with_rdlock :: "rwlock \<Rightarrow> ('v, 'a) cfgc \<Rightarrow> ('v, 'a) cfgc" where
  "with_rdlock m body s =
     (if m \<in> c_wr s then (Inl Deadlock, s)
      else
        (case body (s\<lparr>c_rd := m # c_rd s\<rparr>) of
           (r, s') \<Rightarrow> (r, s'\<lparr>c_rd := remove1 m (c_rd s')\<rparr>)))"

definition with_wrlock :: "rwlock \<Rightarrow> ('v, 'a) cfgc \<Rightarrow> ('v, 'a) cfgc" where
  "with_wrlock m body s =
     (if m \<in> c_wr s \<or> m \<in> set (c_rd s) then (Inl Deadlock, s)
      else
        (case body (s\<lparr>c_wr := insert m (c_wr s)\<rparr>) of
           (r, s') \<Rightarrow> (r, s'\<lparr>c_wr := c_wr s' - {m}\<rparr>)))"

text \<open>\<open>try { m } catch (std::exception& e) { handler }\<close>.\<close>

definition catch_std :: "('s, 'a) comp \<Rightarrow> (exn \<Rightarrow> ('s, 'a) comp) \<Rightarrow> ('s, 'a) comp" where
  "catch_std m handler s =
     (case m s of
        (Inl (Throw e), s') \<Rightarrow> if e = non_std_exception then (Inl (Throw e), s') else handler e s'
      | r \<Rightarrow> r)"

text \<open>
  \<open>SYLAR_LOG_LEVEL(SYLAR_LOG_ROOT(), level) << ...\<close>. The text of \<open>__FILE__\<close> is the path in the
  repository.
\<close>

definition log_root :: "Level \<Rightarrow> string \<Rightarrow> i32 \<Rightarrow> string \<Rightarrow> ('z, unit) logc" where
  "log_root level file line text = bindc LoggerManager_getRoot (\<lambda>l. SYLAR_LOG_LEVEL l level file line text)"

section \<open>ConfigVar\<close>

text \<open>The base class keeps the name in lower case and the description.\<close>

definition ConfigVarBase_new :: "string \<Rightarrow> string \<Rightarrow> string \<times> string" where
  "ConfigVarBase_new name description = (map c_tolower name, description)"

definition ConfigVar_new :: "string \<Rightarrow> string \<Rightarrow> 'v \<Rightarrow> string \<Rightarrow> ('v, addr) cfgc" where
  "ConfigVar_new T name default_value description s =
     (let (m_name, m_description) = ConfigVarBase_new name description in
     (Inr (length (c_vars s)),
      s\<lparr>c_vars := c_vars s @
          [\<lparr>cv_name = m_name, cv_description = m_description, cv_type = T,
            cv_val = default_value, cv_cbs = []\<rparr>]\<rparr>))"

definition ConfigVar_toString :: "'v cfg_env \<Rightarrow> addr \<Rightarrow> ('v, string) cfgc" where
  "ConfigVar_toString E i =
     bindc (get_var i) (\<lambda>cv.
     catch_std
       (with_rdlock (VarMutex i) (bindc (get_var i) (\<lambda>cv. lift_result (e_to E (cv_type cv) (cv_val cv)))))
       (\<lambda>e. bindc
          (log_root ERROR ''sylar/config.h'' 282
             (''ConfigVar::toString exception'' @ e_what E e @ '' convert: '' @ cv_type cv @ '' to string''))
          (\<lambda>_. ret [])))"

definition ConfigVar_getValue :: "addr \<Rightarrow> ('v, 'v) cfgc" where
  "ConfigVar_getValue i =
     bindc (get_var i) (\<lambda>_. with_rdlock (VarMutex i) (bindc (get_var i) (\<lambda>cv. ret (cv_val cv))))"

text \<open>The part of \<open>setValue\<close> under the read lock; the value says whether the function goes on.\<close>

definition setValue_notify :: "'v cfg_env \<Rightarrow> addr \<Rightarrow> 'v \<Rightarrow> ('v, bool) cfgc" where
  "setValue_notify E i v =
     with_rdlock (VarMutex i)
       (bindc (get_var i) (\<lambda>cv.
          if v = cv_val cv then ret False
          else
            bindc (for_each (\<lambda>(key, cb). bindc (get_var i) (\<lambda>cv'. e_call E cb (cv_val cv') v)) (cv_cbs cv))
              (\<lambda>_. ret True)))"

definition ConfigVar_setValue :: "'v cfg_env \<Rightarrow> addr \<Rightarrow> 'v \<Rightarrow> ('v, unit) cfgc" where
  "ConfigVar_setValue E i v =
     bindc (get_var i) (\<lambda>_.
     bindc (setValue_notify E i v) (\<lambda>changed.
       if changed then
         with_wrlock (VarMutex i) (bindc (get_var i) (\<lambda>cv. modify (put_var i (cv\<lparr>cv_val := v\<rparr>))))
       else ret ()))"

definition ConfigVar_fromString :: "'v cfg_env \<Rightarrow> addr \<Rightarrow> string \<Rightarrow> ('v, bool) cfgc" where
  "ConfigVar_fromString E i val =
     bindc (get_var i) (\<lambda>cv.
     bindc (catch_std (bindc (e_from E (cv_type cv) val) (ConfigVar_setValue E i))
              (\<lambda>e. log_root ERROR ''sylar/config.h'' 295
                 (''ConfigVar::toString exception'' @ e_what E e @ '' convert string to '' @ cv_type cv)))
       (\<lambda>_. ret False))"

definition ConfigVar_getTypeName :: "addr \<Rightarrow> ('v, string) cfgc" where
  "ConfigVar_getTypeName i = bindc (get_var i) (\<lambda>cv. ret (cv_type cv))"

definition ConfigVar_addListener :: "addr \<Rightarrow> nat \<Rightarrow> ('v, u64) cfgc" where
  "ConfigVar_addListener i cb =
     bindc (get_var i) (\<lambda>_.
     with_wrlock (VarMutex i) (bindc (get_var i) (\<lambda>cv s.
       (let key = c_fun_id s (cv_type cv) + 1 in
        (Inr key,
         put_var i (cv\<lparr>cv_cbs := omap_put key cb (cv_cbs cv)\<rparr>)
           (s\<lparr>c_fun_id := (c_fun_id s)(cv_type cv := key)\<rparr>))))))"

definition ConfigVar_delListener :: "addr \<Rightarrow> u64 \<Rightarrow> ('v, unit) cfgc" where
  "ConfigVar_delListener i key =
     bindc (get_var i) (\<lambda>_.
     with_wrlock (VarMutex i) (bindc (get_var i) (\<lambda>cv.
       modify (put_var i (cv\<lparr>cv_cbs := omap_erase key (cv_cbs cv)\<rparr>)))))"

definition ConfigVar_getListener :: "addr \<Rightarrow> u64 \<Rightarrow> ('v, nat option) cfgc" where
  "ConfigVar_getListener i key =
     bindc (get_var i) (\<lambda>_.
     with_rdlock (VarMutex i) (bindc (get_var i) (\<lambda>cv. ret (map_of (cv_cbs cv) key))))"

definition ConfigVar_clearListener :: "addr \<Rightarrow> ('v, unit) cfgc" where
  "ConfigVar_clearListener i =
     bindc (get_var i) (\<lambda>_.
     with_wrlock (VarMutex i) (bindc (get_var i) (\<lambda>cv. modify (put_var i (cv\<lparr>cv_cbs := []\<rparr>)))))"

section \<open>Config\<close>

definition name_chars :: string where
  "name_chars = ''abcdefghijklmnopqrstuvwxyz._0123456789''"

text \<open>\<open>m_datas[name] = v\<close> on the unordered map.\<close>

definition datas_put ::
    "(string \<times> addr \<Rightarrow> (string \<times> addr) list \<Rightarrow> (string \<times> addr) list) \<Rightarrow> string \<Rightarrow> addr
     \<Rightarrow> (string \<times> addr) list \<Rightarrow> (string \<times> addr) list" where
  "datas_put place name i m =
     (if name \<in> fst ` set m then map (\<lambda>p. if fst p = name then (name, i) else p) m else place (name, i) m)"

text \<open>
  The error record of \<open>Lookup\<close> for an entry of another type. The text is built, and \<open>toString\<close> called,
  only when the root logger takes records of that level.
\<close>

definition log_type_mismatch :: "'v cfg_env \<Rightarrow> string \<Rightarrow> string \<Rightarrow> addr \<Rightarrow> ('v, unit) cfgc" where
  "log_type_mismatch E T name i =
     bindc LoggerManager_getRoot (\<lambda>l.
     bindc (Logger_getLevel l) (\<lambda>logger_level s.
       if logger_level \<le> ERROR then
         (let ev = new_event l ERROR ''sylar/config.h'' 374 s in
          bindc (ConfigVar_getTypeName i) (\<lambda>real_type.
          bindc (ConfigVar_toString E i) (\<lambda>value.
          LogEventWrap_dtor (LogEvent_getSS_put
            (''Lookup name='' @ name @ '' exists but type not '' @ T @ '' real_type='' @ real_type @ '' '' @ value) ev))) s)
       else (Inr (), s)))"

text \<open>\<open>Lookup(name, default_value, description)\<close>.\<close>

definition Lookup_create :: "'v cfg_env \<Rightarrow> string \<Rightarrow> string \<Rightarrow> 'v \<Rightarrow> string \<Rightarrow> ('v, addr) cfgc" where
  "Lookup_create E T name default_value description =
     (if has_char_not_of name_chars name then
        bindc (log_root ERROR ''sylar/config.h'' 386 (''Lookup name invalid '' @ name))
          (\<lambda>_. raise (Throw (invalid_argument name)))
      else
        bindc (ConfigVar_new T name default_value description) (\<lambda>v.
        bindc (modify (\<lambda>s. s\<lparr>c_datas := datas_put (e_place E) name v (c_datas s)\<rparr>)) (\<lambda>_. ret v)))"

definition Config_Lookup :: "'v cfg_env \<Rightarrow> string \<Rightarrow> string \<Rightarrow> 'v \<Rightarrow> string \<Rightarrow> ('v, addr) cfgc" where
  "Config_Lookup E T name default_value description =
     with_wrlock ConfigMutex (\<lambda>s.
       case map_of (c_datas s) name of
         None \<Rightarrow> Lookup_create E T name default_value description s
       | Some i \<Rightarrow>
           bindc (get_var i) (\<lambda>cv.
             if cv_type cv = T then
               bindc (log_root INFO ''sylar/config.h'' 370 (''Lookup name='' @ name @ '' exists'')) (\<lambda>_. ret i)
             else
               bindc (log_type_mismatch E T name i) (\<lambda>_.
               Lookup_create E T name default_value description)) s)"

text \<open>\<open>Lookup(name)\<close>: a null pointer when there is no entry or its type is another.\<close>

definition Config_Lookup_name :: "string \<Rightarrow> string \<Rightarrow> ('v, addr option) cfgc" where
  "Config_Lookup_name T name =
     with_rdlock ConfigMutex (\<lambda>s.
       case map_of (c_datas s) name of
         None \<Rightarrow> (Inr None, s)
       | Some i \<Rightarrow> bindc (get_var i) (\<lambda>cv. ret (if cv_type cv = T then Some i else None)) s)"

definition Config_LookupBase :: "string \<Rightarrow> ('v, addr option) cfgc" where
  "Config_LookupBase name = with_rdlock ConfigMutex (\<lambda>s. (Inr (map_of (c_datas s) name), s))"

definition Config_Visit :: "(addr \<Rightarrow> ('v, unit) cfgc) \<Rightarrow> ('v, unit) cfgc" where
  "Config_Visit cb = with_rdlock ConfigMutex (\<lambda>s. for_each (\<lambda>(name, i). cb i) (c_datas s) s)"

text \<open>\<open>ListAllMember\<close> and its loop over the pairs of a map node; \<open>output\<close> is the list collected so far.\<close>

fun ListAllMember ::
    "yaml_cpp \<Rightarrow> string \<Rightarrow> Node \<Rightarrow> (string \<times> Node) list \<Rightarrow> ('z, (string \<times> Node) list) logc"
  and ListAllMember_loop ::
    "yaml_cpp \<Rightarrow> string \<Rightarrow> (Node \<times> Node) list \<Rightarrow> (string \<times> Node) list \<Rightarrow> ('z, (string \<times> Node) list) logc" where
  "ListAllMember Y prefix node output s =
     (if has_char_not_of name_chars prefix then
        bindc (log_root ERROR ''sylar/config.cc'' 21 (''Config invalid name: '' @ prefix @ '' : '' @ y_emit Y node))
          (\<lambda>_. ret output) s
      else
        (case node of
           Map kvs \<Rightarrow> ListAllMember_loop Y prefix kvs (output @ [(prefix, node)]) s
         | _ \<Rightarrow> (Inr (output @ [(prefix, node)]), s)))"
| "ListAllMember_loop Y prefix [] output s = (Inr output, s)"
| "ListAllMember_loop Y prefix ((first, second) # kvs) output s =
     (case ListAllMember Y (if prefix = [] then Node_Scalar first else prefix @ ''.'' @ Node_Scalar first) second output s of
        (Inl e, s') \<Rightarrow> (Inl e, s')
      | (Inr output', s') \<Rightarrow> ListAllMember_loop Y prefix kvs output' s')"

definition LoadFromYaml_entry :: "'v cfg_env \<Rightarrow> string \<times> Node \<Rightarrow> ('v, unit) cfgc" where
  "LoadFromYaml_entry E =
     (\<lambda>(key, node).
        if key = [] then ret ()
        else
          bindc (Config_LookupBase (map c_tolower key)) (\<lambda>var.
            case var of
              None \<Rightarrow> ret ()
            | Some i \<Rightarrow>
                bindc (ConfigVar_fromString E i
                         (if Node_IsScalar node then Node_Scalar node else y_emit (e_yaml E) node))
                  (\<lambda>_. ret ())))"

definition Config_LoadFromYaml :: "'v cfg_env \<Rightarrow> Node \<Rightarrow> ('v, unit) cfgc" where
  "Config_LoadFromYaml E root =
     bindc (ListAllMember (e_yaml E) [] root []) (for_each (LoadFromYaml_entry E))"

end
