(* ===== verification/ConfigOps.thy ===== *)
theory ConfigOps
  imports Config
begin

text \<open>
  The operations of the configuration evaluated: logging from them, the members of a configuration
  file, changing variables, loading a file, looking up variables, listeners; and the transition
  system of all calls on the configuration with its invariant.
\<close>

declare ListAllMember.simps [simp del] ListAllMember_loop.simps [simp del]

section \<open>Logging from the configuration system\<close>

text \<open>Logging works: the logging state is well formed, no lock of it is held, dates can be printed.\<close>

definition log_ok :: "'z log_world_scheme \<Rightarrow> bool" where
  "log_ok s \<longleftrightarrow> log_inv s \<and> dates_ok s"

text \<open>Two states with the same configuration.\<close>

definition cfg_eq :: "'v cfg_world \<Rightarrow> 'v cfg_world \<Rightarrow> bool" where
  "cfg_eq s t \<longleftrightarrow> log_world.more s = log_world.more t"

lemma cfg_eq_iff:
  "cfg_eq s t \<longleftrightarrow>
     c_vars s = c_vars t \<and> c_datas s = c_datas t \<and> c_fun_id s = c_fun_id t \<and> c_rd s = c_rd t \<and> c_wr s = c_wr t"
  by (cases s; cases t) (auto simp: cfg_eq_def)

lemma at_cfg [simp]:
  "logger_at (s\<lparr>c_vars := v\<rparr>) = logger_at s" "appender_at (s\<lparr>c_vars := v\<rparr>) = appender_at s"
  "logger_at (s\<lparr>c_datas := d\<rparr>) = logger_at s" "appender_at (s\<lparr>c_datas := d\<rparr>) = appender_at s"
  "logger_at (s\<lparr>c_fun_id := f\<rparr>) = logger_at s" "appender_at (s\<lparr>c_fun_id := f\<rparr>) = appender_at s"
  "logger_at (s\<lparr>c_rd := r\<rparr>) = logger_at s" "appender_at (s\<lparr>c_rd := r\<rparr>) = appender_at s"
  "logger_at (s\<lparr>c_wr := w\<rparr>) = logger_at s" "appender_at (s\<lparr>c_wr := w\<rparr>) = appender_at s"
  by (simp_all add: fun_eq_iff logger_at_def appender_at_def)

lemma log_ok_more [simp]:
  "log_ok (s\<lparr>c_vars := v\<rparr>) = log_ok s" "log_ok (s\<lparr>c_datas := d\<rparr>) = log_ok s"
  "log_ok (s\<lparr>c_fun_id := f\<rparr>) = log_ok s" "log_ok (s\<lparr>c_rd := r\<rparr>) = log_ok s" "log_ok (s\<lparr>c_wr := w\<rparr>) = log_ok s"
  by (simp_all add: log_ok_def log_inv_def wf_log_def logger_ok_def dates_ok_def logger_name_def)

lemma log_ok_frame: "log_frame s t \<Longrightarrow> log_ok s \<Longrightarrow> log_ok t"
  using inv_frame [of s t] by (auto simp: log_ok_def dates_ok_def log_frame_def)

lemma log_root_shown:
  assumes "log_ok s"
  shows "\<exists>t. log_root level file line text s = (Inr (), t) \<and>
     w_cout t = w_cout s @ log_shown s (w_root s) level (LogEvent_getSS_put text (new_event (w_root s) level file line s)) \<and>
     log_frame s t"
proof -
  have inv: "wf_log s" "w_held s = {}" "dates_ok s" using assms by (auto simp: log_ok_def log_inv_def)
  from inv(1) obtain root where "logger_at s (w_root s) = Some root" by (auto simp: wf_log_def)
  then have "logger_at s (w_root s) \<noteq> None" by simp
  from SYLAR_LOG_LEVEL_shown [OF inv this] show ?thesis by (simp add: log_root_def LoggerManager_getRoot_def bindc_def)
qed

lemma log_root_eval: "log_ok s \<Longrightarrow> \<exists>t. log_root level file line text s = (Inr (), t) \<and> log_frame s t"
  using log_root_shown [of s level] by blast

lemma log_frame_cfg_eq: "log_frame s t \<Longrightarrow> cfg_eq t s"
  by (simp add: log_frame_def cfg_eq_def)

section \<open>The members of a configuration file\<close>

text \<open>
  The entries a configuration node has: the node itself under its prefix, and the entries of its
  members, in the order of the text; a prefix with a bad character has none.
\<close>

abbreviation child :: "string \<Rightarrow> Node \<Rightarrow> string" where
  "child prefix first \<equiv> (if prefix = [] then Node_Scalar first else prefix @ ''.'' @ Node_Scalar first)"

fun members :: "string \<Rightarrow> Node \<Rightarrow> (string \<times> Node) list"
  and members_loop :: "string \<Rightarrow> (Node \<times> Node) list \<Rightarrow> (string \<times> Node) list" where
  "members prefix node =
     (if has_char_not_of name_chars prefix then []
      else (prefix, node) # (case node of Map kvs \<Rightarrow> members_loop prefix kvs | _ \<Rightarrow> []))"
| "members_loop prefix [] = []"
| "members_loop prefix ((first, second) # kvs) = members (child prefix first) second @ members_loop prefix kvs"

declare members.simps [simp del] members_loop.simps [simp del]

lemma ListAllMember_members:
  shows "log_ok (s :: 'z log_world_scheme) \<Longrightarrow>
      \<exists>t. ListAllMember Y prefix node out s = (Inr (out @ members prefix node), t) \<and> log_frame s t"
    and "log_ok (s :: 'z log_world_scheme) \<Longrightarrow>
      \<exists>t. ListAllMember_loop Y prefix kvs out s = (Inr (out @ members_loop prefix kvs), t) \<and> log_frame s t"
proof (induction Y prefix node out s and Y prefix kvs out s rule: ListAllMember_ListAllMember_loop.induct)
  case (1 Y prefix node out s)
  show ?case
  proof (cases "has_char_not_of name_chars prefix")
    case True
    from log_root_eval [OF "1.prems"] obtain t where
      "log_root ERROR ''sylar/config.cc'' 21 (''Config invalid name: '' @ prefix @ '' : '' @ y_emit Y node) s = (Inr (), t)"
      "log_frame s t" by blast
    with True show ?thesis
      by (subst ListAllMember.simps) (simp add: members.simps bindc_def ret_apply)
  next
    case False
    show ?thesis
    proof (cases "\<exists>kvs. node = Map kvs")
      case True
      then obtain kvs where node: "node = Map kvs" by blast
      from "1.IH" [OF False node "1.prems"] show ?thesis
        using False node by (subst ListAllMember.simps) (auto simp: members.simps)
    qed (use False in \<open>auto simp: ListAllMember.simps members.simps split: Node.splits\<close>)
  qed
next
  case (2 Y prefix out s)
  then show ?case by (simp add: ListAllMember_loop.simps members_loop.simps)
next
  case (3 Y prefix first second kvs out s)
  from "3.IH"(1) [OF "3.prems"] obtain s1 where
    s1: "ListAllMember Y (child prefix first) second out s = (Inr (out @ members (child prefix first) second), s1)"
    and fr: "log_frame s s1" by blast
  from "3.IH"(2) [OF s1 [symmetric]] log_ok_frame [OF fr "3.prems"] s1 fr show ?case
    by (fastforce simp: ListAllMember_loop.simps members_loop.simps intro: log_frame_trans)
qed

text \<open>The same as a relation: the paths of keys into the node along which every prefix is valid.\<close>

inductive member :: "string \<Rightarrow> Node \<Rightarrow> string \<Rightarrow> Node \<Rightarrow> bool" where
  member_here: "\<not> has_char_not_of name_chars p \<Longrightarrow> member p n p n"
| member_below: "\<not> has_char_not_of name_chars p \<Longrightarrow> (k, v) \<in> set kvs \<Longrightarrow> member (child p k) v q m \<Longrightarrow> member p (Map kvs) q m"

lemma members_loop_set: "set (members_loop p kvs) = (\<Union>(k, v) \<in> set kvs. set (members (child p k) v))"
  by (induction kvs) (auto simp: members_loop.simps)

lemma member_iff: "member p n q m \<longleftrightarrow> (q, m) \<in> set (members p n)"
proof
  assume "member p n q m"
  then show "(q, m) \<in> set (members p n)"
  proof induction
    case (member_here p n)
    then show ?case by (simp add: members.simps)
  next
    case (member_below p k v kvs q m)
    then have "(q, m) \<in> set (members_loop p kvs)" by (auto simp: members_loop_set)
    with member_below.hyps(1) show ?case by (simp add: members.simps [of p "Map kvs"])
  qed
next
  have "(q, m) \<in> set (members p n) \<Longrightarrow> member p n q m"
    and "(q, m) \<in> set (members_loop p kvs) \<Longrightarrow> \<exists>(k, v) \<in> set kvs. member (child p k) v q m" for kvs
    by (induction p n and p kvs rule: members_members_loop.induct)
      (auto simp: members.simps members_loop.simps split: if_splits Node.splits intro: member_here member_below)
  then show "(q, m) \<in> set (members p n) \<Longrightarrow> member p n q m" by blast
qed

section \<open>Changing variables\<close>

lemma cfg_eq_refl [simp]: "cfg_eq s s"
  by (simp add: cfg_eq_def)

lemma cfg_eq_trans: "cfg_eq s t \<Longrightarrow> cfg_eq t u \<Longrightarrow> cfg_eq s u"
  by (simp add: cfg_eq_def)

lemma cfg_eq_sym: "cfg_eq s t \<Longrightarrow> cfg_eq t s"
  by (simp add: cfg_eq_def)

lemma cfg_eq_var_at: "cfg_eq s t \<Longrightarrow> var_at s = var_at t"
  by (simp add: fun_eq_iff var_at_def cfg_eq_iff)

lemma log_ok_put_var [simp]: "log_ok (put_var i cv s) = log_ok s"
  by (simp add: put_var_def)

lemma put_var_fields [simp]:
  "c_datas (put_var i cv s) = c_datas s" "c_rd (put_var i cv s) = c_rd s" "c_wr (put_var i cv s) = c_wr s"
  "c_fun_id (put_var i cv s) = c_fun_id s" "c_vars (put_var i cv s) = (c_vars s)[i := cv]"
  by (simp_all add: put_var_def)

lemma var_at_put_var:
  "var_at (put_var i cv s) k = (if k = i \<and> var_at s i \<noteq> None then Some cv else var_at s k)"
  by (auto simp: var_at_def put_var_def)

lemma put_var_same: "var_at s i = Some cv \<Longrightarrow> put_var i cv s = s"
proof -
  assume "var_at s i = Some cv"
  then have "(c_vars s)[i := cv] = c_vars s"
    by (auto simp: var_at_def list_update_same_conv split: if_splits)
  then show ?thesis by (simp add: put_var_def)
qed

lemma var_at_locks [simp]: "var_at (s\<lparr>c_rd := r\<rparr>) = var_at s" "var_at (s\<lparr>c_wr := w\<rparr>) = var_at s"
  by (simp_all add: fun_eq_iff var_at_def)

lemma get_var_Some: "var_at s i = Some cv \<Longrightarrow> get_var i s = (Inr cv, s)"
  by (simp add: get_var_def)

text \<open>
  What the theorems on changing values ask of the functors and the listeners: they touch nothing
  but the logging system, a conversion fails only with an exception derived from
  \<open>std::exception\<close>, a listener returns, and an unordered map keeps its entries when one is added.
  \<open>from\<close> is the conversion from text as a function.
\<close>

definition env_ok :: "'v cfg_env \<Rightarrow> (string \<Rightarrow> string \<Rightarrow> 'v result) \<Rightarrow> bool" where
  "env_ok E from \<longleftrightarrow>
     (\<forall>T v s. log_ok s \<longrightarrow> (\<exists>t. e_from E T v s = (from T v, t) \<and> log_ok t \<and> cfg_eq t s)) \<and>
     (\<forall>T v e. from T v = Inl e \<longrightarrow> (\<exists>x. e = Throw x \<and> x \<noteq> non_std_exception)) \<and>
     (\<forall>cb old new s. log_ok s \<longrightarrow> (\<exists>t. e_call E cb old new s = (Inr (), t) \<and> log_ok t \<and> cfg_eq t s)) \<and>
     (\<forall>T v e. e_to E T v = Inl e \<longrightarrow> (\<exists>x. e = Throw x \<and> x \<noteq> non_std_exception)) \<and>
     (\<forall>p m. mset (e_place E p m) = add_mset p (mset m))"

lemma env_ok_from:
  "env_ok E from \<Longrightarrow> log_ok s \<Longrightarrow> \<exists>t. e_from E T v s = (from T v, t) \<and> log_ok t \<and> cfg_eq t s"
  by (simp add: env_ok_def)

lemma env_ok_throw: "env_ok E from \<Longrightarrow> from T v = Inl e \<Longrightarrow> \<exists>x. e = Throw x \<and> x \<noteq> non_std_exception"
  by (simp add: env_ok_def)

lemma env_ok_call:
  "env_ok E from \<Longrightarrow> log_ok s \<Longrightarrow> \<exists>t. e_call E cb old new s = (Inr (), t) \<and> log_ok t \<and> cfg_eq t s"
  by (simp add: env_ok_def)

lemma env_ok_to: "env_ok E from \<Longrightarrow> e_to E T v = Inl e \<Longrightarrow> \<exists>x. e = Throw x \<and> x \<noteq> non_std_exception"
  unfolding env_ok_def by blast

lemma env_ok_place: "env_ok E from \<Longrightarrow> mset (e_place E p m) = add_mset p (mset m)"
  unfolding env_ok_def by blast

lemma notify_loop:
  assumes "env_ok E from" and "log_ok s" and "var_at s i = Some cv"
  shows "\<exists>t. for_each (\<lambda>(key, cb). bindc (get_var i) (\<lambda>cv'. e_call E cb (cv_val cv') v)) cbs s = (Inr (), t) \<and>
     log_ok t \<and> cfg_eq t s"
proof (rule for_each_Inr [where P = "\<lambda>u. log_ok u \<and> cfg_eq u s"])
  fix p u assume u: "log_ok u \<and> cfg_eq u s"
  then have "var_at u i = Some cv" using assms(3) cfg_eq_var_at [of u s] by simp
  moreover obtain t where "e_call E (snd p) (cv_val cv) v u = (Inr (), t)" "log_ok t" "cfg_eq t u"
    using env_ok_call [OF assms(1), of u "snd p" "cv_val cv" v] u by blast
  ultimately show "\<exists>t. (case p of (key, cb) \<Rightarrow> bindc (get_var i) (\<lambda>cv'. e_call E cb (cv_val cv') v)) u = (Inr (), t) \<and>
      log_ok t \<and> cfg_eq t s"
    using u cfg_eq_trans [of _ u s] by (cases p) (auto simp: bindc_def get_var_Some)
qed (use assms in simp)

lemma setValue_notify_eval:
  assumes "env_ok E from" and "log_ok s" and "var_at s i = Some cv" and "VarMutex i \<notin> c_wr s"
  shows "\<exists>t. setValue_notify E i v s = (Inr (v \<noteq> cv_val cv), t) \<and> log_ok t \<and> cfg_eq t s"
proof -
  let ?s1 = "s\<lparr>c_rd := VarMutex i # c_rd s\<rparr>"
  from notify_loop [OF assms(1), of ?s1 i cv v "cv_cbs cv"] assms(2,3) obtain t where
    "for_each (\<lambda>(key, cb). bindc (get_var i) (\<lambda>cv'. e_call E cb (cv_val cv') v)) (cv_cbs cv) ?s1 = (Inr (), t)"
    "log_ok t" "cfg_eq t ?s1"
    by auto
  then show ?thesis
    using assms
    by (cases "v = cv_val cv")
      (auto simp: setValue_notify_def with_rdlock_def bindc_def get_var_Some ret_apply cfg_eq_iff)
qed

lemma setValue_eval:
  assumes "env_ok E from" and "log_ok s" and "var_at s i = Some cv"
    and "VarMutex i \<notin> c_wr s" and "VarMutex i \<notin> set (c_rd s)"
  shows "\<exists>t. ConfigVar_setValue E i v s = (Inr (), t) \<and> log_ok t \<and> cfg_eq t (put_var i (cv\<lparr>cv_val := v\<rparr>) s)"
proof -
  from setValue_notify_eval [OF assms(1-4), of v] obtain t where
    t: "setValue_notify E i v s = (Inr (v \<noteq> cv_val cv), t)" "log_ok t" "cfg_eq t s" by blast
  then have at: "var_at t i = Some cv" using assms(3) cfg_eq_var_at [of t s] by simp
  show ?thesis
  proof (cases "v = cv_val cv")
    case True
    then have "put_var i (cv\<lparr>cv_val := v\<rparr>) s = s" using put_var_same [OF assms(3)] by simp
    with True t assms(3) show ?thesis by (simp add: ConfigVar_setValue_def bindc_def get_var_Some ret_apply)
  next
    case False
    have "VarMutex i \<notin> c_wr t" "VarMutex i \<notin> set (c_rd t)" using assms(4,5) t(3) by (auto simp: cfg_eq_iff)
    with False t at assms(3) show ?thesis
      by (auto simp: ConfigVar_setValue_def bindc_def get_var_Some with_wrlock_def modify_apply cfg_eq_iff
          insert_absorb2)
  qed
qed

lemma fromString_eval:
  assumes "env_ok E from" and "log_ok s" and "var_at s i = Some cv"
    and "VarMutex i \<notin> c_wr s" and "VarMutex i \<notin> set (c_rd s)"
  shows "\<exists>t. ConfigVar_fromString E i val s = (Inr False, t) \<and> log_ok t \<and>
     cfg_eq t (case from (cv_type cv) val of Inl e \<Rightarrow> s | Inr v \<Rightarrow> put_var i (cv\<lparr>cv_val := v\<rparr>) s)"
proof -
  from env_ok_from [OF assms(1,2)] obtain s1 where
    s1: "e_from E (cv_type cv) val s = (from (cv_type cv) val, s1)" "log_ok s1" "cfg_eq s1 s" by blast
  show ?thesis
  proof (cases "from (cv_type cv) val")
    case (Inl e)
    then obtain x where x: "e = Throw x" "x \<noteq> non_std_exception" using env_ok_throw [OF assms(1)] by blast
    from log_root_eval [OF s1(2)] obtain t where
      "log_root ERROR ''sylar/config.h'' 295
         (''ConfigVar::toString exception'' @ e_what E x @ '' convert string to '' @ cv_type cv) s1 = (Inr (), t)"
      "log_frame s1 t" by blast
    then show ?thesis
      using Inl x s1 assms(3) log_ok_frame [of s1 t] cfg_eq_trans [OF log_frame_cfg_eq s1(3), of t]
      by (simp add: ConfigVar_fromString_def bindc_def get_var_Some catch_std_def ret_apply)
  next
    case (Inr v)
    have "var_at s1 i = Some cv" "VarMutex i \<notin> c_wr s1" "VarMutex i \<notin> set (c_rd s1)"
      using assms(3-5) s1(3) cfg_eq_var_at [OF s1(3)] by (auto simp: cfg_eq_iff)
    from setValue_eval [OF assms(1) s1(2) this, of v] obtain t where
      t: "ConfigVar_setValue E i v s1 = (Inr (), t)" "log_ok t" "cfg_eq t (put_var i (cv\<lparr>cv_val := v\<rparr>) s1)" by blast
    moreover have "cfg_eq (put_var i (cv\<lparr>cv_val := v\<rparr>) s1) (put_var i (cv\<lparr>cv_val := v\<rparr>) s)"
      using s1(3) by (simp add: cfg_eq_iff)
    ultimately show ?thesis
      using Inr s1(1) assms(3) cfg_eq_trans
      by (fastforce simp: ConfigVar_fromString_def bindc_def get_var_Some catch_std_def ret_apply)
  qed
qed

section \<open>Loading a configuration file\<close>

definition wf_cfg :: "'v cfg_world \<Rightarrow> bool" where
  "wf_cfg s \<longleftrightarrow>
     distinct (map fst (c_datas s)) \<and>
     (\<forall>name i. map_of (c_datas s) name = Some i \<longrightarrow>
        \<not> has_char_not_of name_chars name \<and> (\<exists>cv. var_at s i = Some cv \<and> cv_name cv = name \<and> omap_ok (cv_cbs cv)))"

definition cfg_idle :: "'v cfg_world \<Rightarrow> bool" where
  "cfg_idle s \<longleftrightarrow> c_rd s = [] \<and> c_wr s = {}"

lemma wf_cfgD:
  assumes "wf_cfg s" and "map_of (c_datas s) name = Some i"
  obtains cv where "var_at s i = Some cv" and "cv_name cv = name" and "\<not> has_char_not_of name_chars name"
  using assms by (fastforce simp: wf_cfg_def)

lemma wf_cfg_eq: "cfg_eq s t \<Longrightarrow> wf_cfg s \<longleftrightarrow> wf_cfg t"
  using cfg_eq_var_at [of s t] by (simp add: wf_cfg_def cfg_eq_iff)

lemma wf_cfg_inj:
  "wf_cfg s \<Longrightarrow> map_of (c_datas s) a = Some i \<Longrightarrow> map_of (c_datas s) b = Some i \<Longrightarrow> a = b"
  by (metis (no_types) option.inject wf_cfgD)

text \<open>The text of a node that is handed to \<open>fromString\<close>, and the effect of one entry.\<close>

definition node_text :: "yaml_cpp \<Rightarrow> Node \<Rightarrow> string" where
  "node_text Y node = (if Node_IsScalar node then Node_Scalar node else y_emit Y node)"

definition assign ::
    "(string \<Rightarrow> string \<Rightarrow> 'v result) \<Rightarrow> yaml_cpp \<Rightarrow> string \<times> Node \<Rightarrow> 'v cfg_world \<Rightarrow> 'v cfg_world" where
  "assign from Y p s =
     (if fst p = [] then s
      else
        (case map_of (c_datas s) (fst p) of
           None \<Rightarrow> s
         | Some i \<Rightarrow>
             (case var_at s i of
                None \<Rightarrow> s
              | Some cv \<Rightarrow>
                  (case from (cv_type cv) (node_text Y (snd p)) of
                     Inl e \<Rightarrow> s
                   | Inr v \<Rightarrow> put_var i (cv\<lparr>cv_val := v\<rparr>) s))))"

lemma assign_fields:
  "c_datas (assign from Y p s) = c_datas s" "c_rd (assign from Y p s) = c_rd s" "c_wr (assign from Y p s) = c_wr s"
  "c_fun_id (assign from Y p s) = c_fun_id s"
  by (simp_all add: assign_def split: option.splits sum.splits)

lemma assign_cfg_eq: "cfg_eq s t \<Longrightarrow> cfg_eq (assign from Y p s) (assign from Y p t)"
  using cfg_eq_var_at [of s t] by (auto simp: assign_def cfg_eq_iff split: option.splits sum.splits)

lemma assign_var:
  assumes "wf_cfg s" and "map_of (c_datas s) k = Some i" and "var_at s i = Some cv"
  shows "var_at (assign from Y p s) i = Some (cv\<lparr>cv_val :=
     (if fst p = k \<and> k \<noteq> [] then (case from (cv_type cv) (node_text Y (snd p)) of Inl e \<Rightarrow> cv_val cv | Inr v \<Rightarrow> v)
      else cv_val cv)\<rparr>)"
proof -
  show ?thesis
  proof (cases "fst p = k \<and> k \<noteq> []")
    case True
    with assms(2,3) show ?thesis by (simp add: assign_def var_at_put_var split: sum.splits)
  next
    case False
    have "j \<noteq> i" if "map_of (c_datas s) (fst p) = Some j" "fst p \<noteq> []" for j
      using False that wf_cfg_inj [OF assms(1) _ assms(2), of "fst p"] by auto
    then have "var_at (assign from Y p s) i = var_at s i"
      by (auto simp: assign_def var_at_put_var split: option.splits sum.splits)
    then show ?thesis unfolding if_not_P [OF False] using assms(3) by simp
  qed
qed

lemma wf_cfg_assign:
  assumes "wf_cfg s"
  shows "wf_cfg (assign from Y p s)"
  unfolding wf_cfg_def assign_fields
proof (intro conjI allI impI)
  show "distinct (map fst (c_datas s))" using assms by (simp add: wf_cfg_def)
  fix name i assume reg: "map_of (c_datas s) name = Some i"
  then obtain cv where cv: "var_at s i = Some cv" "cv_name cv = name" "\<not> has_char_not_of name_chars name"
    using assms by (elim wf_cfgD)
  then have "omap_ok (cv_cbs cv)" using assms reg by (fastforce simp: wf_cfg_def)
  with assign_var [OF assms reg cv(1), of "from" Y p] cv
  show "\<not> has_char_not_of name_chars name" "\<exists>cv. var_at (assign from Y p s) i = Some cv \<and> cv_name cv = name \<and> omap_ok (cv_cbs cv)"
    by simp_all
qed

lemma tolower_name_chars: "c \<in> set name_chars \<Longrightarrow> c_tolower c = c"
  by (auto simp: name_chars_def c_tolower_def)

lemma tolower_valid: "\<not> has_char_not_of name_chars key \<Longrightarrow> map c_tolower key = key"
  by (auto simp: has_char_not_of_def tolower_name_chars intro!: map_idI)

lemma LookupBase_eval: "cfg_idle s \<Longrightarrow> Config_LookupBase name s = (Inr (map_of (c_datas s) name), s)"
  by (simp add: Config_LookupBase_def with_rdlock_def cfg_idle_def)

lemma LoadFromYaml_entry_eval:
  assumes "env_ok E from" and "log_ok s" and "cfg_idle s" and "wf_cfg s"
    and "\<not> has_char_not_of name_chars (fst p)"
  shows "\<exists>t. LoadFromYaml_entry E p s = (Inr (), t) \<and> log_ok t \<and> cfg_eq t (assign from (e_yaml E) p s)"
proof (cases "fst p = [] \<or> map_of (c_datas s) (fst p) = None")
  case True
  then show ?thesis
    using assms LookupBase_eval [OF assms(3)] tolower_valid [OF assms(5)]
    by (cases p) (auto simp: LoadFromYaml_entry_def assign_def bindc_def ret_apply)
next
  case False
  then obtain i where i: "map_of (c_datas s) (fst p) = Some i" by auto
  then obtain cv where cv: "var_at s i = Some cv" using assms(4) by (elim wf_cfgD)
  let ?text = "node_text (e_yaml E) (snd p)"
  have "VarMutex i \<notin> c_wr s" "VarMutex i \<notin> set (c_rd s)" using assms(3) by (auto simp: cfg_idle_def)
  from fromString_eval [OF assms(1,2) cv this, of ?text] obtain t where
    t: "ConfigVar_fromString E i ?text s = (Inr False, t)" "log_ok t"
      "cfg_eq t (case from (cv_type cv) ?text of Inl e \<Rightarrow> s | Inr v \<Rightarrow> put_var i (cv\<lparr>cv_val := v\<rparr>) s)" by blast
  then show ?thesis
    using False i cv LookupBase_eval [OF assms(3)] tolower_valid [OF assms(5)]
    by (cases p) (auto simp: LoadFromYaml_entry_def assign_def bindc_def ret_apply node_text_def split: sum.splits)
qed

lemma LoadFromYaml_loop:
  assumes "env_ok E from" and "log_ok s" and "cfg_idle s" and "wf_cfg s"
    and "\<forall>p \<in> set ms. \<not> has_char_not_of name_chars (fst p)"
  shows "\<exists>t. for_each (LoadFromYaml_entry E) ms s = (Inr (), t) \<and> log_ok t \<and>
     cfg_eq t (fold (assign from (e_yaml E)) ms s)"
  using assms(2-5)
proof (induction ms arbitrary: s)
  case (Cons p ms)
  let ?a = "assign from (e_yaml E) p s"
  from Cons.prems LoadFromYaml_entry_eval [OF assms(1), of s p] obtain s1 where
    s1: "LoadFromYaml_entry E p s = (Inr (), s1)" "log_ok s1" "cfg_eq s1 ?a" by auto
  have "cfg_idle s1" using s1(3) Cons.prems(2) by (simp add: cfg_idle_def cfg_eq_iff assign_fields)
  moreover have "wf_cfg s1" using wf_cfg_eq [OF s1(3)] wf_cfg_assign [OF Cons.prems(3)] by simp
  ultimately obtain t where t: "for_each (LoadFromYaml_entry E) ms s1 = (Inr (), t)" "log_ok t"
      "cfg_eq t (fold (assign from (e_yaml E)) ms s1)"
    using Cons.IH [of s1] s1(2) Cons.prems(4) by auto
  have "cfg_eq (fold (assign from (e_yaml E)) ms u) (fold (assign from (e_yaml E)) ms u')" if "cfg_eq u u'" for u u'
    using that by (induction ms arbitrary: u u') (auto intro: assign_cfg_eq)
  with t(3) s1(3) have "cfg_eq t (fold (assign from (e_yaml E)) (p # ms) s)" using cfg_eq_trans by fastforce
  with s1(1) t show ?case by simp
qed simp

text \<open>The value a variable ends up with: every entry under its name whose text converts sets it, in order.\<close>

fun loaded_value ::
    "(string \<Rightarrow> string \<Rightarrow> 'v result) \<Rightarrow> yaml_cpp \<Rightarrow> string \<Rightarrow> string \<Rightarrow> (string \<times> Node) list \<Rightarrow> 'v \<Rightarrow> 'v" where
  "loaded_value from Y T k [] v = v"
| "loaded_value from Y T k ((q, n) # ms) v =
     loaded_value from Y T k ms
       (if q = k \<and> k \<noteq> [] then (case from T (node_text Y n) of Inl e \<Rightarrow> v | Inr v' \<Rightarrow> v') else v)"

lemma fold_assign_var:
  assumes "wf_cfg s" and "map_of (c_datas s) k = Some i" and "var_at s i = Some cv"
  shows "var_at (fold (assign from Y) ms s) i = Some (cv\<lparr>cv_val := loaded_value from Y (cv_type cv) k ms (cv_val cv)\<rparr>)"
  using assms
proof (induction ms arbitrary: s cv)
  case (Cons p ms)
  obtain q n where p: "p = (q, n)" by (cases p)
  show ?case
    using Cons.IH [OF wf_cfg_assign [OF Cons.prems(1)] _ assign_var [OF Cons.prems], of "from" Y p]
    by (simp add: assign_fields p Cons.prems(2))
qed simp

lemma fold_assign_fields:
  "c_datas (fold (assign from Y) ms s) = c_datas s" "c_rd (fold (assign from Y) ms s) = c_rd s"
  "c_wr (fold (assign from Y) ms s) = c_wr s" "c_fun_id (fold (assign from Y) ms s) = c_fun_id s"
  by (induction ms arbitrary: s) (simp_all add: assign_fields)

lemma assign_other: "i \<notin> snd ` set (c_datas s) \<Longrightarrow> var_at (assign from Y p s) i = var_at s i"
  by (auto simp: assign_def var_at_put_var dest!: map_of_SomeD split: option.splits sum.splits intro: rev_image_eqI)

lemma fold_assign_other: "i \<notin> snd ` set (c_datas s) \<Longrightarrow> var_at (fold (assign from Y) ms s) i = var_at s i"
  by (induction ms arbitrary: s) (simp_all add: assign_fields assign_other)

lemma members_valid: "(q, n) \<in> set (members p node) \<Longrightarrow> \<not> has_char_not_of name_chars q"
  unfolding member_iff [symmetric] by (induction rule: member.induct)

lemma LoadFromYaml_eval:
  assumes "env_ok E from" and "log_ok s" and "cfg_idle s" and "wf_cfg s"
  shows "\<exists>t. Config_LoadFromYaml E root s = (Inr (), t) \<and> log_ok t \<and>
     cfg_eq t (fold (assign from (e_yaml E)) (members [] root) s)"
proof -
  from ListAllMember_members(1) [OF assms(2), of "e_yaml E" "[]" root "[]"] obtain s1 where
    s1: "ListAllMember (e_yaml E) [] root [] s = (Inr (members [] root), s1)" "log_frame s s1" by auto
  have eq: "cfg_eq s1 s" using s1(2) by (rule log_frame_cfg_eq)
  have "log_ok s1" "cfg_idle s1" "wf_cfg s1"
    using log_ok_frame [OF s1(2) assms(2)] assms(3,4) eq wf_cfg_eq [OF eq] by (simp_all add: cfg_idle_def cfg_eq_iff)
  from LoadFromYaml_loop [OF assms(1) this, of "members [] root"] obtain t where
    t: "for_each (LoadFromYaml_entry E) (members [] root) s1 = (Inr (), t)" "log_ok t"
      "cfg_eq t (fold (assign from (e_yaml E)) (members [] root) s1)"
    using members_valid by fastforce
  have "cfg_eq (fold (assign from (e_yaml E)) ms s1) (fold (assign from (e_yaml E)) ms s)" for ms
    using eq by (induction ms arbitrary: s1 s) (auto intro: assign_cfg_eq)
  with t s1(1) cfg_eq_trans show ?thesis by (fastforce simp: Config_LoadFromYaml_def bindc_def)
qed

lemma for_each_append:
  "for_each f (xs @ ys) s = (case for_each f xs s of (Inl e, s') \<Rightarrow> (Inl e, s') | (Inr _, s') \<Rightarrow> for_each f ys s')"
  by (induction xs arbitrary: s) (auto split: prod.splits sum.splits)

section \<open>Looking up variables\<close>

text \<open>What the console shows for a record of the file on the root logger.\<close>

definition root_shown :: "'z log_world_scheme \<Rightarrow> Level \<Rightarrow> i32 \<Rightarrow> string \<Rightarrow> string" where
  "root_shown s level line txt =
     log_shown s (w_root s) level (LogEvent_getSS_put txt (new_event (w_root s) level ''sylar/config.h'' line s))"

lemma root_shown_frame: "log_frame s t \<Longrightarrow> root_shown t level line txt = root_shown s level line txt"
  using log_shown_frame [of s t] by (simp add: root_shown_def new_event_def log_frame_def)

lemma root_shown_wr: "root_shown (s\<lparr>c_wr := x\<rparr>) level line txt = root_shown s level line txt"
proof -
  have at: "logger_at (s\<lparr>c_wr := x\<rparr>) = logger_at s" "appender_at (s\<lparr>c_wr := x\<rparr>) = appender_at s"
    by (simp_all add: fun_eq_iff logger_at_def appender_at_def)
  have "shown console_text (s\<lparr>c_wr := x\<rparr>) k level ev = shown console_text s k level ev" for k ev
    by (simp add: fun_eq_iff shown_def record_text_def at logger_name_def [abs_def] split: option.splits)
  then have "own_shown (s\<lparr>c_wr := x\<rparr>) k level ev = own_shown s k level ev" for k ev
    by (simp add: own_shown_def at split: option.splits)
  then show ?thesis by (auto simp: root_shown_def log_shown_def new_event_def at split: option.splits)
qed

lemma log_event_shown:
  assumes "log_ok s" and "logger_at s (ev_logger ev) \<noteq> None"
  shows "\<exists>t. LogEventWrap_dtor ev s = (Inr (), t) \<and> w_cout t = w_cout s @ log_shown s (ev_logger ev) (ev_level ev) ev \<and> log_frame s t"
proof -
  have inv: "wf_log s" "w_held s = {}" "dates_ok s" using assms by (auto simp: log_ok_def log_inv_def)
  obtain t where t: "Logger_log (ev_logger ev) (ev_level ev) ev s = (Inr (), t)"
    "w_cout t = w_cout s @ log_shown s (ev_logger ev) (ev_level ev) ev"
    using Logger_log_shown [OF inv(1) assms(2) inv(3) _ inv(2), of ev "ev_level ev"] assms(2) by (auto simp: logger_name_def)
  with frame_Logger_log [of s "ev_logger ev" "ev_level ev" ev] show ?thesis by (simp add: LogEventWrap_dtor_def)
qed

text \<open>The value as text, and what the console shows when it does not convert.\<close>

definition value_text :: "'v cfg_env \<Rightarrow> 'v ConfigVar \<Rightarrow> string" where
  "value_text E cv = (case e_to E (cv_type cv) (cv_val cv) of Inl e \<Rightarrow> [] | Inr r \<Rightarrow> r)"

definition toString_shown :: "'v cfg_env \<Rightarrow> 'v ConfigVar \<Rightarrow> 'v cfg_world \<Rightarrow> string" where
  "toString_shown E cv s =
     (case e_to E (cv_type cv) (cv_val cv) of
        Inl (Throw x) \<Rightarrow> root_shown s ERROR 282 (''ConfigVar::toString exception'' @ e_what E x @ '' convert: '' @ cv_type cv @ '' to string'')
      | _ \<Rightarrow> [])"

lemma toString_eval:
  assumes "env_ok E from" and "log_ok s" and "var_at s i = Some cv" and "VarMutex i \<notin> c_wr s"
  shows "\<exists>t. ConfigVar_toString E i s = (Inr (value_text E cv), t) \<and> w_cout t = w_cout s @ toString_shown E cv s \<and> log_frame s t"
proof (cases "e_to E (cv_type cv) (cv_val cv)")
  case (Inl e)
  then obtain x where x: "e = Throw x" "x \<noteq> non_std_exception" using env_ok_to [OF assms(1)] by blast
  let ?txt = "''ConfigVar::toString exception'' @ e_what E x @ '' convert: '' @ cv_type cv @ '' to string''"
  from log_root_shown [OF assms(2)] obtain t where
    "log_root ERROR ''sylar/config.h'' 282 ?txt s = (Inr (), t)" "w_cout t = w_cout s @ root_shown s ERROR 282 ?txt" "log_frame s t"
    unfolding root_shown_def by blast
  with Inl x assms show ?thesis
    by (simp add: ConfigVar_toString_def bindc_def get_var_Some catch_std_def with_rdlock_def lift_result_apply ret_apply
        value_text_def toString_shown_def)
next
  case (Inr r)
  with assms show ?thesis
    by (simp add: ConfigVar_toString_def bindc_def get_var_Some catch_std_def with_rdlock_def lift_result_apply
        value_text_def toString_shown_def)
qed

text \<open>What the console shows for the lookup of a variable under another type.\<close>

definition mismatch_shown :: "'v cfg_env \<Rightarrow> string \<Rightarrow> string \<Rightarrow> 'v ConfigVar \<Rightarrow> 'v cfg_world \<Rightarrow> string" where
  "mismatch_shown E T name cv s =
     toString_shown E cv s @
     root_shown s ERROR 374
       (''Lookup name='' @ name @ '' exists but type not '' @ T @ '' real_type='' @ cv_type cv @ '' '' @ value_text E cv)"

lemma mismatch_shown_below:
  "logger_at s (w_root s) = Some lg \<Longrightarrow> ERROR < lg_level lg \<Longrightarrow> mismatch_shown E T name cv s = []"
  using log_shown_below [of s "w_root s" lg ERROR]
  by (simp add: mismatch_shown_def toString_shown_def root_shown_def split: sum.split error.split)

lemma log_type_mismatch_eval:
  assumes "env_ok E from" and "log_ok s" and "var_at s i = Some cv" and "VarMutex i \<notin> c_wr s"
  shows "\<exists>t. log_type_mismatch E T name i s = (Inr (), t) \<and> w_cout t = w_cout s @ mismatch_shown E T name cv s \<and> log_frame s t"
proof -
  let ?l = "w_root s"
  obtain lg where lg: "logger_at s ?l = Some lg" using assms(2) by (auto simp: log_ok_def log_inv_def wf_log_def)
  let ?text = "''Lookup name='' @ name @ '' exists but type not '' @ T @ '' real_type='' @ cv_type cv @ '' '' @ value_text E cv"
  let ?ev = "LogEvent_getSS_put ?text (new_event ?l ERROR ''sylar/config.h'' 374 s)"
  from toString_eval [OF assms] obtain s1 where
    s1: "ConfigVar_toString E i s = (Inr (value_text E cv), s1)" "w_cout s1 = w_cout s @ toString_shown E cv s" "log_frame s s1" by blast
  have ev: "ev_logger ?ev = ?l" "ev_level ?ev = ERROR" by (simp_all add: new_event_def LogEvent_new_def LogEvent_getSS_put_def)
  then have "logger_at s1 (ev_logger ?ev) \<noteq> None" using log_frame_logger_at [OF s1(3)] lg by simp
  from log_event_shown [OF log_ok_frame [OF s1(3) assms(2)] this] obtain t where
    t: "LogEventWrap_dtor ?ev s1 = (Inr (), t)" "w_cout t = w_cout s1 @ log_shown s1 ?l ERROR ?ev" "log_frame s1 t"
    unfolding ev by blast
  have "log_frame s t" using s1(3) t(3) by (rule log_frame_trans)
  moreover have "w_cout t = w_cout s @ mismatch_shown E T name cv s"
    using t(2) s1(2) log_shown_frame [OF s1(3)] by (simp add: mismatch_shown_def root_shown_def)
  ultimately show ?thesis
    using t(1) s1(1) lg assms(3) mismatch_shown_below [OF lg, of E T name cv]
    by (auto simp: log_type_mismatch_def bindc_def LoggerManager_getRoot_def Logger_getLevel_def get_logger_def
        ret_apply ConfigVar_getTypeName_def get_var_Some Let_def not_le)
qed

text \<open>The state in which a new variable has been registered under a name.\<close>

definition register :: "'v cfg_env \<Rightarrow> string \<Rightarrow> string \<Rightarrow> 'v \<Rightarrow> string \<Rightarrow> 'v cfg_world \<Rightarrow> 'v cfg_world" where
  "register E T name default_value description s =
     s\<lparr>c_vars := c_vars s @
         [\<lparr>cv_name = name, cv_description = description, cv_type = T, cv_val = default_value, cv_cbs = []\<rparr>],
       c_datas := datas_put (e_place E) name (length (c_vars s)) (c_datas s)\<rparr>"

lemma Lookup_create_valid:
  "\<not> has_char_not_of name_chars name \<Longrightarrow>
     Lookup_create E T name d desc s = (Inr (length (c_vars s)), register E T name d desc s)"
  by (simp add: Lookup_create_def register_def bindc_def ConfigVar_new_def ConfigVarBase_new_def modify_apply ret_apply tolower_valid)

lemma Lookup_create_invalid:
  assumes "has_char_not_of name_chars name" and "log_ok s"
  shows "\<exists>t. Lookup_create E T name d desc s = (Inl (Throw (invalid_argument name)), t) \<and> log_frame s t"
proof -
  from log_root_eval [OF assms(2)] obtain t where
    "log_root ERROR ''sylar/config.h'' 386 (''Lookup name invalid '' @ name) s = (Inr (), t)" "log_frame s t" by blast
  with assms(1) show ?thesis by (simp add: Lookup_create_def bindc_def raise_apply)
qed

lemma with_wrlock_idle:
  assumes "cfg_idle s" and "body (s\<lparr>c_wr := {m}\<rparr>) = (r, t)" and "cfg_eq t ((f s)\<lparr>c_wr := {m}\<rparr>)"
    and "cfg_idle (f s)" and "log_ok t"
  shows "\<exists>t'. with_wrlock m body s = (r, t') \<and> log_ok t' \<and> cfg_eq t' (f s)"
  using assms by (auto simp: with_wrlock_def cfg_idle_def cfg_eq_iff)

lemma register_fields [simp]:
  "cfg_idle (register E T name d desc s) = cfg_idle s"
  "c_fun_id (register E T name d desc s) = c_fun_id s"
  "log_ok (register E T name d desc s) = log_ok s"
  by (simp_all add: register_def cfg_idle_def)

lemma Lookup_fresh:
  assumes "log_ok s" and "cfg_idle s" and "map_of (c_datas s) name = None" and "\<not> has_char_not_of name_chars name"
  shows "\<exists>t. Config_Lookup E T name d desc s = (Inr (length (c_vars s)), t) \<and> log_ok t \<and> cfg_eq t (register E T name d desc s)"
  unfolding Config_Lookup_def
  by (rule with_wrlock_idle [where t = "register E T name d desc (s\<lparr>c_wr := {ConfigMutex}\<rparr>)"])
    (use assms in \<open>simp_all add: Lookup_create_valid cfg_eq_iff, simp_all add: register_def\<close>)

lemma Lookup_invalid:
  assumes "log_ok s" and "cfg_idle s" and "map_of (c_datas s) name = None" and "has_char_not_of name_chars name"
  shows "\<exists>t. Config_Lookup E T name d desc s = (Inl (Throw (invalid_argument name)), t) \<and> log_ok t \<and> cfg_eq t s"
proof -
  let ?s1 = "s\<lparr>c_wr := {ConfigMutex}\<rparr>"
  have ok: "log_ok ?s1" using assms(1) by simp
  from Lookup_create_invalid [OF assms(4) ok] obtain t where
    t: "Lookup_create E T name d desc ?s1 = (Inl (Throw (invalid_argument name)), t)" "log_frame ?s1 t" by blast
  show ?thesis
    unfolding Config_Lookup_def
    using t log_ok_frame [OF t(2) ok] log_frame_cfg_eq [OF t(2)] assms(2,3)
    by (intro with_wrlock_idle [where t = t and f = "\<lambda>s. s"]) simp_all
qed

lemma Lookup_known:
  assumes "log_ok s" and "cfg_idle s" and "map_of (c_datas s) name = Some i" and "var_at s i = Some cv" and "cv_type cv = T"
  shows "\<exists>t. Config_Lookup E T name d desc s = (Inr i, t) \<and> log_ok t \<and> cfg_eq t s"
proof -
  let ?s1 = "s\<lparr>c_wr := {ConfigMutex}\<rparr>"
  have ok: "log_ok ?s1" using assms(1) by simp
  from log_root_eval [OF ok] obtain t where
    t: "log_root INFO ''sylar/config.h'' 370 (''Lookup name='' @ name @ '' exists'') ?s1 = (Inr (), t)" "log_frame ?s1 t" by blast
  show ?thesis
    unfolding Config_Lookup_def
    using t log_ok_frame [OF t(2) ok] log_frame_cfg_eq [OF t(2)] assms(2-5)
    by (intro with_wrlock_idle [where t = t and f = "\<lambda>s. s"]) (simp_all add: bindc_def get_var_Some ret_apply)
qed

lemma Lookup_mismatch:
  assumes "env_ok E from" and "log_ok s" and "cfg_idle s" and "map_of (c_datas s) name = Some i"
    and "var_at s i = Some cv" and "cv_type cv \<noteq> T" and "\<not> has_char_not_of name_chars name"
  shows "\<exists>t. Config_Lookup E T name d desc s = (Inr (length (c_vars s)), t) \<and> log_ok t \<and> cfg_eq t (register E T name d desc s) \<and>
     w_cout t = w_cout s @ mismatch_shown E T name cv s"
proof -
  let ?s1 = "s\<lparr>c_wr := {ConfigMutex}\<rparr>"
  have ok: "log_ok ?s1" using assms(2) by simp
  from log_type_mismatch_eval [OF assms(1) ok, of i cv T name] assms(5) obtain t where
    t: "log_type_mismatch E T name i ?s1 = (Inr (), t)" "log_frame ?s1 t" "w_cout t = w_cout s @ mismatch_shown E T name cv ?s1" by auto
  have shown: "mismatch_shown E T name cv ?s1 = mismatch_shown E T name cv s"
    by (simp add: mismatch_shown_def toString_shown_def root_shown_wr split: sum.split error.split)
  note eq = log_frame_cfg_eq [OF t(2)]
  have "cfg_eq (register E T name d desc t) ((register E T name d desc s)\<lparr>c_wr := {ConfigMutex}\<rparr>)"
    "length (c_vars t) = length (c_vars s)"
    using eq by (simp_all add: cfg_eq_iff register_def)
  then show ?thesis
    unfolding Config_Lookup_def
    using t(1,3) shown log_ok_frame [OF t(2) ok] assms(3-7)
    by (auto simp: with_wrlock_def cfg_idle_def cfg_eq_iff bindc_def get_var_Some Lookup_create_valid)
      (simp_all add: register_def)
qed

section \<open>The registry\<close>

lemma map_of_mset:
  "distinct (map fst a) \<Longrightarrow> mset a = mset b \<Longrightarrow> map_of a = map_of b"
  by (metis map_of_inject_set mset_eq_setD mset_map mset_eq_imp_distinct_iff)

lemma map_of_overwrite:
  "map_of (map (\<lambda>p. if fst p = name then (name, i) else p) m) x =
     (if x = name \<and> map_of m name \<noteq> None then Some i else map_of m x)"
  by (induction m) auto

lemma datas_put_facts:
  assumes "\<And>p m. mset (place p m) = add_mset p (mset m)" and "distinct (map fst m)"
  shows "distinct (map fst (datas_put place name i m))"
    and "map_of (datas_put place name i m) = (map_of m)(name \<mapsto> i)"
proof -
  let ?old = "map (\<lambda>p. if fst p = name then (name, i) else p) m"
  have keys: "map fst ?old = map fst m" by (simp add: o_def if_distrib cong: if_cong map_cong)
  have old: "map_of ?old = (map_of m)(name \<mapsto> i)" if "name \<in> fst ` set m"
  proof -
    have "map_of m name \<noteq> None" using that by (simp only: map_of_eq_None_iff not_not)
    then show ?thesis by (intro ext) (simp only: map_of_overwrite fun_upd_apply simp_thms)
  qed
  have new: "mset (place (name, i) m) = mset ((name, i) # m)" using assms(1) by simp
  then have "mset (map fst (place (name, i) m)) = mset (map fst ((name, i) # m))" by (simp only: mset_map)
  then have dist: "distinct (map fst (place (name, i) m))" if "name \<notin> fst ` set m"
    using that assms(2) by (metis (mono_tags) distinct.simps(2) list.map(2) list.set_map mset_eq_imp_distinct_iff fst_conv)
  show "distinct (map fst (datas_put place name i m))"
    using keys dist assms(2) by (simp add: datas_put_def del: map_map)
  show "map_of (datas_put place name i m) = (map_of m)(name \<mapsto> i)"
    using old map_of_mset [OF dist new] by (auto simp: datas_put_def)
qed

lemma var_at_register:
  "var_at (register E T name d desc s) i =
     (if i = length (c_vars s)
      then Some \<lparr>cv_name = name, cv_description = desc, cv_type = T, cv_val = d, cv_cbs = []\<rparr> else var_at s i)"
  by (simp add: var_at_def register_def nth_append)

lemma map_of_register:
  "env_ok E from \<Longrightarrow> wf_cfg s \<Longrightarrow>
     map_of (c_datas (register E T name d desc s)) = (map_of (c_datas s))(name \<mapsto> length (c_vars s))"
  by (simp add: register_def wf_cfg_def datas_put_facts(2) [of "e_place E"] env_ok_place)

lemma wf_cfg_register:
  assumes "env_ok E from" and "wf_cfg s" and "\<not> has_char_not_of name_chars name"
  shows "wf_cfg (register E T name d desc s)"
  unfolding wf_cfg_def map_of_register [OF assms(1,2)]
proof (intro conjI allI impI)
  show "distinct (map fst (c_datas (register E T name d desc s)))"
    using assms(1,2) by (simp add: register_def wf_cfg_def datas_put_facts(1) [of "e_place E"] env_ok_place)
  fix k i assume k: "((map_of (c_datas s))(name \<mapsto> length (c_vars s))) k = Some i"
  show "\<not> has_char_not_of name_chars k"
    using k assms(2,3) by (auto simp: wf_cfg_def split: if_splits)
  show "\<exists>cv. var_at (register E T name d desc s) i = Some cv \<and> cv_name cv = k \<and> omap_ok (cv_cbs cv)"
  proof (cases "k = name")
    case False
    with k assms(2) obtain cv where "var_at s i = Some cv" "cv_name cv = k" "omap_ok (cv_cbs cv)"
      by (fastforce simp: wf_cfg_def)
    moreover from this have "i \<noteq> length (c_vars s)" by (auto simp: var_at_def)
    ultimately show ?thesis by (simp add: var_at_register)
  qed (use k in \<open>simp add: var_at_register\<close>)
qed

lemma var_at_fun_id [simp]: "var_at (s\<lparr>c_fun_id := f\<rparr>) = var_at s"
  by (simp add: fun_eq_iff var_at_def)

lemma wf_cfg_put_var:
  assumes "wf_cfg s" and "var_at s i = Some cv" and "cv_name cv' = cv_name cv" and "omap_ok (cv_cbs cv) \<Longrightarrow> omap_ok (cv_cbs cv')"
  shows "wf_cfg (put_var i cv' s)"
  using assms unfolding wf_cfg_def by (fastforce simp: var_at_put_var)

section \<open>Listeners\<close>

lemma addListener_eval:
  assumes "cfg_idle s" and "var_at s i = Some cv"
  shows "ConfigVar_addListener i cb s =
     (Inr (c_fun_id s (cv_type cv) + 1),
      put_var i (cv\<lparr>cv_cbs := omap_put (c_fun_id s (cv_type cv) + 1) cb (cv_cbs cv)\<rparr>)
        (s\<lparr>c_fun_id := (c_fun_id s)(cv_type cv := c_fun_id s (cv_type cv) + 1)\<rparr>))"
  using assms
  by (simp add: ConfigVar_addListener_def bindc_def get_var_Some with_wrlock_def cfg_idle_def Let_def put_var_def)

lemma delListener_eval:
  assumes "cfg_idle s" and "var_at s i = Some cv"
  shows "ConfigVar_delListener i key s = (Inr (), put_var i (cv\<lparr>cv_cbs := omap_erase key (cv_cbs cv)\<rparr>) s)"
  using assms
  by (simp add: ConfigVar_delListener_def bindc_def get_var_Some with_wrlock_def cfg_idle_def modify_apply put_var_def)

lemma getListener_eval:
  assumes "cfg_idle s" and "var_at s i = Some cv"
  shows "ConfigVar_getListener i key s = (Inr (map_of (cv_cbs cv) key), s)"
  using assms
  by (simp add: ConfigVar_getListener_def bindc_def get_var_Some with_rdlock_def cfg_idle_def ret_apply)

lemma clearListener_eval:
  assumes "cfg_idle s" and "var_at s i = Some cv"
  shows "ConfigVar_clearListener i s = (Inr (), put_var i (cv\<lparr>cv_cbs := []\<rparr>) s)"
  using assms
  by (simp add: ConfigVar_clearListener_def bindc_def get_var_Some with_wrlock_def cfg_idle_def modify_apply put_var_def)

lemma getValue_eval:
  assumes "cfg_idle s" and "var_at s i = Some cv"
  shows "ConfigVar_getValue i s = (Inr (cv_val cv), s)"
  using assms
  by (simp add: ConfigVar_getValue_def bindc_def get_var_Some with_rdlock_def cfg_idle_def ret_apply)

section \<open>All calls on the configuration\<close>

definition cfg_inv :: "'v cfg_world \<Rightarrow> bool" where
  "cfg_inv s \<longleftrightarrow> log_ok s \<and> wf_cfg s \<and> cfg_idle s"

lemma cfg_inv_eq: "cfg_eq t s \<Longrightarrow> log_ok t \<Longrightarrow> wf_cfg s \<Longrightarrow> cfg_idle s \<Longrightarrow> cfg_inv t"
  using wf_cfg_eq [of t s] by (simp add: cfg_inv_def cfg_idle_def cfg_eq_iff)

lemma cfg_idle_put_var [simp]: "cfg_idle (put_var i cv s) = cfg_idle s"
  by (simp add: cfg_idle_def)

text \<open>
  A program calls the operations in any order; between the calls the logging system moves on by
  itself, keeping the configuration.
\<close>

inductive cfg_step :: "'v cfg_env \<Rightarrow> 'v cfg_world \<Rightarrow> 'v cfg_world \<Rightarrow> bool" for E where
  cfg_Lookup: "cfg_step E s (snd (Config_Lookup E T name d desc s))"
| cfg_setValue: "cfg_step E s (snd (ConfigVar_setValue E i v s))"
| cfg_fromString: "cfg_step E s (snd (ConfigVar_fromString E i val s))"
| cfg_toString: "cfg_step E s (snd (ConfigVar_toString E i s))"
| cfg_addListener: "cfg_step E s (snd (ConfigVar_addListener i cb s))"
| cfg_delListener: "cfg_step E s (snd (ConfigVar_delListener i key s))"
| cfg_clearListener: "cfg_step E s (snd (ConfigVar_clearListener i s))"
| cfg_LoadFromYaml: "cfg_step E s (snd (Config_LoadFromYaml E root s))"
| cfg_logging: "log_ok t \<Longrightarrow> cfg_eq t s \<Longrightarrow> cfg_step E s t"

text \<open>At the start there is no variable.\<close>

definition cfg_init :: "'v cfg_world \<Rightarrow> bool" where
  "cfg_init s \<longleftrightarrow> log_ok s \<and> c_vars s = [] \<and> c_datas s = [] \<and> c_rd s = [] \<and> c_wr s = {}"

lemma cfg_inv_null:
  assumes "cfg_inv s" and "var_at s i = None"
  shows "cfg_inv (snd (ConfigVar_setValue E i v s))" "cfg_inv (snd (ConfigVar_fromString E i val s))"
    "cfg_inv (snd (ConfigVar_toString E i s))" "cfg_inv (snd (ConfigVar_addListener i cb s))"
    "cfg_inv (snd (ConfigVar_delListener i key s))" "cfg_inv (snd (ConfigVar_clearListener i s))"
  using assms
  by (simp_all add: ConfigVar_setValue_def ConfigVar_fromString_def ConfigVar_toString_def ConfigVar_addListener_def
      ConfigVar_delListener_def ConfigVar_clearListener_def bindc_def get_var_def)

lemma cfg_inv_var_ops:
  assumes env: "env_ok E from" and inv: "cfg_inv s" and cv: "var_at s i = Some cv"
  shows "cfg_inv (snd (ConfigVar_setValue E i v s))" "cfg_inv (snd (ConfigVar_fromString E i val s))"
    "cfg_inv (snd (ConfigVar_toString E i s))" "cfg_inv (snd (ConfigVar_addListener i cb s))"
    "cfg_inv (snd (ConfigVar_delListener i key s))" "cfg_inv (snd (ConfigVar_clearListener i s))"
proof -
  have ok: "log_ok s" "wf_cfg s" "cfg_idle s" using inv by (auto simp: cfg_inv_def)
  then have free: "VarMutex i \<notin> c_wr s" "VarMutex i \<notin> set (c_rd s)" by (auto simp: cfg_idle_def)
  have put: "wf_cfg (put_var i (cv\<lparr>cv_val := v\<rparr>) s)" for v using ok(2) cv by (rule wf_cfg_put_var) simp_all
  show "cfg_inv (snd (ConfigVar_setValue E i v s))"
    using setValue_eval [OF env ok(1) cv free, of v] put ok cfg_inv_eq by fastforce
  show "cfg_inv (snd (ConfigVar_fromString E i val s))"
    using fromString_eval [OF env ok(1) cv free, of val] put ok
      cfg_inv_eq [of _ "case from (cv_type cv) val of Inl e \<Rightarrow> s | Inr v \<Rightarrow> put_var i (cv\<lparr>cv_val := v\<rparr>) s"]
    by (fastforce split: sum.splits)
  show "cfg_inv (snd (ConfigVar_toString E i s))"
    using toString_eval [OF env ok(1) cv free(1)] ok log_ok_frame [OF _ ok(1)] log_frame_cfg_eq cfg_inv_eq [OF _ _ ok(2,3)]
    by fastforce
  have "wf_cfg (s\<lparr>c_fun_id := f\<rparr>)" "cfg_idle (s\<lparr>c_fun_id := f\<rparr>)" "var_at (s\<lparr>c_fun_id := f\<rparr>) i = Some cv" for f
    using ok cv by (simp_all add: wf_cfg_def cfg_idle_def)
  then show "cfg_inv (snd (ConfigVar_addListener i cb s))"
    using ok cv by (auto simp: addListener_eval [OF ok(3) cv] cfg_inv_def intro!: wf_cfg_put_var om.ok_put)
  show "cfg_inv (snd (ConfigVar_delListener i key s))" "cfg_inv (snd (ConfigVar_clearListener i s))"
    using ok cv
    by (auto simp: delListener_eval clearListener_eval cfg_inv_def intro!: wf_cfg_put_var [OF ok(2) cv] om.ok_erase)
qed

lemma cfg_inv_Lookup:
  assumes env: "env_ok E from" and inv: "cfg_inv s"
  shows "cfg_inv (snd (Config_Lookup E T name d desc s))"
proof -
  have ok: "log_ok s" "cfg_idle s" "wf_cfg s" using inv by (auto simp: cfg_inv_def)
  note new = cfg_inv_eq [OF _ _ wf_cfg_register [OF env ok(3)]]
  show ?thesis
  proof (cases "map_of (c_datas s) name")
    case None
    then show ?thesis
      using Lookup_fresh [OF ok(1,2) None, of E T d desc] Lookup_invalid [OF ok(1,2) None, of E T d desc]
        new cfg_inv_eq [OF _ _ ok(3,2)] ok(2) by fastforce
  next
    case (Some i)
    with ok(3) obtain cv where cv: "var_at s i = Some cv" "\<not> has_char_not_of name_chars name" by (elim wf_cfgD)
    show ?thesis
    proof (cases "cv_type cv = T")
      case True
      from Lookup_known [OF ok(1,2) Some cv(1) True, of E d desc] cfg_inv_eq [OF _ _ ok(3,2)] show ?thesis by fastforce
    next
      case False
      from Lookup_mismatch [OF env ok(1,2) Some cv(1) False cv(2), of d desc] new [OF _ _ cv(2)] ok(2) show ?thesis by fastforce
    qed
  qed
qed

lemma wf_cfg_fold_assign: "wf_cfg s \<Longrightarrow> wf_cfg (fold (assign from Y) ms s)"
  by (induction ms arbitrary: s) (simp_all add: wf_cfg_assign)

lemma cfg_inv_LoadFromYaml:
  assumes "env_ok E from" and "cfg_inv s"
  shows "cfg_inv (snd (Config_LoadFromYaml E root s))"
proof -
  have ok: "log_ok s" "cfg_idle s" "wf_cfg s" using assms(2) by (auto simp: cfg_inv_def)
  let ?t = "fold (assign from (e_yaml E)) (members [] root) s"
  have "wf_cfg ?t" "cfg_idle ?t" using ok by (simp_all add: wf_cfg_fold_assign cfg_idle_def fold_assign_fields)
  with LoadFromYaml_eval [OF assms(1) ok, of root] cfg_inv_eq show ?thesis by fastforce
qed

lemma cfg_step_inv: "cfg_step E s t \<Longrightarrow> env_ok E from \<Longrightarrow> cfg_inv s \<Longrightarrow> cfg_inv t"
proof (induction rule: cfg_step.induct)
  case (cfg_logging t s)
  then show ?case using cfg_inv_eq [of t s] by (simp add: cfg_inv_def)
qed (metis cfg_inv_null cfg_inv_var_ops cfg_inv_Lookup cfg_inv_LoadFromYaml option.exhaust)+

text \<open>The functors and listeners may be others at every call, as long as they behave.\<close>

definition any_cfg_step :: "'v cfg_world \<Rightarrow> 'v cfg_world \<Rightarrow> bool" where
  "any_cfg_step s t \<longleftrightarrow> (\<exists>E from. env_ok E from \<and> cfg_step E s t)"

interpretation configuration: transition_system cfg_init any_cfg_step cfg_inv
proof
  show "cfg_init s \<Longrightarrow> cfg_inv s" for s :: "'v cfg_world"
    by (simp add: cfg_init_def cfg_inv_def wf_cfg_def cfg_idle_def)
  show "any_cfg_step s t \<Longrightarrow> cfg_inv s \<Longrightarrow> cfg_inv t" for s t :: "'v cfg_world"
    by (auto simp: any_cfg_step_def intro: cfg_step_inv)
qed

section \<open>The order of notification and assignment\<close>

text \<open>Listeners that keep the configuration, also when they fail.\<close>

definition calls_keep :: "'v cfg_env \<Rightarrow> bool" where
  "calls_keep E \<longleftrightarrow> (\<forall>cb old new s. cfg_eq (snd (e_call E cb old new s)) s)"

lemma notify_loop_calls:
  assumes "calls_keep E" and "var_at s i = Some cv"
  shows "for_each (\<lambda>(key, cb). bindc (get_var i) (\<lambda>cv'. e_call E cb (cv_val cv') v)) cbs s =
     for_each (\<lambda>(key, cb). e_call E cb (cv_val cv) v) cbs s"
  using assms(2)
proof (induction cbs arbitrary: s)
  case (Cons p cbs)
  obtain key cb where p: "p = (key, cb)" by (cases p)
  obtain r s1 where c: "e_call E cb (cv_val cv) v s = (r, s1)" by fastforce
  then have "cfg_eq s1 s" using assms(1) by (metis calls_keep_def snd_conv)
  then have "var_at s1 i = Some cv" using Cons.prems cfg_eq_var_at by metis
  with Cons.IH [OF this] Cons.prems p c show ?case by (cases r) (simp_all add: bindc_def get_var_Some)
qed simp

lemma calls_keep_loop:
  assumes "calls_keep E"
  shows "cfg_eq (snd (for_each (\<lambda>(key, cb). e_call E cb old new) cbs s)) s"
  by (rule for_each_inv [where P = "\<lambda>u. cfg_eq u s"])
    (use assms cfg_eq_trans in \<open>fastforce simp: calls_keep_def\<close>)+

lemma setValue_calls:
  assumes "cfg_idle s" and "var_at s i = Some cv" and "calls_keep E"
    and "for_each (\<lambda>(key, cb). e_call E cb (cv_val cv) v) (cv_cbs cv) (s\<lparr>c_rd := [VarMutex i]\<rparr>) = (r, t)"
  shows "ConfigVar_setValue E i v s =
     (if v = cv_val cv then (Inr (), s)
      else
        (case r of
           Inl e \<Rightarrow> (Inl e, t\<lparr>c_rd := []\<rparr>)
         | Inr _ \<Rightarrow> (Inr (), put_var i (cv\<lparr>cv_val := v\<rparr>) (t\<lparr>c_rd := []\<rparr>))))"
proof -
  let ?s1 = "s\<lparr>c_rd := [VarMutex i]\<rparr>"
  have "cfg_eq t ?s1" using calls_keep_loop [OF assms(3)] assms(4) by (metis snd_conv)
  then have t: "c_rd t = [VarMutex i]" "c_wr t = {}" "var_at t i = Some cv"
    using assms(1,2) cfg_eq_var_at [of t ?s1] by (simp_all add: cfg_eq_iff cfg_idle_def)
  have loop: "for_each (\<lambda>(key, cb). bindc (get_var i) (\<lambda>cv'. e_call E cb (cv_val cv') v)) (cv_cbs cv) ?s1 = (r, t)"
    using trans [OF notify_loop_calls [OF assms(3)] assms(4)] assms(2) by simp
  show ?thesis
    using assms(1,2) loop t
    by (cases r)
      (auto simp: ConfigVar_setValue_def setValue_notify_def bindc_def get_var_Some with_rdlock_def with_wrlock_def
        cfg_idle_def ret_apply modify_apply put_var_def)
qed

end
