(* ===== verification/YamlInstance.thy ===== *)
theory YamlInstance
  imports Yaml
begin

text \<open>
  A small printer and parser of nodes that satisfies the laws of \<open>yaml_laws\<close>: the laws the proofs
  assume of yaml-cpp can be met. It is used at concrete inputs only.
\<close>

fun show_count :: "nat \<Rightarrow> string" where
  "show_count 0 = ''.''"
| "show_count (Suc n) = CHR ''i'' # show_count n"

fun read_count :: "string \<Rightarrow> (nat \<times> string) option" where
  "read_count [] = None"
| "read_count (c # cs) =
     (if c = CHR ''i'' then map_option (\<lambda>(n, r). (Suc n, r)) (read_count cs)
      else if c = CHR ''.'' then Some (0, cs) else None)"

lemma read_show_count [simp]: "read_count (show_count n @ r) = Some (n, r)"
  by (induction n) auto

fun show_node :: "Node \<Rightarrow> string" where
  "show_node Null = ''n''"
| "show_node (Scalar s) = CHR ''s'' # show_count (length s) @ s"
| "show_node (Sequence ns) = CHR ''q'' # show_count (length ns) @ concat (map show_node ns)"
| "show_node (Map kvs) = CHR ''m'' # show_count (length kvs) @ concat (map (\<lambda>(k, v). show_node k @ show_node v) kvs)"

text \<open>\<open>read_many\<close> reads a given number of nodes with the reader it is given.\<close>

fun read_many :: "(string \<Rightarrow> (Node \<times> string) option) \<Rightarrow> nat \<Rightarrow> string \<Rightarrow> (Node list \<times> string) option" where
  "read_many f 0 s = Some ([], s)"
| "read_many f (Suc n) s =
     (case f s of
        None \<Rightarrow> None
      | Some (x, r) \<Rightarrow> map_option (\<lambda>(xs, r'). (x # xs, r')) (read_many f n r))"

fun pair_up :: "'a list \<Rightarrow> ('a \<times> 'a) list" where
  "pair_up (a # b # xs) = (a, b) # pair_up xs"
| "pair_up _ = []"

fun read_node :: "nat \<Rightarrow> string \<Rightarrow> (Node \<times> string) option" where
  "read_node 0 s = None"
| "read_node (Suc fuel) [] = None"
| "read_node (Suc fuel) (c # cs) =
     (if c = CHR ''n'' then Some (Null, cs)
      else
        (case read_count cs of
           None \<Rightarrow> None
         | Some (n, r) \<Rightarrow>
             if c = CHR ''s'' then Some (Scalar (take n r), drop n r)
             else if c = CHR ''q'' then map_option (\<lambda>(xs, r'). (Sequence xs, r')) (read_many (read_node fuel) n r)
             else if c = CHR ''m'' then
               map_option (\<lambda>(xs, r'). (Map (pair_up xs), r')) (read_many (read_node fuel) (n + n) r)
             else None))"

definition parse_node :: "string \<Rightarrow> Node result" where
  "parse_node s =
     (case read_node (length s) s of
        Some (n, []) \<Rightarrow> Inr n
      | _ \<Rightarrow> Inl (Throw (yaml_exception ''parse'')))"

fun node_depth :: "Node \<Rightarrow> nat" where
  "node_depth Null = 1"
| "node_depth (Scalar s) = 1"
| "node_depth (Sequence ns) = Suc (sum_list (map node_depth ns))"
| "node_depth (Map kvs) = Suc (sum_list (map (\<lambda>(k, v). node_depth k + node_depth v) kvs))"

lemma read_many_shown:
  "(\<And>x r. x \<in> set xs \<Longrightarrow> f (g x @ r) = Some (x, r)) \<Longrightarrow>
     read_many f (length xs) (concat (map g xs) @ r) = Some (xs, r)"
  by (induction xs arbitrary: r) auto

definition flat :: "(Node \<times> Node) list \<Rightarrow> Node list" where
  "flat kvs = concat (map (\<lambda>(k, v). [k, v]) kvs)"

lemma flat_facts:
  "pair_up (flat kvs) = kvs" "length (flat kvs) = length kvs + length kvs"
  "concat (map (\<lambda>(k, v). show_node k @ show_node v) kvs) = concat (map show_node (flat kvs))"
  "sum_list (map (\<lambda>(k, v). node_depth k + node_depth v) kvs) = sum_list (map node_depth (flat kvs))"
  "x \<in> set (flat kvs) \<longleftrightarrow> (\<exists>(k, v) \<in> set kvs. x = k \<or> x = v)"
  by (induction kvs) (auto simp: flat_def)

lemma read_node_many:
  assumes "\<And>x fuel r. x \<in> set xs \<Longrightarrow> node_depth x \<le> fuel \<Longrightarrow> read_node fuel (show_node x @ r) = Some (x, r)"
    and "sum_list (map node_depth xs) \<le> fuel"
  shows "read_many (read_node fuel) (length xs) (concat (map show_node xs) @ r) = Some (xs, r)"
proof (rule read_many_shown)
  fix x r assume x: "x \<in> set xs"
  then have "node_depth x \<le> sum_list (map node_depth xs)" by (simp add: member_le_sum_list)
  with assms x show "read_node fuel (show_node x @ r) = Some (x, r)" by simp
qed

lemma read_show_node: "node_depth n \<le> fuel \<Longrightarrow> read_node fuel (show_node n @ r) = Some (n, r)"
proof (induction n arbitrary: fuel r)
  case Null
  then show ?case by (cases fuel) auto
next
  case (Scalar s)
  then show ?case by (cases fuel) auto
next
  case (Sequence ns)
  then obtain f where f: "fuel = Suc f" "sum_list (map node_depth ns) \<le> f" by (cases fuel) auto
  from read_node_many [of ns, OF Sequence.IH f(2)] f show ?case by simp
next
  case (Map kvs)
  then obtain f where f: "fuel = Suc f" "sum_list (map node_depth (flat kvs)) \<le> f"
    by (cases fuel) (auto simp: flat_facts)
  have "read_node fuel (show_node x @ r) = Some (x, r)" if "x \<in> set (flat kvs)" "node_depth x \<le> fuel" for x fuel r
    using that Map.IH by (auto simp: flat_facts Basic_BNFs.fsts.simps Basic_BNFs.snds.simps)
  from read_node_many [of "flat kvs", OF this f(2)] f show ?case by (simp add: flat_facts)
qed

lemma node_depth_le: "node_depth n \<le> length (show_node n)"
proof (induction n)
  case (Sequence ns)
  then have "sum_list (map node_depth ns) \<le> sum_list (map (\<lambda>x. length (show_node x)) ns)"
    by (intro sum_list_mono) auto
  then show ?case by (simp add: length_concat o_def)
next
  case (Map kvs)
  then have "sum_list (map node_depth (flat kvs)) \<le> sum_list (map (\<lambda>x. length (show_node x)) (flat kvs))"
    by (intro sum_list_mono) (auto simp: flat_facts Basic_BNFs.fsts.simps Basic_BNFs.snds.simps)
  then show ?case by (simp add: flat_facts length_concat o_def)
qed auto

lemma parse_show_node: "parse_node (show_node n) = Inr n"
  using read_show_node [OF node_depth_le, of n "[]"] by (simp add: parse_node_def)

definition small_yaml :: yaml_cpp where
  "small_yaml =
     \<lparr>y_load = parse_node, y_emit = show_node,
      y_as_string = (\<lambda>n. case n of Scalar s \<Rightarrow> Inr s | _ \<Rightarrow> Inl (Throw (yaml_exception ''bad conversion''))),
      y_index = (\<lambda>n i. case n of Sequence ns \<Rightarrow> if i < length ns then Inr (ns ! i) else Inl (Throw (yaml_exception ''invalid node''))
                        | _ \<Rightarrow> Inl (Throw (yaml_exception ''invalid node''))),
      y_get = (\<lambda>n k. case n of Map kvs \<Rightarrow> Inr (map_of kvs (Scalar k)) | Null \<Rightarrow> Inr None
                        | _ \<Rightarrow> Inl (Throw (yaml_exception ''bad subscript''))),
      y_pairs = (\<lambda>n. case n of Map kvs \<Rightarrow> Inr kvs | Sequence ns \<Rightarrow> Inl (Throw (yaml_exception ''invalid node'')) | _ \<Rightarrow> Inr [])\<rparr>"

lemma small_yaml_laws: "yaml_laws small_yaml"
  by (simp add: yaml_laws_def small_yaml_def parse_show_node)

end
