(* ===== verification/ConfigProperties.thy ===== *)
theory ConfigProperties
  imports ConfigOps YamlInstance LogProperties
begin

text \<open>
  The properties of the configuration system and of the container conversions.
\<close>

section \<open>Concrete instances\<close>

text \<open>Variables that hold texts, read and written as they are, with one text that cannot be read.\<close>

definition text_from :: "string \<Rightarrow> string \<Rightarrow> string result" where
  "text_from T v = (if v = ''bad'' then Inl (Throw bad_lexical_cast) else Inr v)"

definition text_env :: "string cfg_env" where
  "text_env =
     \<lparr>e_from = (\<lambda>T v s. (text_from T v, s)), e_to = (\<lambda>T v. Inr v), e_call = (\<lambda>cb old new s. (Inr (), s)),
      e_what = (\<lambda>e. ''error''), e_place = (\<lambda>p m. m @ [p]), e_yaml = small_yaml\<rparr>"

lemma text_env_ok: "env_ok text_env text_from"
  by (auto simp: env_ok_def text_env_def text_from_def)

definition blank_cfg :: "string cfg_world" where
  "blank_cfg =
     \<lparr>w_loggers = [], w_appenders = [], w_m_loggers = [], w_root = 0, w_held = {}, w_cout = [],
      w_fs = \<lparr>fs_dir = Map.empty, fs_data = [], fs_writable = (\<lambda>_. True)\<rparr>, w_clock = 1000,
      w_strftime = (\<lambda>f t. Some ''now''), w_tid = 7, w_fid = 0, w_tname = ''main'',
      c_vars = [], c_datas = [], c_fun_id = (\<lambda>_. 0), c_rd = [], c_wr = {}\<rparr>"

definition start_cfg :: "string cfg_world" where
  "start_cfg = snd (LoggerManager_new blank_cfg)"

lemma start_cfg_init: "cfg_init start_cfg"
proof -
  have "log_init start_cfg"
    unfolding log_init_def start_cfg_def
    by (rule exI [of _ blank_cfg]) (simp add: LoggerManager_new_eval blank_cfg_def)
  moreover have "dates_ok start_cfg"
    by (simp add: start_cfg_def LoggerManager_new_eval blank_cfg_def dates_ok_def)
  ultimately show ?thesis
    using inv_log_init [of start_cfg]
    by (simp add: cfg_init_def log_ok_def) (simp add: start_cfg_def LoggerManager_new_eval blank_cfg_def)
qed

lemma start_cfg_reachable: "reachable cfg_init any_cfg_step start_cfg"
  using start_cfg_init by (rule reach_init)

lemma start_cfg_fun_id: "c_fun_id start_cfg = (\<lambda>_. 0)"
  by (simp add: start_cfg_def LoggerManager_new_eval blank_cfg_def)

text \<open>Two variables have been looked up.\<close>

definition two_cfg :: "string cfg_world" where
  "two_cfg = snd (Config_Lookup text_env ''string'' ''system.ip'' ''0'' ''ip''
     (snd (Config_Lookup text_env ''string'' ''system.port'' ''80'' ''port'' start_cfg)))"

lemma two_cfg_reachable: "reachable cfg_init any_cfg_step two_cfg"
proof -
  have "any_cfg_step s (snd (Config_Lookup text_env T name d desc s))" for s T name d desc
    using text_env_ok unfolding any_cfg_step_def by (blast intro: cfg_Lookup)
  then show ?thesis
    unfolding two_cfg_def using start_cfg_reachable by (blast intro: reach_step)
qed

lemma two_cfg_inv: "log_ok two_cfg" "wf_cfg two_cfg" "cfg_idle two_cfg"
  using configuration.reach_inv [OF two_cfg_reachable] by (simp_all add: cfg_inv_def)

lemma two_cfg_vars:
  "c_datas two_cfg = [(''system.port'', 0), (''system.ip'', 1)]"
  "var_at two_cfg 0 = Some \<lparr>cv_name = ''system.port'', cv_description = ''port'', cv_type = ''string'', cv_val = ''80'', cv_cbs = []\<rparr>"
  "var_at two_cfg 1 = Some \<lparr>cv_name = ''system.ip'', cv_description = ''ip'', cv_type = ''string'', cv_val = ''0'', cv_cbs = []\<rparr>"
  "c_fun_id two_cfg = (\<lambda>_. 0)"
proof -
  have ok: "log_ok start_cfg" "cfg_idle start_cfg" "c_datas start_cfg = []" "c_vars start_cfg = []"
    using start_cfg_init by (auto simp: cfg_init_def cfg_idle_def)
  have valid: "\<not> has_char_not_of name_chars ''system.port''" "\<not> has_char_not_of name_chars ''system.ip''"
    by (simp_all add: has_char_not_of_def name_chars_def)
  let ?s1 = "snd (Config_Lookup text_env ''string'' ''system.port'' ''80'' ''port'' start_cfg)"
  have s1: "log_ok ?s1" "cfg_eq ?s1 (register text_env ''string'' ''system.port'' ''80'' ''port'' start_cfg)"
    using Lookup_fresh [OF ok(1,2) _ valid(1), of text_env "''string''" "''80''" "''port''"] ok(3) by auto
  then have "cfg_idle ?s1" "map_of (c_datas ?s1) ''system.ip'' = None"
    using ok by (simp_all add: cfg_eq_iff register_def datas_put_def text_env_def cfg_idle_def)
  then have s2: "cfg_eq two_cfg (register text_env ''string'' ''system.ip'' ''0'' ''ip'' ?s1)"
    unfolding two_cfg_def
    using Lookup_fresh [OF s1(1) _ _ valid(2), of text_env "''string''" "''0''" "''ip''"] by auto
  then show "c_datas two_cfg = [(''system.port'', 0), (''system.ip'', 1)]"
    "var_at two_cfg 0 = Some \<lparr>cv_name = ''system.port'', cv_description = ''port'', cv_type = ''string'', cv_val = ''80'', cv_cbs = []\<rparr>"
    "var_at two_cfg 1 = Some \<lparr>cv_name = ''system.ip'', cv_description = ''ip'', cv_type = ''string'', cv_val = ''0'', cv_cbs = []\<rparr>"
    "c_fun_id two_cfg = (\<lambda>_. 0)"
    using s1(2) ok start_cfg_fun_id by (simp_all add: cfg_eq_iff register_def datas_put_def text_env_def var_at_def)
qed

section \<open>Properties of the configuration\<close>

text \<open>C13: in every state a program can reach by calls on the configuration, the registry has every name once,
  files each variable under its own valid name, keeps the listeners of a variable in the order
  of their identifiers, and no lock is left held.\<close>

theorem config_invariant:
  "reachable cfg_init any_cfg_step s \<Longrightarrow> wf_cfg s \<and> cfg_idle s \<and> log_ok s"
  using configuration.reach_inv [of s] by (simp add: cfg_inv_def)

theorem config_invariant_witness: "wf_cfg two_cfg \<and> cfg_idle two_cfg \<and> log_ok two_cfg"
  using config_invariant [OF two_cfg_reachable] .

text \<open>C2: provided every listener returns and leaves the configuration as it is, and conversions fail with nothing but exceptions
  derived from \<open>std::exception\<close> (\<open>env_ok\<close>), loading a configuration file from a reachable state returns, gives every registered variable
  the value of the last entry of the file under its name whose text converts, leaves a variable
  alone when there is none, and changes neither the registry nor variables that are not registered.\<close>

theorem LoadFromYaml_assigns:
  assumes "reachable cfg_init any_cfg_step s" and "env_ok E from"
  shows "\<exists>t. Config_LoadFromYaml E root s = (Inr (), t) \<and> c_datas t = c_datas s \<and>
     (\<forall>i. var_at t i =
        map_option (\<lambda>cv. if i \<in> snd ` set (c_datas s)
            then cv\<lparr>cv_val := loaded_value from (e_yaml E) (cv_type cv) (cv_name cv) (members [] root) (cv_val cv)\<rparr> else cv)
          (var_at s i))"
proof -
  have ok: "log_ok s" "cfg_idle s" "wf_cfg s" using configuration.reach_inv [OF assms(1)] by (auto simp: cfg_inv_def)
  from LoadFromYaml_eval [OF assms(2) ok, of root] obtain t where
    t: "Config_LoadFromYaml E root s = (Inr (), t)" "cfg_eq t (fold (assign from (e_yaml E)) (members [] root) s)" by blast
  have "var_at t i = map_option (\<lambda>cv. if i \<in> snd ` set (c_datas s)
            then cv\<lparr>cv_val := loaded_value from (e_yaml E) (cv_type cv) (cv_name cv) (members [] root) (cv_val cv)\<rparr> else cv)
          (var_at s i)" for i
  proof (cases "i \<in> snd ` set (c_datas s)")
    case True
    then obtain k where "(k, i) \<in> set (c_datas s)" by auto
    then have k: "map_of (c_datas s) k = Some i" using ok(3) by (simp add: wf_cfg_def)
    with ok(3) obtain cv where cv: "var_at s i = Some cv" "cv_name cv = k" by (elim wf_cfgD)
    from fold_assign_var [OF ok(3) k cv(1)] True cv cfg_eq_var_at [OF t(2)] show ?thesis by simp
  next
    case False
    then show ?thesis
      using fold_assign_other [OF False, of "from" "e_yaml E" "members [] root"] cfg_eq_var_at [OF t(2)]
      by (cases "var_at s i") simp_all
  qed
  moreover have "c_datas t = c_datas s" using t(2) by (simp add: cfg_eq_iff fold_assign_fields)
  ultimately show ?thesis using t(1) by blast
qed

definition demo_file :: Node where
  "demo_file = Map [(Scalar ''system'', Map [(Scalar ''port'', Scalar ''8080''), (Scalar ''ip'', Scalar ''bad''), (Scalar ''Foo'', Scalar ''1'')])]"

theorem LoadFromYaml_assigns_witness:
  "\<exists>t. Config_LoadFromYaml text_env demo_file two_cfg = (Inr (), t) \<and>
     map_option cv_val (var_at t 0) = Some ''8080'' \<and> map_option cv_val (var_at t 1) = Some ''0''"
proof -
  have m: "members [] demo_file = [([], demo_file),
      (''system'', Map [(Scalar ''port'', Scalar ''8080''), (Scalar ''ip'', Scalar ''bad''), (Scalar ''Foo'', Scalar ''1'')]),
      (''system.port'', Scalar ''8080''), (''system.ip'', Scalar ''bad'')]"
    by (simp add: demo_file_def members.simps members_loop.simps has_char_not_of_def name_chars_def)
  from LoadFromYaml_assigns [OF two_cfg_reachable text_env_ok, of demo_file] obtain t where
    t: "Config_LoadFromYaml text_env demo_file two_cfg = (Inr (), t)"
    and at: "\<And>i. var_at t i = map_option (\<lambda>cv. if i \<in> snd ` set (c_datas two_cfg)
            then cv\<lparr>cv_val := loaded_value text_from (e_yaml text_env) (cv_type cv) (cv_name cv) (members [] demo_file) (cv_val cv)\<rparr> else cv)
          (var_at two_cfg i)" by blast
  have "map_option cv_val (var_at t 0) = Some ''8080''" "map_option cv_val (var_at t 1) = Some ''0''"
    unfolding at two_cfg_vars by (simp_all add: m node_text_def text_from_def)
  with t show ?thesis by blast
qed

text \<open>C29: the entries of a configuration file that are looked at are exactly those reached by a path of keys
  along which every dotted prefix consists of lower-case letters, digits, dots and underscores; a bad name
  hides what is below it and is only logged.\<close>

theorem ListAllMember_exact:
  assumes "log_ok s"
  shows "\<exists>ms t. ListAllMember Y prefix node [] s = (Inr ms, t) \<and> log_frame s t \<and>
     (\<forall>q n. (q, n) \<in> set ms \<longleftrightarrow> member prefix node q n)"
  using ListAllMember_members(1) [OF assms, of Y prefix node "[]"] by (auto simp: member_iff)

theorem ListAllMember_exact_witness:
  "\<exists>ms t. ListAllMember small_yaml [] demo_file [] two_cfg = (Inr ms, t) \<and>
     (\<forall>q n. (q, n) \<in> set ms \<longleftrightarrow> member [] demo_file q n)"
  using ListAllMember_exact [OF two_cfg_inv(1), of small_yaml "[]" demo_file] by blast

text \<open>\<open>Lookup\<close> with a valid new name creates a variable of the default value that later lookups
  of the same type return, whatever default they give, with its value kept.\<close>

theorem Lookup_creates_once:
  assumes "reachable cfg_init any_cfg_step s" and "env_ok E from"
    and "map_of (c_datas s) name = None" and "\<not> has_char_not_of name_chars name"
  shows "\<exists>i t u. Config_Lookup E T name d desc s = (Inr i, t) \<and> ConfigVar_getValue i t = (Inr d, t) \<and>
     Config_LookupBase name t = (Inr (Some i), t) \<and>
     Config_Lookup E T name d' desc' t = (Inr i, u) \<and> cfg_eq u t \<and>
     (\<forall>other. other \<noteq> name \<longrightarrow> map_of (c_datas t) other = map_of (c_datas s) other)"
proof -
  have ok: "log_ok s" "cfg_idle s" "wf_cfg s" using configuration.reach_inv [OF assms(1)] by (auto simp: cfg_inv_def)
  let ?i = "length (c_vars s)"
  let ?cv = "\<lparr>cv_name = name, cv_description = desc, cv_type = T, cv_val = d, cv_cbs = []\<rparr>"
  from Lookup_fresh [OF ok(1,2) assms(3,4), of E T d desc] obtain t where
    t: "Config_Lookup E T name d desc s = (Inr ?i, t)" "log_ok t" "cfg_eq t (register E T name d desc s)" by blast
  have idle: "cfg_idle t" using t(3) ok(2) register_fields(1) [of E T name d desc s] by (simp add: cfg_idle_def cfg_eq_iff)
  have map: "map_of (c_datas t) = (map_of (c_datas s))(name \<mapsto> ?i)"
    using t(3) map_of_register [OF assms(2) ok(3)] by (simp add: cfg_eq_iff)
  have at: "var_at t ?i = Some ?cv" using cfg_eq_var_at [OF t(3)] by (simp add: var_at_register)
  have found: "map_of (c_datas t) name = Some ?i" using map by simp
  from Lookup_known [OF t(2) idle found at, of T E d' desc'] obtain u where
    u: "Config_Lookup E T name d' desc' t = (Inr ?i, u)" "cfg_eq u t" by auto
  with t(1) map getValue_eval [OF idle at] LookupBase_eval [OF idle, of name] show ?thesis by auto
qed

theorem Lookup_creates_once_witness:
  "\<exists>i t. Config_Lookup text_env ''string'' ''a.b'' ''x'' [] two_cfg = (Inr i, t) \<and> ConfigVar_getValue i t = (Inr ''x'', t)"
proof -
  have "map_of (c_datas two_cfg) ''a.b'' = None" "\<not> has_char_not_of name_chars ''a.b''"
    by (simp_all add: two_cfg_vars has_char_not_of_def name_chars_def)
  from Lookup_creates_once [OF two_cfg_reachable text_env_ok this] show ?thesis by blast
qed

text \<open>\<open>Lookup\<close> with a name that has a bad character and is not registered throws \<open>invalid_argument\<close> with
  the name and leaves the configuration as it was.\<close>

theorem Lookup_rejects_name:
  assumes "reachable cfg_init any_cfg_step s" and "has_char_not_of name_chars name"
  shows "\<exists>t. Config_Lookup E T name d desc s = (Inl (Throw (invalid_argument name)), t) \<and> cfg_eq t s"
proof -
  have ok: "log_ok s" "cfg_idle s" "wf_cfg s" using configuration.reach_inv [OF assms(1)] by (auto simp: cfg_inv_def)
  have "map_of (c_datas s) name = None"
    using ok(3) assms(2) by (cases "map_of (c_datas s) name") (auto elim: wf_cfgD)
  from Lookup_invalid [OF ok(1,2) this assms(2)] show ?thesis by blast
qed

theorem Lookup_rejects_name_witness:
  "\<exists>t. Config_Lookup text_env ''string'' ''Bad Name'' [] [] two_cfg = (Inl (Throw (invalid_argument ''Bad Name'')), t) \<and> cfg_eq t two_cfg"
  by (rule Lookup_rejects_name [OF two_cfg_reachable]) (simp add: has_char_not_of_def name_chars_def)




text \<open>C28: \<open>setValue\<close> does nothing for the value the variable has; otherwise it first calls the
  listeners in the order of their identifiers with the old and the new value while the variable still
  has the old one, and stores the new value afterwards; a listener that fails ends the call with the value unchanged.\<close>

theorem setValue_notifies_then_stores:
  assumes "cfg_idle s" and "var_at s i = Some cv" and "calls_keep E"
    and "for_each (\<lambda>(key, cb). e_call E cb (cv_val cv) v) (cv_cbs cv) (s\<lparr>c_rd := [VarMutex i]\<rparr>) = (r, t)"
  shows "ConfigVar_setValue E i v s =
     (if v = cv_val cv then (Inr (), s)
      else
        (case r of
           Inl e \<Rightarrow> (Inl e, t\<lparr>c_rd := []\<rparr>)
         | Inr _ \<Rightarrow> (Inr (), put_var i (cv\<lparr>cv_val := v\<rparr>) (t\<lparr>c_rd := []\<rparr>))))"
  using setValue_calls [OF assms] .

text \<open>Listeners that write the change to the console, on a variable that has two of them.\<close>

definition echo_env :: "string cfg_env" where
  "echo_env = text_env\<lparr>e_call := (\<lambda>cb old new s. (Inr (), s\<lparr>w_cout := w_cout s @ show_nat cb @ '':'' @ old @ ''>'' @ new @ '' ''\<rparr>))\<rparr>"

lemma echo_env_keeps: "calls_keep echo_env"
  by (simp add: calls_keep_def echo_env_def cfg_eq_iff)

definition heard_cfg :: "string cfg_world" where
  "heard_cfg = snd (ConfigVar_addListener 0 6 (snd (ConfigVar_addListener 0 5 two_cfg)))"

definition heard_var :: "string ConfigVar" where
  "heard_var = \<lparr>cv_name = ''system.port'', cv_description = ''port'', cv_type = ''string'', cv_val = ''80'',
     cv_cbs = [(1, 5), (2, 6)]\<rparr>"

lemma heard_cfg_at: "cfg_idle heard_cfg" "var_at heard_cfg 0 = Some heard_var"
proof -
  let ?s1 = "snd (ConfigVar_addListener 0 5 two_cfg)"
  have s1: "cfg_idle ?s1" "c_fun_id ?s1 ''string'' = 1"
    "var_at ?s1 0 = Some \<lparr>cv_name = ''system.port'', cv_description = ''port'', cv_type = ''string'', cv_val = ''80'', cv_cbs = [(1, 5)]\<rparr>"
    unfolding addListener_eval [OF two_cfg_inv(3) two_cfg_vars(2)]
    using two_cfg_inv(3) two_cfg_vars by (simp_all add: cfg_idle_def var_at_put_var)
  show "cfg_idle heard_cfg" "var_at heard_cfg 0 = Some heard_var"
    unfolding heard_cfg_def addListener_eval [OF s1(1,3)]
    using s1 by (simp_all add: cfg_idle_def var_at_put_var heard_var_def)
qed

theorem setValue_notifies_then_stores_witness:
  "\<exists>t. ConfigVar_setValue echo_env 0 ''81'' heard_cfg = (Inr (), t) \<and>
     w_cout t = w_cout heard_cfg @ ''5:80>81 6:80>81 '' \<and> var_at t 0 = Some (heard_var\<lparr>cv_val := ''81''\<rparr>)"
proof -
  obtain r t where loop: "for_each (\<lambda>(key, cb). e_call echo_env cb (cv_val heard_var) ''81'') (cv_cbs heard_var)
      (heard_cfg\<lparr>c_rd := [VarMutex 0]\<rparr>) = (r, t)" by fastforce
  have "r = Inr ()" "w_cout t = w_cout heard_cfg @ ''5:80>81 6:80>81 ''" "c_vars t = c_vars heard_cfg"
    using loop by (auto simp: heard_var_def echo_env_def show_nat.simps digit_chars)
  moreover have "ConfigVar_setValue echo_env 0 ''81'' heard_cfg =
     (if ''81'' = cv_val heard_var then (Inr (), heard_cfg)
      else (case r of Inl e \<Rightarrow> (Inl e, t\<lparr>c_rd := []\<rparr>)
         | Inr _ \<Rightarrow> (Inr (), put_var 0 (heard_var\<lparr>cv_val := ''81''\<rparr>) (t\<lparr>c_rd := []\<rparr>))))"
    by (rule setValue_notifies_then_stores [OF heard_cfg_at echo_env_keeps loop])
  ultimately show ?thesis
    using heard_cfg_at(2) by (auto simp: heard_var_def put_var_def var_at_def split: if_splits)
qed

text \<open>\<open>fromString\<close> returns false always. A text that converts becomes the value; a text that
  does not is logged and leaves the configuration as it was.\<close>

theorem fromString_returns_false:
  assumes "reachable cfg_init any_cfg_step s" and "env_ok E from" and "var_at s i = Some cv"
  shows "\<exists>t. ConfigVar_fromString E i val s = (Inr False, t) \<and>
     ConfigVar_getValue i t = (Inr (case from (cv_type cv) val of Inl e \<Rightarrow> cv_val cv | Inr v \<Rightarrow> v), t) \<and>
     (\<forall>j. j \<noteq> i \<longrightarrow> var_at t j = var_at s j)"
proof -
  have ok: "log_ok s" "cfg_idle s" using configuration.reach_inv [OF assms(1)] by (auto simp: cfg_inv_def)
  then have free: "VarMutex i \<notin> c_wr s" "VarMutex i \<notin> set (c_rd s)" by (auto simp: cfg_idle_def)
  let ?s' = "case from (cv_type cv) val of Inl e \<Rightarrow> s | Inr v \<Rightarrow> put_var i (cv\<lparr>cv_val := v\<rparr>) s"
  from fromString_eval [OF assms(2) ok(1) assms(3) free, of val] obtain t where
    t: "ConfigVar_fromString E i val s = (Inr False, t)" "cfg_eq t ?s'" by blast
  have "cfg_idle t" using t(2) ok(2) by (auto simp: cfg_idle_def cfg_eq_iff split: sum.splits)
  moreover have "var_at t i = Some (cv\<lparr>cv_val := (case from (cv_type cv) val of Inl e \<Rightarrow> cv_val cv | Inr v \<Rightarrow> v)\<rparr>)"
    "\<forall>j. j \<noteq> i \<longrightarrow> var_at t j = var_at s j"
    using cfg_eq_var_at [OF t(2)] assms(3) by (simp_all add: var_at_put_var split: sum.splits)
  ultimately show ?thesis using t(1) getValue_eval [of t i] by fastforce
qed

theorem fromString_returns_false_witness:
  "\<exists>t. ConfigVar_fromString text_env 0 ''443'' two_cfg = (Inr False, t) \<and> ConfigVar_getValue 0 t = (Inr ''443'', t)"
  using fromString_returns_false [OF two_cfg_reachable text_env_ok two_cfg_vars(2), of "''443''"]
  by (auto simp: text_from_def)

text \<open>A listener is found under the identifier \<open>addListener\<close> returned, which no earlier listener of the
  variable has while the counter has not wrapped around; deleting it gives back the listeners there were.\<close>

theorem listener_lifecycle:
  assumes "reachable cfg_init any_cfg_step s" and "var_at s i = Some cv"
    and "\<forall>key \<in> fst ` set (cv_cbs cv). key \<le> c_fun_id s (cv_type cv)" and "c_fun_id s (cv_type cv) \<noteq> -1"
  shows "\<exists>key t u. ConfigVar_addListener i cb s = (Inr key, t) \<and> map_of (cv_cbs cv) key = None \<and>
     ConfigVar_getListener i key t = (Inr (Some cb), t) \<and>
     (\<forall>old. old \<noteq> key \<longrightarrow> ConfigVar_getListener i old t = (Inr (map_of (cv_cbs cv) old), t)) \<and>
     ConfigVar_delListener i key t = (Inr (), u) \<and>
     (\<forall>k. ConfigVar_getListener i k u = (Inr (map_of (cv_cbs cv) k), u))"
proof -
  have idle: "cfg_idle s" using configuration.reach_inv [OF assms(1)] by (simp add: cfg_inv_def)
  let ?key = "c_fun_id s (cv_type cv) + 1"
  let ?cv = "cv\<lparr>cv_cbs := omap_put ?key cb (cv_cbs cv)\<rparr>"
  let ?t = "put_var i ?cv (s\<lparr>c_fun_id := (c_fun_id s)(cv_type cv := ?key)\<rparr>)"
  have "c_fun_id s (cv_type cv) < ?key" using assms(4) by (rule u64_less_Suc)
  then have new: "map_of (cv_cbs cv) ?key = None" using assms(3) by (fastforce simp: map_of_eq_None_iff)
  have t: "cfg_idle ?t" "var_at ?t i = Some ?cv" using idle assms(2) by (simp_all add: cfg_idle_def var_at_put_var)
  let ?u = "put_var i (?cv\<lparr>cv_cbs := omap_erase ?key (cv_cbs ?cv)\<rparr>) ?t"
  have u: "cfg_idle ?u" "var_at ?u i = Some (?cv\<lparr>cv_cbs := omap_erase ?key (cv_cbs ?cv)\<rparr>)"
    using t by (simp_all add: var_at_put_var)
  show ?thesis
    using addListener_eval [OF idle assms(2), of cb] new getListener_eval [OF t] delListener_eval [OF t, of ?key]
      getListener_eval [OF u] om.erase_put [OF new, of cb]
    by (intro exI [of _ ?key] exI [of _ ?t] exI [of _ ?u]) simp
qed

theorem listener_lifecycle_witness:
  "\<exists>key t u. ConfigVar_addListener 0 9 two_cfg = (Inr key, t) \<and> ConfigVar_getListener 0 key t = (Inr (Some 9), t) \<and>
     ConfigVar_delListener 0 key t = (Inr (), u) \<and> ConfigVar_getListener 0 key u = (Inr None, u)"
proof -
  obtain cv where cv: "var_at two_cfg 0 = Some cv" "cv_cbs cv = []" by (simp add: two_cfg_vars(2))
  then have "\<forall>key \<in> fst ` set (cv_cbs cv). key \<le> c_fun_id two_cfg (cv_type cv)" "c_fun_id two_cfg (cv_type cv) \<noteq> -1"
    by (simp_all add: two_cfg_vars(4))
  from listener_lifecycle [OF two_cfg_reachable cv(1) this, of 9] cv(2) show ?thesis by auto
qed

section \<open>Conversions of containers\<close>

text \<open>C35: when the elements convert to text and back, so do vectors, lists, sets and maps of them, in a form
  that can again be an element: the conversions nest.\<close>

theorem container_casts_roundtrip:
  assumes "yaml_laws Y" and "\<forall>x \<in> set xs \<union> set ys \<union> snd ` set m. cast_ok Y cast print x"
    and "sorted_wrt (<) ys" and "omap_ok m"
  shows "cast_ok Y (vector_from_string Y cast) (vector_to_string Y print) xs \<and>
     cast_ok Y (list_from_string Y cast) (list_to_string Y print) xs \<and>
     cast_ok Y (set_from_string Y cast) (set_to_string Y print) ys \<and>
     cast_ok Y (map_from_string Y cast) (map_to_string Y print) m"
proof -
  have elems: "\<forall>x \<in> set xs. cast_ok Y cast print x" "\<forall>x \<in> set ys. cast_ok Y cast print x"
    "\<forall>p \<in> set m. cast_ok Y cast print (snd p)"
    using assms(2) by auto
  have fold: "fold (\<lambda>x xs. xs @ [x]) xs [] = xs" "fold oset_insert ys [] = ys"
    "fold (\<lambda>(k, x). omap_insert k x) m [] = m"
    using assms(3,4) by (simp_all add: fold_append_id fold_oset_insert_id fold_omap_insert_id)
  have [simp]: "vector_to_string Y print = seq_to_string Y print" "list_to_string Y print = seq_to_string Y print"
    "set_to_string Y print = seq_to_string Y print" "map_to_string Y print = pairs_to_string Y print"
    by (simp_all add: fun_eq_iff vector_to_string_def list_to_string_def set_to_string_def map_to_string_def)
  show ?thesis
    using seq_cast_ok [OF assms(1) elems(1) fold(1)] seq_cast_ok [OF assms(1) elems(2) fold(2)]
      pairs_cast_ok [OF assms(1) elems(3) omap_ok_distinct [OF assms(4)] fold(3)]
    by (simp add: vector_from_string_def list_from_string_def set_from_string_def map_from_string_def)
qed

text \<open>Texts as elements: a text is printed as the text of a scalar.\<close>

definition scalar_to :: "string \<Rightarrow> string result" where
  "scalar_to x = Inr (show_node (Scalar x))"

definition scalar_from :: "string \<Rightarrow> string result" where
  "scalar_from v = rbind (parse_node v) (\<lambda>n. Inr (Node_Scalar n))"

lemma scalar_cast_ok: "cast_ok small_yaml scalar_from scalar_to x"
  using parse_show_node [of "Scalar x"] by (simp add: cast_ok_def scalar_from_def scalar_to_def small_yaml_def)

theorem container_casts_roundtrip_witness:
  "cast_ok small_yaml (vector_from_string small_yaml (vector_from_string small_yaml scalar_from))
     (vector_to_string small_yaml (vector_to_string small_yaml scalar_to)) [[''b'', ''a''], [''c'']]"
proof -
  have "cast_ok small_yaml (vector_from_string small_yaml scalar_from) (vector_to_string small_yaml scalar_to) xs" for xs
    using container_casts_roundtrip [of small_yaml xs "[]" "[]" scalar_from scalar_to]
    by (simp add: small_yaml_laws scalar_cast_ok)
  with container_casts_roundtrip [of small_yaml "[[''b'', ''a''], [''c'']]" "[]" "[]" "vector_from_string small_yaml scalar_from"
      "vector_to_string small_yaml scalar_to"] show ?thesis
    by (simp add: small_yaml_laws)
qed

text \<open>An unordered set or map is read back with the same elements, in whatever order the
  implementation iterates them.\<close>

theorem unordered_casts_roundtrip:
  assumes "yaml_laws Y" and "\<forall>x \<in> set xs. cast_ok Y cast print x" and "\<forall>p \<in> set m. cast_ok Y cast print (snd p)"
    and "distinct xs" and "distinct (map fst m)"
    and "\<forall>x xs. mset (place x xs) = add_mset x (mset xs)" and "\<forall>p m. mset (place' p m) = add_mset p (mset m)"
  shows "(\<exists>s ys. unordered_set_to_string Y print xs = Inr s \<and> unordered_set_from_string Y place cast s = Inr ys \<and> mset ys = mset xs) \<and>
     (\<exists>s m'. unordered_map_to_string Y print m = Inr s \<and> unordered_map_from_string Y place' cast s = Inr m' \<and> map_of m' = map_of m)"
proof
  show "\<exists>s ys. unordered_set_to_string Y print xs = Inr s \<and> unordered_set_from_string Y place cast s = Inr ys \<and> mset ys = mset xs"
    using seq_to_string_eval [OF assms(2)] seq_from_string_eval [OF assms(1,2), of "uset_insert place" "[]"]
      fold_uset_insert [of place "[]" xs] assms(4,6)
    by (simp add: unordered_set_to_string_def unordered_set_from_string_def)
  have "mset (fold (\<lambda>(k, x). umap_insert place' k x) m []) = mset m"
    using fold_umap_insert [of place' "[]" m] assms(5,7) by simp
  then have "map_of (fold (\<lambda>(k, x). umap_insert place' k x) m []) = map_of m"
    using map_of_mset [OF assms(5)] by metis
  then show "\<exists>s m'. unordered_map_to_string Y print m = Inr s \<and> unordered_map_from_string Y place' cast s = Inr m' \<and> map_of m' = map_of m"
    using pairs_to_string_eval [OF assms(3,5)] pairs_from_string_eval [OF assms(1,3), of "umap_insert place'" "[]"]
    by (simp add: unordered_map_to_string_def unordered_map_from_string_def)
qed

theorem unordered_casts_roundtrip_witness:
  "\<exists>s ys. unordered_set_to_string small_yaml scalar_to [''b'', ''a''] = Inr s \<and>
     unordered_set_from_string small_yaml (\<lambda>x xs. x # xs) scalar_from s = Inr ys \<and> mset ys = {#''a'', ''b''#}"
  using unordered_casts_roundtrip [of small_yaml "[''b'', ''a'']" scalar_from scalar_to "[]" "\<lambda>x xs. x # xs" "\<lambda>x xs. x # xs"]
  by (auto simp: small_yaml_laws scalar_cast_ok)

end
