(* ===== verification/ConfigTyping.thy ===== *)
theory ConfigTyping
  imports ConfigProperties
begin

text \<open>
  Type soundness of the registry of \<open>src/sylar/config.h\<close>. The registry stores pointers to the untyped base class, and
  \<open>Lookup\<close> recovers the type with \<open>dynamic_pointer_cast\<close>. Here a program is only allowed the calls that compile: it
  has handles (pointers to \<open>ConfigVar\<close> of some \<open>T\<close>) it got from \<open>Lookup\<close>, and gives a handle for \<open>T\<close> only values of \<open>T\<close>.
\<close>

section \<open>Programs that compile\<close>

text \<open>\<open>ty T v\<close> says that \<open>v\<close> is a value of the type named \<open>T\<close>. A handle is an object and the type of the pointer to it.\<close>

type_synonym handle = "addr \<times> string"

text \<open>\<open>FromStr\<close> for \<open>T\<close> returns values of \<open>T\<close>.\<close>

definition from_typed :: "(string \<Rightarrow> 'v \<Rightarrow> bool) \<Rightarrow> (string \<Rightarrow> string \<Rightarrow> 'v result) \<Rightarrow> bool" where
  "from_typed ty from \<longleftrightarrow> (\<forall>T text v. from T text = Inr v \<longrightarrow> ty T v)"

inductive typed_step ::
    "(string \<Rightarrow> 'v \<Rightarrow> bool) \<Rightarrow> 'v cfg_env \<Rightarrow> 'v cfg_world \<times> handle set \<Rightarrow> 'v cfg_world \<times> handle set \<Rightarrow> bool"
  for ty E where
  typed_Lookup: "ty T d \<Longrightarrow> Config_Lookup E T name d desc s = (Inr i, t) \<Longrightarrow> typed_step ty E (s, hs) (t, insert (i, T) hs)"
| typed_Lookup_throws: "Config_Lookup E T name d desc s = (Inl e, t) \<Longrightarrow> typed_step ty E (s, hs) (t, hs)"
| typed_Lookup_name: "Config_Lookup_name T name s = (Inr (Some i), t) \<Longrightarrow> typed_step ty E (s, hs) (t, insert (i, T) hs)"
| typed_setValue: "(i, T) \<in> hs \<Longrightarrow> ty T v \<Longrightarrow> typed_step ty E (s, hs) (snd (ConfigVar_setValue E i v s), hs)"
| typed_fromString: "(i, T) \<in> hs \<Longrightarrow> typed_step ty E (s, hs) (snd (ConfigVar_fromString E i val s), hs)"
| typed_toString: "(i, T) \<in> hs \<Longrightarrow> typed_step ty E (s, hs) (snd (ConfigVar_toString E i s), hs)"
| typed_addListener: "(i, T) \<in> hs \<Longrightarrow> typed_step ty E (s, hs) (snd (ConfigVar_addListener i cb s), hs)"
| typed_delListener: "(i, T) \<in> hs \<Longrightarrow> typed_step ty E (s, hs) (snd (ConfigVar_delListener i key s), hs)"
| typed_clearListener: "(i, T) \<in> hs \<Longrightarrow> typed_step ty E (s, hs) (snd (ConfigVar_clearListener i s), hs)"
| typed_LoadFromYaml: "typed_step ty E (s, hs) (snd (Config_LoadFromYaml E root s), hs)"
| typed_logging: "log_ok t \<Longrightarrow> cfg_eq t s \<Longrightarrow> typed_step ty E (s, hs) (t, hs)"

definition any_typed_step ::
    "(string \<Rightarrow> 'v \<Rightarrow> bool) \<Rightarrow> 'v cfg_world \<times> handle set \<Rightarrow> 'v cfg_world \<times> handle set \<Rightarrow> bool" where
  "any_typed_step ty s t \<longleftrightarrow> (\<exists>E from. env_ok E from \<and> from_typed ty from \<and> typed_step ty E s t)"

definition typed_init :: "'v cfg_world \<times> handle set \<Rightarrow> bool" where
  "typed_init s \<longleftrightarrow> cfg_init (fst s) \<and> snd s = {}"

section \<open>The invariant\<close>

text \<open>
  What a call keeps: every object still exists with its type, and if all variables held values of their types,
  they still do.
\<close>

definition vars_typed :: "(string \<Rightarrow> 'v \<Rightarrow> bool) \<Rightarrow> 'v cfg_world \<Rightarrow> bool" where
  "vars_typed ty s \<longleftrightarrow> (\<forall>i cv. var_at s i = Some cv \<longrightarrow> ty (cv_type cv) (cv_val cv))"

definition types_kept :: "(string \<Rightarrow> 'v \<Rightarrow> bool) \<Rightarrow> 'v cfg_world \<Rightarrow> 'v cfg_world \<Rightarrow> bool" where
  "types_kept ty s t \<longleftrightarrow>
     (\<forall>i cv. var_at s i = Some cv \<longrightarrow> (\<exists>cv'. var_at t i = Some cv' \<and> cv_type cv' = cv_type cv)) \<and>
     (vars_typed ty s \<longrightarrow> vars_typed ty t)"

named_theorems typing \<open>facts on calls that keep the types\<close>

lemma types_kept_refl [typing]: "types_kept ty s s"
  by (simp add: types_kept_def)

lemma types_kept_trans: "types_kept ty s t \<Longrightarrow> types_kept ty t u \<Longrightarrow> types_kept ty s u"
  unfolding types_kept_def by metis

lemma types_kept_eq: "types_kept ty s t \<Longrightarrow> cfg_eq t' t \<Longrightarrow> types_kept ty s t'"
  using cfg_eq_var_at [of t' t] by (simp add: types_kept_def vars_typed_def)

lemma types_kept_put_var [typing]:
  "var_at s i = Some cv \<Longrightarrow> cv_type cv' = cv_type cv \<Longrightarrow> cv_val cv' = cv_val cv \<or> ty (cv_type cv) (cv_val cv') \<Longrightarrow>
     types_kept ty s (put_var i cv' s)"
  by (auto simp: types_kept_def vars_typed_def var_at_put_var)

lemma types_kept_register [typing]: "ty T d \<Longrightarrow> types_kept ty s (register E T name d desc s)"
  by (auto simp: types_kept_def vars_typed_def var_at_def register_def nth_append split: if_splits)

lemma types_kept_assign: "from_typed ty from \<Longrightarrow> types_kept ty s (assign from Y p s)"
  by (auto simp: assign_def from_typed_def intro!: typing split: option.splits sum.splits)

lemma types_kept_fold_assign: "from_typed ty from \<Longrightarrow> types_kept ty s (fold (assign from Y) ms s)"
proof (induction ms arbitrary: s)
  case (Cons p ms)
  then show ?case using types_kept_trans [OF types_kept_assign, of ty "from" Y p s] by simp
qed (simp add: typing)

lemma Lookup_typed:
  assumes env: "env_ok E from" and inv: "cfg_inv s"
    and call: "Config_Lookup E T name d desc s = (r, t)" and d: "\<And>i. r = Inr i \<Longrightarrow> ty T d"
  shows "types_kept ty s t" and "r = Inr i \<Longrightarrow> \<exists>cv. var_at t i = Some cv \<and> cv_type cv = T"
proof -
  have ok: "log_ok s" "cfg_idle s" "wf_cfg s" using inv by (auto simp: cfg_inv_def)
  have "(cfg_eq t s \<and> (\<forall>i. r = Inr i \<longrightarrow> (\<exists>cv. var_at s i = Some cv \<and> cv_type cv = T))) \<or>
      (cfg_eq t (register E T name d desc s) \<and> r = Inr (length (c_vars s)))"
  proof (cases "map_of (c_datas s) name")
    case None
    then show ?thesis
      using Lookup_fresh [OF ok(1,2) None, of E T d desc] Lookup_invalid [OF ok(1,2) None, of E T d desc] call
      by fastforce
  next
    case (Some i)
    with ok(3) obtain cv where cv: "var_at s i = Some cv" "\<not> has_char_not_of name_chars name" by (elim wf_cfgD)
    then show ?thesis
      using Lookup_known [OF ok(1,2) Some cv(1), of T E d desc] Lookup_mismatch [OF env ok(1,2) Some cv(1) _ cv(2), of T d desc]
        call by (cases "cv_type cv = T") fastforce+
  qed
  moreover have "ty T d" if "r = Inr (length (c_vars s))" using d that .
  ultimately show "types_kept ty s t" "r = Inr i \<Longrightarrow> \<exists>cv. var_at t i = Some cv \<and> cv_type cv = T"
    using types_kept_eq [OF types_kept_refl] types_kept_eq [OF types_kept_register] cfg_eq_var_at
    by (fastforce simp: var_at_register)+
qed

lemma Lookup_name_eval:
  assumes "cfg_inv s"
  shows "Config_Lookup_name T name s =
     (Inr (case map_of (c_datas s) name of
             None \<Rightarrow> None
           | Some i \<Rightarrow> if map_option cv_type (var_at s i) = Some T then Some i else None), s)"
proof (cases "map_of (c_datas s) name")
  case None
  then show ?thesis using assms by (simp add: Config_Lookup_name_def with_rdlock_def cfg_inv_def cfg_idle_def)
next
  case (Some i)
  then obtain cv where "var_at s i = Some cv" using assms unfolding cfg_inv_def by (blast elim: wf_cfgD)
  then show ?thesis
    using Some assms
    by (simp add: Config_Lookup_name_def with_rdlock_def cfg_inv_def cfg_idle_def bindc_def get_var_Some ret_apply)
qed

lemma var_ops_typed:
  assumes env: "env_ok E from" "from_typed ty from" and inv: "cfg_inv s" and cv: "var_at s i = Some cv"
  shows "ty (cv_type cv) v \<Longrightarrow> types_kept ty s (snd (ConfigVar_setValue E i v s))"
    "types_kept ty s (snd (ConfigVar_fromString E i val s))"
    "types_kept ty s (snd (ConfigVar_toString E i s))" "types_kept ty s (snd (ConfigVar_addListener i cb s))"
    "types_kept ty s (snd (ConfigVar_delListener i key s))" "types_kept ty s (snd (ConfigVar_clearListener i s))"
proof -
  have ok: "log_ok s" "cfg_idle s" using inv by (auto simp: cfg_inv_def)
  then have free: "VarMutex i \<notin> c_wr s" "VarMutex i \<notin> set (c_rd s)" by (auto simp: cfg_idle_def)
  show "types_kept ty s (snd (ConfigVar_setValue E i v s))" if "ty (cv_type cv) v"
  proof -
    have "types_kept ty s (put_var i (cv\<lparr>cv_val := v\<rparr>) s)" using that by (intro types_kept_put_var [OF cv]) simp_all
    with setValue_eval [OF env(1) ok(1) cv free, of v] show ?thesis by (auto intro: types_kept_eq)
  qed
  have "types_kept ty s (case from (cv_type cv) val of Inl e \<Rightarrow> s | Inr v \<Rightarrow> put_var i (cv\<lparr>cv_val := v\<rparr>) s)"
    using env(2) cv by (auto simp: from_typed_def intro!: typing split: sum.splits)
  then show "types_kept ty s (snd (ConfigVar_fromString E i val s))"
    using fromString_eval [OF env(1) ok(1) cv free, of val] by (auto intro: types_kept_eq)
  show "types_kept ty s (snd (ConfigVar_toString E i s))"
    using toString_eval [OF env(1) ok(1) cv free(1)] types_kept_eq [OF types_kept_refl log_frame_cfg_eq] by auto
  have "types_kept ty (s\<lparr>c_fun_id := f\<rparr>) t = types_kept ty s t" for f t
    by (simp add: types_kept_def vars_typed_def)
  moreover have "types_kept ty (s\<lparr>c_fun_id := f\<rparr>) (put_var i (cv\<lparr>cv_cbs := cbs\<rparr>) (s\<lparr>c_fun_id := f\<rparr>))" for f cbs
    using cv by (intro types_kept_put_var [where cv = cv]) simp_all
  ultimately show "types_kept ty s (snd (ConfigVar_addListener i cb s))"
    by (simp add: addListener_eval [OF ok(2) cv])
  show "types_kept ty s (snd (ConfigVar_delListener i key s))" "types_kept ty s (snd (ConfigVar_clearListener i s))"
    using types_kept_put_var [OF cv] by (simp_all add: delListener_eval [OF ok(2) cv] clearListener_eval [OF ok(2) cv])
qed

definition typed_inv :: "(string \<Rightarrow> 'v \<Rightarrow> bool) \<Rightarrow> 'v cfg_world \<times> handle set \<Rightarrow> bool" where
  "typed_inv ty s \<longleftrightarrow>
     cfg_inv (fst s) \<and> vars_typed ty (fst s) \<and>
     (\<forall>(i, T) \<in> snd s. \<exists>cv. var_at (fst s) i = Some cv \<and> cv_type cv = T)"

lemma typed_inv_kept:
  assumes "typed_inv ty (s, hs)" and "cfg_inv t" and "types_kept ty s t"
    and "\<And>i T. (i, T) \<in> hs' \<Longrightarrow> (i, T) \<in> hs \<or> (\<exists>cv. var_at t i = Some cv \<and> cv_type cv = T)"
  shows "typed_inv ty (t, hs')"
proof -
  have "\<exists>cv. var_at t i = Some cv \<and> cv_type cv = T" if "(i, T) \<in> hs" for i T
    using assms(1,3) that by (fastforce simp: typed_inv_def types_kept_def)
  then show ?thesis using assms by (fastforce simp: typed_inv_def types_kept_def)
qed

lemma typed_inv_ops:
  assumes "typed_inv ty (s, hs)" and "(i, T) \<in> hs" and "env_ok E from" and "from_typed ty from"
  shows "ty T v \<Longrightarrow> typed_inv ty (snd (ConfigVar_setValue E i v s), hs)"
    "typed_inv ty (snd (ConfigVar_fromString E i val s), hs)" "typed_inv ty (snd (ConfigVar_toString E i s), hs)"
    "typed_inv ty (snd (ConfigVar_addListener i cb s), hs)" "typed_inv ty (snd (ConfigVar_delListener i key s), hs)"
    "typed_inv ty (snd (ConfigVar_clearListener i s), hs)"
proof -
  obtain cv where cv: "var_at s i = Some cv" "cv_type cv = T" and inv: "cfg_inv s"
    using assms(1,2) by (fastforce simp: typed_inv_def)
  note kept = typed_inv_kept [OF assms(1)] cfg_inv_var_ops [OF assms(3) inv cv(1)] var_ops_typed [OF assms(3,4) inv cv(1)]
  show "ty T v \<Longrightarrow> typed_inv ty (snd (ConfigVar_setValue E i v s), hs)" using kept cv(2) by metis
  show "typed_inv ty (snd (ConfigVar_fromString E i val s), hs)" "typed_inv ty (snd (ConfigVar_toString E i s), hs)"
    "typed_inv ty (snd (ConfigVar_addListener i cb s), hs)" "typed_inv ty (snd (ConfigVar_delListener i key s), hs)"
    "typed_inv ty (snd (ConfigVar_clearListener i s), hs)"
    using kept by metis+
qed

lemma typed_step_inv:
  assumes "typed_step ty E s t" and "env_ok E from" and "from_typed ty from" and "typed_inv ty s"
  shows "typed_inv ty t"
  using assms
proof (induction rule: typed_step.induct)
  case (typed_Lookup T d name desc s i t hs)
  then have inv: "cfg_inv s" by (simp add: typed_inv_def)
  note kept = Lookup_typed [OF typed_Lookup.prems(1) inv typed_Lookup.hyps(2), of ty] 
  show ?case
    using cfg_inv_Lookup [OF typed_Lookup.prems(1) inv, of T name d desc] kept typed_Lookup.hyps
    by (intro typed_inv_kept [OF typed_Lookup.prems(3)]) auto
next
  case (typed_Lookup_throws T name d desc s e t hs)
  then have inv: "cfg_inv s" by (simp add: typed_inv_def)
  show ?case
    using cfg_inv_Lookup [OF typed_Lookup_throws.prems(1) inv, of T name d desc]
      Lookup_typed(1) [OF typed_Lookup_throws.prems(1) inv typed_Lookup_throws.hyps(1), of ty] typed_Lookup_throws.hyps
    by (intro typed_inv_kept [OF typed_Lookup_throws.prems(3)]) auto
next
  case (typed_Lookup_name T name s i t hs)
  then have inv: "cfg_inv s" by (simp add: typed_inv_def)
  show ?case
    using typed_Lookup_name.hyps inv
    by (intro typed_inv_kept [OF typed_Lookup_name.prems(3)])
      (auto simp: Lookup_name_eval [OF inv] intro: typing split: option.splits if_splits)
next
  case (typed_LoadFromYaml s hs root)
  then have inv: "log_ok s" "cfg_idle s" "wf_cfg s" "cfg_inv s" by (simp_all add: typed_inv_def cfg_inv_def)
  have "types_kept ty s (snd (Config_LoadFromYaml E root s))"
    using LoadFromYaml_eval [OF typed_LoadFromYaml.prems(1) inv(1-3), of root]
      types_kept_eq [OF types_kept_fold_assign [OF typed_LoadFromYaml.prems(2)]] by fastforce
  then show ?case
    using cfg_inv_LoadFromYaml [OF typed_LoadFromYaml.prems(1) inv(4)]
    by (intro typed_inv_kept [OF typed_LoadFromYaml.prems(3)]) auto
next
  case (typed_logging t s hs)
  then show ?case
    using cfg_inv_eq [of t s] types_kept_eq [OF types_kept_refl]
    by (intro typed_inv_kept [OF typed_logging.prems(3)]) (auto simp: typed_inv_def cfg_inv_def)
qed (auto intro: typed_inv_ops)

interpretation typed_config: transition_system typed_init "any_typed_step ty" "typed_inv ty" for ty
proof
  show "typed_init s \<Longrightarrow> typed_inv ty s" for s :: "'a cfg_world \<times> handle set"
    by (simp add: typed_init_def typed_inv_def cfg_init_def cfg_inv_def wf_cfg_def cfg_idle_def vars_typed_def var_at_def)
  show "any_typed_step ty s t \<Longrightarrow> typed_inv ty s \<Longrightarrow> typed_inv ty t" for s t :: "'a cfg_world \<times> handle set"
    by (auto simp: any_typed_step_def intro: typed_step_inv)
qed

section \<open>The property\<close>

text \<open>C6: type soundness of the registry. However a program that compiles mixes lookups under any types, assignments through
  its handles, listeners and loading of files, every pointer to \<open>ConfigVar\<close> of \<open>T\<close> it holds stays a pointer to an object of
  that type, which always holds a value of \<open>T\<close>; and \<open>Lookup\<close> by name and type returns a null pointer, or such a pointer to the
  object registered under the name.\<close>

theorem config_handles_are_typed:
  assumes "reachable typed_init (any_typed_step ty) (s, hs)"
  shows "(\<forall>i T. (i, T) \<in> hs \<longrightarrow>
        ConfigVar_getTypeName i s = (Inr T, s) \<and> (\<exists>v. ConfigVar_getValue i s = (Inr v, s) \<and> ty T v)) \<and>
     (\<forall>T name.
        Config_Lookup_name T name s = (Inr None, s) \<or>
        (\<exists>i v. Config_Lookup_name T name s = (Inr (Some i), s) \<and> map_of (c_datas s) name = Some i \<and>
           ConfigVar_getTypeName i s = (Inr T, s) \<and> ConfigVar_getValue i s = (Inr v, s) \<and> ty T v))"
proof -
  have inv: "cfg_inv s" "vars_typed ty s" and hs: "\<And>i T. (i, T) \<in> hs \<Longrightarrow> \<exists>cv. var_at s i = Some cv \<and> cv_type cv = T"
    using typed_config.reach_inv [OF assms] by (auto simp: typed_inv_def)
  have eval: "ConfigVar_getTypeName i s = (Inr (cv_type cv), s)" "ConfigVar_getValue i s = (Inr (cv_val cv), s)"
    "ty (cv_type cv) (cv_val cv)" if "var_at s i = Some cv" for i cv
    using that inv getValue_eval by (auto simp: ConfigVar_getTypeName_def bindc_def get_var_Some ret_apply cfg_inv_def vars_typed_def)
  show ?thesis
    using hs eval by (fastforce simp: Lookup_name_eval [OF inv(1)] split: option.splits)
qed

text \<open>Numbers kept as their decimal digits, and texts.\<close>

definition digits_ty :: "string \<Rightarrow> string \<Rightarrow> bool" where
  "digits_ty T v \<longleftrightarrow> (T = ''j'' \<longrightarrow> v \<noteq> [] \<and> \<not> has_char_not_of ''0123456789'' v)"

definition digits_from :: "string \<Rightarrow> string \<Rightarrow> string result" where
  "digits_from T v = (if digits_ty T v then Inr v else Inl (Throw bad_lexical_cast))"

definition digits_env :: "string cfg_env" where
  "digits_env = text_env\<lparr>e_from := (\<lambda>T v s. (digits_from T v, s))\<rparr>"

lemma digits_env_ok: "env_ok digits_env digits_from" "from_typed digits_ty digits_from"
  by (auto simp: env_ok_def digits_env_def text_env_def digits_from_def from_typed_def)

definition port_cfg :: "string cfg_world" where
  "port_cfg = snd (Config_Lookup digits_env ''j'' ''system.port'' ''8080'' ''port'' start_cfg)"

lemma port_lookup:
  "Config_Lookup digits_env ''j'' ''system.port'' ''8080'' ''port'' start_cfg = (Inr 0, port_cfg)"
proof -
  have "log_ok start_cfg" "cfg_idle start_cfg" "c_datas start_cfg = []" "c_vars start_cfg = []"
    using start_cfg_init by (auto simp: cfg_init_def cfg_idle_def)
  moreover have "\<not> has_char_not_of name_chars ''system.port''" by (simp add: has_char_not_of_def name_chars_def)
  ultimately show ?thesis
    using Lookup_fresh [of start_cfg "''system.port''" digits_env "''j''" "''8080''" "''port''"] by (auto simp: port_cfg_def)
qed

definition loaded_cfg :: "string cfg_world" where
  "loaded_cfg = snd (Config_LoadFromYaml digits_env
     (Map [(Scalar ''system'', Map [(Scalar ''port'', Scalar ''many'')])]) port_cfg)"

lemma loaded_cfg_reachable: "reachable typed_init (any_typed_step digits_ty) (loaded_cfg, {(0, ''j'')})"
proof -
  have "reachable typed_init (any_typed_step digits_ty) (start_cfg, {})"
    by (rule reach_init) (simp add: typed_init_def start_cfg_init)
  moreover have "any_typed_step digits_ty (start_cfg, {}) (port_cfg, {(0, ''j'')})"
    unfolding any_typed_step_def
    using digits_env_ok typed_Lookup [OF _ port_lookup, of digits_ty "{}"] by (force simp: digits_ty_def has_char_not_of_def)
  moreover have "any_typed_step digits_ty (port_cfg, {(0, ''j'')}) (loaded_cfg, {(0, ''j'')})"
    unfolding any_typed_step_def loaded_cfg_def using digits_env_ok typed_LoadFromYaml by blast
  ultimately show ?thesis by (blast intro: reach_step)
qed

theorem config_handles_are_typed_witness:
  "\<exists>v. ConfigVar_getValue 0 loaded_cfg = (Inr v, loaded_cfg) \<and> digits_ty ''j'' v"
  using config_handles_are_typed [OF loaded_cfg_reachable] by simp

end
