(* ===== verification/ConfigConcurrent.thy ===== *)
theory ConfigConcurrent
  imports ConfigProperties Locks
begin

text \<open>
  Several threads that call \<open>ConfigVar::setValue\<close> (\<open>src/sylar/config.h\<close>) of one variable. The function compares and
  calls the listeners under the read lock, gives it back, and stores under the write lock; between the two parts other threads run.
  The parts themselves are atomic: the write lock excludes every other part, and the parts under the read lock do
  not change the variable.
\<close>

section \<open>The two parts of setValue\<close>

definition setValue_store :: "addr \<Rightarrow> 'v \<Rightarrow> ('v, unit) cfgc" where
  "setValue_store i v = with_wrlock (VarMutex i) (bindc (get_var i) (\<lambda>cv. modify (put_var i (cv\<lparr>cv_val := v\<rparr>))))"

lemma setValue_parts:
  "ConfigVar_setValue E i v =
     bindc (get_var i) (\<lambda>_. bindc (setValue_notify E i v) (\<lambda>changed. if changed then setValue_store i v else ret ()))"
  unfolding ConfigVar_setValue_def setValue_store_def by (rule refl)

text \<open>A thread has values it wants to set, and the value it has announced to the listeners but not stored yet.\<close>

record 'v setters =
  sv_world :: "'v cfg_world"
  sv_todo :: "tid \<Rightarrow> 'v list"
  sv_announced :: "tid \<Rightarrow> 'v option"

inductive setValue_step :: "'v cfg_env \<Rightarrow> addr \<Rightarrow> 'v setters \<Rightarrow> 'v setters \<Rightarrow> bool" for E i where
  step_same: "sv_announced x t = None \<Longrightarrow> sv_todo x t = v # vs \<Longrightarrow>
     setValue_notify E i v (sv_world x) = (Inr False, s) \<Longrightarrow>
     setValue_step E i x (x\<lparr>sv_world := s, sv_todo := (sv_todo x)(t := vs)\<rparr>)"
| step_announce: "sv_announced x t = None \<Longrightarrow> sv_todo x t = v # vs \<Longrightarrow>
     setValue_notify E i v (sv_world x) = (Inr True, s) \<Longrightarrow>
     setValue_step E i x (x\<lparr>sv_world := s, sv_todo := (sv_todo x)(t := vs), sv_announced := (sv_announced x)(t \<mapsto> v)\<rparr>)"
| step_store: "sv_announced x t = Some v \<Longrightarrow> setValue_store i v (sv_world x) = (Inr (), s) \<Longrightarrow>
     setValue_step E i x (x\<lparr>sv_world := s, sv_announced := (sv_announced x)(t := None)\<rparr>)"

definition setters_start :: "'v cfg_world \<Rightarrow> (tid \<Rightarrow> 'v list) \<Rightarrow> 'v setters" where
  "setters_start s todo = \<lparr>sv_world = s, sv_todo = todo, sv_announced = (\<lambda>_. None)\<rparr>"

lemma setValue_notify_cfg:
  assumes "env_ok E from" and "cfg_inv s" and "var_at s i = Some cv"
  shows "\<exists>t. setValue_notify E i v s = (Inr (v \<noteq> cv_val cv), t) \<and> cfg_inv t \<and> cfg_eq t s"
proof -
  have "log_ok s" "VarMutex i \<notin> c_wr s" "wf_cfg s" "cfg_idle s" using assms(2) by (auto simp: cfg_inv_def cfg_idle_def)
  with setValue_notify_eval [OF assms(1) _ assms(3)] cfg_inv_eq show ?thesis by meson
qed

lemma setValue_store_cfg:
  assumes "cfg_inv s" and "var_at s i = Some cv"
  shows "setValue_store i v s = (Inr (), put_var i (cv\<lparr>cv_val := v\<rparr>) s)"
    and "cfg_inv (put_var i (cv\<lparr>cv_val := v\<rparr>) s)"
proof -
  have s: "log_ok s" "wf_cfg s" "cfg_idle s" using assms(1) by (auto simp: cfg_inv_def)
  then show "setValue_store i v s = (Inr (), put_var i (cv\<lparr>cv_val := v\<rparr>) s)"
    using assms(2)
    by (simp add: setValue_store_def with_wrlock_def cfg_idle_def bindc_def get_var_Some modify_apply put_var_def)
  have "wf_cfg (put_var i (cv\<lparr>cv_val := v\<rparr>) s)" using s(2) assms(2) by (rule wf_cfg_put_var) simp_all
  with s show "cfg_inv (put_var i (cv\<lparr>cv_val := v\<rparr>) s)" by (simp add: cfg_inv_def)
qed

section \<open>What the listeners are told\<close>

text \<open>
  Listeners that leave a trace in what the program does besides the configuration, such as lines on the console: \<open>obs\<close> reads
  the trace, and a call of the listener \<open>cb\<close> adds \<open>note cb old new\<close> to it.
\<close>

definition seen :: "(log_world \<Rightarrow> 'o list) \<Rightarrow> 'v cfg_world \<Rightarrow> 'o list" where
  "seen obs s = obs (log_world.truncate s)"

definition reports :: "'v cfg_env \<Rightarrow> (log_world \<Rightarrow> 'o list) \<Rightarrow> (addr \<Rightarrow> 'v \<Rightarrow> 'v \<Rightarrow> 'o list) \<Rightarrow> bool" where
  "reports E obs note \<longleftrightarrow> (\<forall>cb old new s. seen obs (snd (e_call E cb old new s)) = seen obs s @ note cb old new)"

text \<open>The trace of changes when all listeners of a variable, in their order, are told of each.\<close>

definition told :: "(addr \<Rightarrow> 'v \<Rightarrow> 'v \<Rightarrow> 'o list) \<Rightarrow> 'v ConfigVar \<Rightarrow> ('v \<times> 'v) list \<Rightarrow> 'o list" where
  "told note cv h = concat (map (\<lambda>(old, new). concat (map (\<lambda>(key, cb). note cb old new) (cv_cbs cv))) h)"

lemma told_simps [simp]:
  "told note cv [] = []" "told note cv (h @ h') = told note cv h @ told note cv h'" "told note (cv\<lparr>cv_val := v\<rparr>) h = told note cv h"
  by (simp_all add: told_def)

lemma seen_config [simp]:
  "seen obs (s\<lparr>c_rd := x\<rparr>) = seen obs s" "seen obs (s\<lparr>c_wr := y\<rparr>) = seen obs s" "seen obs (put_var i cv s) = seen obs s"
  by (simp_all add: seen_def log_world.defs put_var_def)

lemma notify_loop_told:
  assumes env: "env_ok E from" and rep: "reports E obs note"
    and "for_each (\<lambda>(key, cb). bindc (get_var i) (\<lambda>cv'. e_call E cb (cv_val cv') v)) cbs s = (Inr (), t)"
    and "log_ok s" and "var_at s i = Some cv"
  shows "seen obs t = seen obs s @ concat (map (\<lambda>(key, cb). note cb (cv_val cv) v) cbs)"
  using assms(3-5)
proof (induction cbs arbitrary: s)
  case (Cons p cbs)
  obtain key cb where p: "p = (key, cb)" by (cases p)
  obtain s1 where s1: "e_call E cb (cv_val cv) v s = (Inr (), s1)" "log_ok s1" "cfg_eq s1 s"
    using env Cons.prems(2) unfolding env_ok_def by blast
  have "seen obs s1 = seen obs s @ note cb (cv_val cv) v" using rep s1(1) by (metis reports_def snd_conv)
  moreover have "for_each (\<lambda>(key, cb). bindc (get_var i) (\<lambda>cv'. e_call E cb (cv_val cv') v)) cbs s1 = (Inr (), t)"
  proof -
    have "bindc (get_var i) (\<lambda>cv'. e_call E cb (cv_val cv') v) s = (Inr (), s1)"
      using Cons.prems(3) s1(1) by (simp add: bindc_def get_var_Some)
    then show ?thesis using Cons.prems(1) by (simp add: p)
  qed
  moreover have "var_at s1 i = Some cv" using s1(3) Cons.prems(3) cfg_eq_var_at by metis
  ultimately show ?case using Cons.IH s1(2) by (simp add: p)
qed simp

lemma setValue_notify_told:
  assumes env: "env_ok E from" and rep: "reports E obs note" and inv: "cfg_inv s" and cv: "var_at s i = Some cv"
    and run: "setValue_notify E i v s = (Inr True, t)"
  shows "seen obs t = seen obs s @ told note cv [(cv_val cv, v)]"
proof -
  have s: "log_ok s" "cfg_idle s" using inv by (simp_all add: cfg_inv_def)
  let ?s1 = "s\<lparr>c_rd := [VarMutex i]\<rparr>" and ?f = "\<lambda>(key, cb). bindc (get_var i) (\<lambda>cv'. e_call E cb (cv_val cv') v)"
  have new: "v \<noteq> cv_val cv" using setValue_notify_cfg [OF env inv cv, of v] run by auto
  have "\<exists>u. for_each ?f (cv_cbs cv) ?s1 = (Inr (), u) \<and> seen obs t = seen obs u"
    using run s(2) cv new
    by (auto simp: setValue_notify_def with_rdlock_def cfg_idle_def bindc_def get_var_Some ret_apply split: sum.splits prod.splits)
  then obtain u where u: "for_each ?f (cv_cbs cv) ?s1 = (Inr (), u)" "seen obs t = seen obs u" by blast
  with notify_loop_told [OF env rep u(1), of cv] s(1) cv show ?thesis by (simp add: told_def)
qed

section \<open>One at a time\<close>

text \<open>A history of changes in which every change starts from the value the one before it has set.\<close>

fun chained :: "'v \<Rightarrow> ('v \<times> 'v) list \<Rightarrow> 'v \<Rightarrow> bool" where
  "chained v [] w = (v = w)"
| "chained v ((old, new) # h) w = (old = v \<and> chained new h w)"

lemma chained_snoc: "chained v (h @ [(old, new)]) w \<longleftrightarrow> chained v h old \<and> new = w"
  by (induction v h old rule: chained.induct) auto

text \<open>Runs in which no two threads are between their two parts at the same time, as under a mutex around \<open>setValue\<close>.\<close>

definition one_announced :: "'v setters \<Rightarrow> bool" where
  "one_announced x \<longleftrightarrow> (\<forall>t u. sv_announced x t \<noteq> None \<longrightarrow> sv_announced x u \<noteq> None \<longrightarrow> t = u)"

definition exclusive_step :: "'v cfg_env \<Rightarrow> addr \<Rightarrow> 'v setters \<Rightarrow> 'v setters \<Rightarrow> bool" where
  "exclusive_step E i x y \<longleftrightarrow> setValue_step E i x y \<and> one_announced y"

text \<open>The value of the variable once the announced change, if there is one, is stored.\<close>

definition chain_inv ::
    "(log_world \<Rightarrow> 'o list) \<Rightarrow> (addr \<Rightarrow> 'v \<Rightarrow> 'v \<Rightarrow> 'o list) \<Rightarrow> addr \<Rightarrow> 'v ConfigVar \<Rightarrow> 'o list \<Rightarrow> 'v setters \<Rightarrow> bool" where
  "chain_inv obs note i cv0 o0 x \<longleftrightarrow>
     cfg_inv (sv_world x) \<and>
     (\<exists>cv h. var_at (sv_world x) i = Some cv \<and> cv_cbs cv = cv_cbs cv0 \<and> seen obs (sv_world x) = o0 @ told note cv0 h \<and>
        ((\<forall>t. sv_announced x t = None) \<longrightarrow> chained (cv_val cv0) h (cv_val cv)) \<and>
        (\<forall>t v. sv_announced x t = Some v \<longrightarrow> chained (cv_val cv0) h v))"

lemma chain_inv_step:
  assumes "exclusive_step E i x y" and env: "env_ok E from" and rep: "reports E obs note"
    and inv: "chain_inv obs note i cv0 o0 x" and one: "one_announced x"
  shows "chain_inv obs note i cv0 o0 y"
proof -
  from inv obtain cv h where w: "cfg_inv (sv_world x)" and cv: "var_at (sv_world x) i = Some cv" "cv_cbs cv = cv_cbs cv0"
    and obs: "seen obs (sv_world x) = o0 @ told note cv0 h"
    and chain: "(\<forall>t. sv_announced x t = None) \<Longrightarrow> chained (cv_val cv0) h (cv_val cv)"
      "\<And>t v. sv_announced x t = Some v \<Longrightarrow> chained (cv_val cv0) h v"
    by (auto simp: chain_inv_def)
  have notify: "r = Inr (v \<noteq> cv_val cv) \<and> cfg_inv s \<and> var_at s i = Some cv" if "setValue_notify E i v (sv_world x) = (r, s)" for v r s
    using setValue_notify_cfg [OF env w cv(1), of v] that cfg_eq_var_at [of s "sv_world x"] cv(1) by auto
  from assms(1) have step: "setValue_step E i x y" and y: "one_announced y" by (simp_all add: exclusive_step_def)
  from step show ?thesis
  proof cases
    case (step_same t v vs s)
    have "s = sv_world x"
      using step_same(4) w cv(1) notify [OF step_same(4)]
      by (auto simp: setValue_notify_def with_rdlock_def cfg_inv_def cfg_idle_def bindc_def get_var_Some ret_apply)
    then show ?thesis using inv step_same(1) by (simp add: chain_inv_def)
  next
    case (step_announce t v vs s)
    have idle: "sv_announced x u = None" for u
    proof (cases "u = t")
      case False
      have "sv_announced y t \<noteq> None" "sv_announced y u = sv_announced x u" using step_announce(1) False by simp_all
      with y False show ?thesis unfolding one_announced_def by metis
    qed (use step_announce(2) in simp)
    with chain(1) have "chained (cv_val cv0) (h @ [(cv_val cv, v)]) v" by (simp add: chained_snoc)
    moreover have "seen obs s = o0 @ told note cv0 (h @ [(cv_val cv, v)])"
      using setValue_notify_told [OF env rep w cv(1) step_announce(4)] obs cv(2) by (simp add: told_def)
    moreover have "cfg_inv s" "var_at s i = Some cv" using notify [OF step_announce(4)] by simp_all
    ultimately show ?thesis
      using step_announce(1) idle cv(2) unfolding chain_inv_def
      by (intro conjI exI [of _ cv] exI [of _ "h @ [(cv_val cv, v)]"]) (auto split: if_splits)
  next
    case (step_store t v s)
    have "sv_announced x u = None" if "u \<noteq> t" for u using one step_store(2) that by (auto simp: one_announced_def)
    moreover have "s = put_var i (cv\<lparr>cv_val := v\<rparr>) (sv_world x)" "cfg_inv s"
      using step_store(3) setValue_store_cfg [OF w cv(1), of v] by simp_all
    ultimately show ?thesis
      using step_store(1) chain(2) [OF step_store(2)] cv obs unfolding chain_inv_def
      by (intro conjI exI [of _ "cv\<lparr>cv_val := v\<rparr>"] exI [of _ h]) (auto simp: var_at_put_var)
  qed
qed

lemma chain_inv_run:
  assumes "(exclusive_step E i)\<^sup>*\<^sup>* (setters_start s todo) x" and env: "env_ok E from" and rep: "reports E obs note"
    and inv: "cfg_inv s" and cv: "var_at s i = Some cv"
  shows "chain_inv obs note i cv (seen obs s) x \<and> one_announced x"
  using assms(1)
proof (induction rule: rtranclp_induct)
  case base
  have "chain_inv obs note i cv (seen obs s) (setters_start s todo)"
    using inv cv unfolding chain_inv_def by (intro conjI exI [of _ cv] exI [of _ "[]"]) (simp_all add: setters_start_def)
  then show ?case by (simp add: setters_start_def one_announced_def)
next
  case (step x y)
  then show ?case using chain_inv_step [OF step.hyps(2) env rep] by (simp add: exclusive_step_def)
qed

section \<open>Properties\<close>

text \<open>C23: two threads that set a variable at the same time, with listeners that leave a trace of their calls. There is an order
  of their steps in which every listener is told of two changes that both start from the old value, the second thread's last, while
  the variable ends with the value of the first thread: whoever mirrors the variable through a listener is left with a value it does not have.
  If no call announces its change before the previous one has stored its value, the changes the listeners are told of form a
  chain that ends in the value of the variable.\<close>

theorem concurrent_setValue:
  assumes s: "reachable cfg_init any_cfg_step s" and env: "env_ok E from" and rep: "reports E obs note" and cv: "var_at s i = Some cv"
  shows "(\<forall>v1 v2. v1 \<noteq> cv_val cv \<longrightarrow> v2 \<noteq> cv_val cv \<longrightarrow> v1 \<noteq> v2 \<longrightarrow>
        (\<exists>x cv'. (setValue_step E i)\<^sup>*\<^sup>* (setters_start s ((\<lambda>_. [])(1 := [v1], 2 := [v2]))) x \<and>
           (\<forall>t. sv_todo x t = [] \<and> sv_announced x t = None) \<and>
           seen obs (sv_world x) = seen obs s @ told note cv [(cv_val cv, v1), (cv_val cv, v2)] \<and>
           var_at (sv_world x) i = Some cv' \<and> cv_val cv' = v1)) \<and>
     (\<forall>todo x. (exclusive_step E i)\<^sup>*\<^sup>* (setters_start s todo) x \<longrightarrow> (\<forall>t. sv_announced x t = None) \<longrightarrow>
        (\<exists>h cv'. seen obs (sv_world x) = seen obs s @ told note cv h \<and> var_at (sv_world x) i = Some cv' \<and>
           chained (cv_val cv) h (cv_val cv')))"
proof (intro conjI allI impI)
  have inv: "cfg_inv s" using configuration.reach_inv [OF s] .
  fix v1 v2 assume v: "v1 \<noteq> cv_val cv" "v2 \<noteq> cv_val cv"
  let ?x0 = "setters_start s ((\<lambda>_. [])(1 := [v1], 2 := [v2]))"
  obtain s1 where s1: "setValue_notify E i v1 s = (Inr True, s1)" "cfg_inv s1" "var_at s1 i = Some cv"
    using setValue_notify_cfg [OF env inv cv, of v1] v cfg_eq_var_at cv by fastforce
  obtain s2 where s2: "setValue_notify E i v2 s1 = (Inr True, s2)" "cfg_inv s2" "var_at s2 i = Some cv"
    using setValue_notify_cfg [OF env s1(2,3), of v2] v cfg_eq_var_at s1(3) by fastforce
  have obs: "seen obs s2 = seen obs s @ told note cv [(cv_val cv, v1), (cv_val cv, v2)]"
    using setValue_notify_told [OF env rep inv cv s1(1)] setValue_notify_told [OF env rep s1(2,3) s2(1)] by (simp add: told_def)
  let ?cv2 = "cv\<lparr>cv_val := v2\<rparr>" let ?s3 = "put_var i ?cv2 s2" let ?cv1 = "cv\<lparr>cv_val := v1\<rparr>" let ?s4 = "put_var i ?cv1 ?s3"
  have s3: "setValue_store i v2 s2 = (Inr (), ?s3)" "cfg_inv ?s3" "var_at ?s3 i = Some ?cv2"
    using setValue_store_cfg [OF s2(2,3), of v2] s2(3) by (simp_all add: var_at_put_var)
  have s4: "setValue_store i v1 ?s3 = (Inr (), ?s4)" "var_at ?s4 i = Some ?cv1"
    using setValue_store_cfg(1) [OF s3(2,3), of v1] s3(3) by (simp_all add: var_at_put_var)
  let ?x1 = "?x0\<lparr>sv_world := s1, sv_todo := (sv_todo ?x0)(1 := []), sv_announced := (sv_announced ?x0)(1 \<mapsto> v1)\<rparr>"
  let ?x2 = "?x1\<lparr>sv_world := s2, sv_todo := (sv_todo ?x1)(2 := []), sv_announced := (sv_announced ?x1)(2 \<mapsto> v2)\<rparr>"
  let ?x3 = "?x2\<lparr>sv_world := ?s3, sv_announced := (sv_announced ?x2)(2 := None)\<rparr>"
  let ?x4 = "?x3\<lparr>sv_world := ?s4, sv_announced := (sv_announced ?x3)(1 := None)\<rparr>"
  have "setValue_step E i ?x0 ?x1" by (rule step_announce) (use s1 cv in \<open>simp_all add: setters_start_def\<close>)
  moreover have "setValue_step E i ?x1 ?x2" by (rule step_announce) (use s1 s2 in \<open>simp_all add: setters_start_def\<close>)
  moreover have "setValue_step E i ?x2 ?x3" by (rule step_store) (use s3 in \<open>simp_all add: setters_start_def\<close>)
  moreover have "setValue_step E i ?x3 ?x4" by (rule step_store) (use s4 in \<open>simp_all add: setters_start_def\<close>)
  ultimately have "(setValue_step E i)\<^sup>*\<^sup>* ?x0 ?x4" by (meson converse_rtranclp_into_rtranclp rtranclp.rtrancl_refl)
  then show "\<exists>x cv'. (setValue_step E i)\<^sup>*\<^sup>* ?x0 x \<and> (\<forall>t. sv_todo x t = [] \<and> sv_announced x t = None) \<and>
      seen obs (sv_world x) = seen obs s @ told note cv [(cv_val cv, v1), (cv_val cv, v2)] \<and>
      var_at (sv_world x) i = Some cv' \<and> cv_val cv' = v1"
    using s4(2) obs by (intro exI [of _ ?x4] exI [of _ ?cv1]) (simp add: setters_start_def)
next
  fix todo x assume run: "(exclusive_step E i)\<^sup>*\<^sup>* (setters_start s todo) x" and fini: "\<forall>t. sv_announced x t = None"
  have "chain_inv obs note i cv (seen obs s) x" using chain_inv_run [OF run env rep configuration.reach_inv [OF s] cv] ..
  with fini show "\<exists>h cv'. seen obs (sv_world x) = seen obs s @ told note cv h \<and> var_at (sv_world x) i = Some cv' \<and>
      chained (cv_val cv) h (cv_val cv')"
    by (auto simp: chain_inv_def)
qed

text \<open>The variable with two listeners that write each change they are told of to the console.\<close>

lemma echo_env_ok: "env_ok echo_env text_from"
proof -
  have "log_frame s (s\<lparr>w_cout := c\<rparr>)" for s :: "string cfg_world" and c by (simp add: log_frame_def list.rel_refl)
  then have "log_ok s \<Longrightarrow> log_ok (s\<lparr>w_cout := c\<rparr>)" for s :: "string cfg_world" and c by (rule log_ok_frame)
  then show ?thesis using text_env_ok by (simp add: env_ok_def echo_env_def cfg_eq_iff)
qed

lemma echo_reports: "reports echo_env w_cout (\<lambda>cb old new. show_nat cb @ '':'' @ old @ ''>'' @ new @ '' '')"
  by (simp add: reports_def seen_def echo_env_def log_world.defs)

lemma heard_cfg_reachable: "reachable cfg_init any_cfg_step heard_cfg"
proof -
  have "any_cfg_step s (snd (ConfigVar_addListener i cb s))" for s :: "string cfg_world" and i cb
    using text_env_ok unfolding any_cfg_step_def by (blast intro: cfg_addListener)
  then show ?thesis unfolding heard_cfg_def using two_cfg_reachable by (blast intro: reach_step)
qed

theorem concurrent_setValue_witness:
  "\<exists>x cv'. (setValue_step echo_env 0)\<^sup>*\<^sup>* (setters_start heard_cfg ((\<lambda>_. [])(1 := [''81''], 2 := [''82'']))) x \<and>
     w_cout (sv_world x) = w_cout heard_cfg @ ''5:80>81 6:80>81 5:80>82 6:80>82 '' \<and>
     var_at (sv_world x) 0 = Some cv' \<and> cv_val cv' = ''81''"
proof -
  have v: "''81'' \<noteq> cv_val heard_var" "''82'' \<noteq> cv_val heard_var" "''81'' \<noteq> (''82'' :: string)" by (simp_all add: heard_var_def)
  let ?note = "\<lambda>cb old new. show_nat cb @ '':'' @ old @ ''>'' @ new @ '' ''"
  from concurrent_setValue [OF heard_cfg_reachable echo_env_ok echo_reports heard_cfg_at(2), THEN conjunct1, rule_format, OF v]
  obtain x cv' where "(setValue_step echo_env 0)\<^sup>*\<^sup>* (setters_start heard_cfg ((\<lambda>_. [])(1 := [''81''], 2 := [''82'']))) x"
    "seen w_cout (sv_world x) = seen w_cout heard_cfg @ told ?note heard_var [(cv_val heard_var, ''81''), (cv_val heard_var, ''82'')]"
    "var_at (sv_world x) 0 = Some cv'" "cv_val cv' = ''81''" by blast
  then show ?thesis
    by (intro exI [of _ x] exI [of _ cv'])
      (simp add: seen_def log_world.defs told_def heard_var_def show_nat.simps digit_chars)
qed

end
