(* ===== verification/ConfigCallbacks.thy ===== *)
theory ConfigCallbacks
  imports ConfigTyping
begin

text \<open>
  What a listener, and the function given to \<open>Config::Visit\<close>, may call: both run while their caller holds a read lock, of the
  variable or of the registry, which is not recursive for writing.
\<close>

text \<open>A listener that changes the listeners of its own variable, and one that reads it and expects the old value.\<close>

definition rewires :: "'v cfg_env \<Rightarrow> nat \<Rightarrow> addr \<Rightarrow> bool" where
  "rewires E cb i \<longleftrightarrow>
     (\<exists>cb'. e_call E cb = (\<lambda>_ _. bindc (ConfigVar_addListener i cb') (\<lambda>_. ret ()))) \<or>
     (\<exists>key. e_call E cb = (\<lambda>_ _. ConfigVar_delListener i key)) \<or>
     e_call E cb = (\<lambda>_ _. ConfigVar_clearListener i)"

definition reads_old :: "'v cfg_env \<Rightarrow> nat \<Rightarrow> addr \<Rightarrow> bool" where
  "reads_old E cb i \<longleftrightarrow>
     e_call E cb = (\<lambda>old _. bindc (ConfigVar_getValue i) (\<lambda>w. if w = old then ret () else raise Indeterminate))"

lemma rewires_blocks:
  assumes "rewires E cb i" and "var_at s i = Some cv" and "VarMutex i \<in> set (c_rd s)"
  shows "e_call E cb old new s = (Inl Deadlock, s)"
  using assms
  by (auto simp: rewires_def ConfigVar_addListener_def ConfigVar_delListener_def ConfigVar_clearListener_def bindc_def
      get_var_Some with_wrlock_def)

lemma reads_old_passes:
  assumes "reads_old E cb i" and "var_at s i = Some cv" and "VarMutex i \<notin> c_wr s"
  shows "e_call E cb (cv_val cv) new s = (Inr (), s)"
  using assms by (simp add: reads_old_def ConfigVar_getValue_def bindc_def get_var_Some with_rdlock_def ret_apply)

lemma reads_old_loop:
  assumes "\<forall>(key, cb) \<in> set cbs. reads_old E cb i" and "var_at s i = Some cv" and "VarMutex i \<notin> c_wr s"
  shows "for_each (\<lambda>(key, cb). bindc (get_var i) (\<lambda>cv'. e_call E cb (cv_val cv') v)) cbs s = (Inr (), s)"
  using assms(1) by (induction cbs) (auto simp: bindc_def get_var_Some [OF assms(2)] reads_old_passes [OF _ assms(2,3)])

text \<open>Listeners that leave the configuration as it is, called before one that changes the listeners.\<close>

definition keeps_config :: "'v cfg_env \<Rightarrow> nat \<Rightarrow> bool" where
  "keeps_config E cb \<longleftrightarrow> (\<forall>old new s. cfg_eq (snd (e_call E cb old new s)) s)"

lemma keeps_config_loop:
  assumes "\<forall>(key, cb) \<in> set cbs. keeps_config E cb" and "var_at s i = Some cv"
    and "for_each (\<lambda>(key, cb). e_call E cb (cv_val cv) v) cbs s = (Inr (), t)"
  shows "for_each (\<lambda>(key, cb). bindc (get_var i) (\<lambda>cv'. e_call E cb (cv_val cv') v)) cbs s = (Inr (), t) \<and> cfg_eq t s"
  using assms
proof (induction cbs arbitrary: s)
  case (Cons p cbs)
  obtain key cb where p: "p = (key, cb)" by (cases p)
  obtain s1 where s1: "e_call E cb (cv_val cv) v s = (Inr (), s1)" "for_each (\<lambda>(key, cb). e_call E cb (cv_val cv) v) cbs s1 = (Inr (), t)"
    using Cons.prems(3) by (auto simp: p split: prod.splits sum.splits)
  have "keeps_config E cb" using Cons.prems(1) by (simp add: p)
  then have "cfg_eq (snd (e_call E cb (cv_val cv) v s)) s" unfolding keeps_config_def by blast
  then have eq: "cfg_eq s1 s" by (simp add: s1(1))
  then have "var_at s1 i = Some cv" using Cons.prems(2) cfg_eq_var_at by metis
  moreover have "bindc (get_var i) (\<lambda>cv'. e_call E cb (cv_val cv') v) s = (Inr (), s1)"
    using Cons.prems(2) s1(1) by (simp add: bindc_def get_var_Some)
  ultimately show ?case using Cons.IH [of s1] Cons.prems(1) s1(2) eq cfg_eq_trans by (auto simp: p)
qed simp

lemma Visit_Lookup_name:
  assumes inv: "cfg_inv s"
  shows "Config_Visit (\<lambda>_. bindc (Config_Lookup_name T name) (\<lambda>_. ret ())) s = (Inr (), s)"
proof -
  let ?r = "s\<lparr>c_rd := [ConfigMutex]\<rparr>"
  have idle: "c_rd s = []" "c_wr s = {}" using inv by (simp_all add: cfg_inv_def cfg_idle_def)
  have "\<exists>p. Config_Lookup_name T name ?r = (Inr p, ?r)"
  proof (cases "map_of (c_datas s) name")
    case None
    then show ?thesis using idle by (simp add: Config_Lookup_name_def with_rdlock_def)
  next
    case (Some j)
    then obtain w where "var_at s j = Some w" using inv unfolding cfg_inv_def by (blast elim: wf_cfgD)
    then have "get_var j (s\<lparr>c_rd := [ConfigMutex, ConfigMutex]\<rparr>) = (Inr w, s\<lparr>c_rd := [ConfigMutex, ConfigMutex]\<rparr>)"
      by (simp add: get_var_def var_at_def split: if_splits)
    with Some idle show ?thesis by (simp add: Config_Lookup_name_def with_rdlock_def bindc_def ret_apply)
  qed
  then obtain p where "Config_Lookup_name T name ?r = (Inr p, ?r)" ..
  then have "bindc (Config_Lookup_name T name) (\<lambda>_. ret ()) ?r = (Inr (), ?r)" by (simp add: bindc_def ret_apply)
  then have "for_each (\<lambda>(n, i). bindc (Config_Lookup_name T name) (\<lambda>_. ret ())) m ?r = (Inr (), ?r)" for m :: "(string \<times> addr) list"
    by (induction m) auto
  then show ?thesis using idle by (simp add: Config_Visit_def with_rdlock_def)
qed

text \<open>C24: what may be called from a callback. A listener that adds, deletes or clears listeners of its own variable never gets the
  lock for writing, because \<open>setValue\<close> holds it for reading: after the listeners before it have returned \<open>setValue\<close> hangs, and the new
  value is not stored. Listeners that read
  the variable do return, and see the old value. In the same way the function given to \<open>Visit\<close> may look a variable up by name, but
  not with the \<open>Lookup\<close> that may create it, even for a name that exists.\<close>

theorem callbacks_under_locks:
  assumes s: "reachable cfg_init any_cfg_step s" and cv: "var_at s i = Some cv" and v: "v \<noteq> cv_val cv"
  shows "(\<forall>before key cb rest t.
        cv_cbs cv = before @ (key, cb) # rest \<and> rewires E cb i \<and> (\<forall>(key, cb) \<in> set before. keeps_config E cb) \<and>
        for_each (\<lambda>(key, cb). e_call E cb (cv_val cv) v) before (s\<lparr>c_rd := [VarMutex i]\<rparr>) = (Inr (), t) \<longrightarrow>
        ConfigVar_setValue E i v s = (Inl Deadlock, t\<lparr>c_rd := []\<rparr>) \<and> var_at t i = Some cv) \<and>
     ((\<forall>(key, cb) \<in> set (cv_cbs cv). reads_old E cb i) \<longrightarrow>
        ConfigVar_setValue E i v s = (Inr (), put_var i (cv\<lparr>cv_val := v\<rparr>) s)) \<and>
     (c_datas s \<noteq> [] \<longrightarrow> Config_Visit (\<lambda>_. bindc (Config_Lookup E T name d desc) (\<lambda>_. ret ())) s = (Inl Deadlock, s)) \<and>
     Config_Visit (\<lambda>_. bindc (Config_Lookup_name T name) (\<lambda>_. ret ())) s = (Inr (), s)"
proof (intro conjI allI impI)
  have inv: "cfg_inv s" using configuration.reach_inv [OF s] .
  then have idle: "c_rd s = []" "c_wr s = {}" by (simp_all add: cfg_inv_def cfg_idle_def)
  let ?s1 = "s\<lparr>c_rd := [VarMutex i]\<rparr>"
  have cv1: "var_at ?s1 i = Some cv" using cv by (simp add: var_at_def)
  fix before key cb rest t
  assume l: "cv_cbs cv = before @ (key, cb) # rest \<and> rewires E cb i \<and> (\<forall>(key, cb) \<in> set before. keeps_config E cb) \<and>
      for_each (\<lambda>(key, cb). e_call E cb (cv_val cv) v) before ?s1 = (Inr (), t)"
  let ?f = "\<lambda>(key, cb). bindc (get_var i) (\<lambda>cv'. e_call E cb (cv_val cv') v)"
  have t: "for_each ?f before ?s1 = (Inr (), t)" "cfg_eq t ?s1" using keeps_config_loop [OF _ cv1] l by blast+
  then have at: "var_at t i = Some cv" "c_rd t = [VarMutex i]" using cv1 cfg_eq_var_at [OF t(2)] by (simp_all add: cfg_eq_iff)
  then have "e_call E cb (cv_val cv) v t = (Inl Deadlock, t)" using l by (intro rewires_blocks [OF _ at(1)]) simp_all
  then have "?f (key, cb) t = (Inl Deadlock, t)" using at(1) by (simp add: bindc_def get_var_Some)
  then have "for_each ?f (cv_cbs cv) ?s1 = (Inl Deadlock, t)" using l t(1) by (simp add: for_each_append)
  then show "ConfigVar_setValue E i v s = (Inl Deadlock, t\<lparr>c_rd := []\<rparr>)" using v idle at(2)
    by (simp add: ConfigVar_setValue_def setValue_notify_def with_rdlock_def bindc_def [of "get_var i"] bindc_def [of "with_rdlock _ _"]
        bindc_def [of "for_each _ _"] get_var_Some [OF cv] get_var_Some [OF cv1])
  show "var_at t i = Some cv" by (rule at(1))
next
  have inv: "cfg_inv s" using configuration.reach_inv [OF s] .
  then have idle: "c_rd s = []" "c_wr s = {}" by (simp_all add: cfg_inv_def cfg_idle_def)
  let ?s1 = "s\<lparr>c_rd := [VarMutex i]\<rparr>"
  have cv1: "var_at ?s1 i = Some cv" using cv by (simp add: var_at_def)
  show "ConfigVar_setValue E i v s = (Inr (), put_var i (cv\<lparr>cv_val := v\<rparr>) s)"
    if "\<forall>(key, cb) \<in> set (cv_cbs cv). reads_old E cb i"
  proof -
    have "for_each (\<lambda>(key, cb). bindc (get_var i) (\<lambda>cv'. e_call E cb (cv_val cv') v)) (cv_cbs cv) ?s1 = (Inr (), ?s1)"
      using reads_old_loop [OF that cv1] idle by simp
    then have "setValue_notify E i v s = (Inr True, s)" using v idle
      by (simp add: setValue_notify_def with_rdlock_def bindc_def get_var_Some [OF cv1] ret_apply)
    then show ?thesis using idle
      by (simp add: ConfigVar_setValue_def bindc_def get_var_Some [OF cv] with_wrlock_def modify_apply put_var_def var_at_def get_var_def)
        (use cv in \<open>simp add: var_at_def split: if_splits\<close>)
  qed
  show "Config_Visit (\<lambda>_. bindc (Config_Lookup E T name d desc) (\<lambda>_. ret ())) s = (Inl Deadlock, s)" if "c_datas s \<noteq> []"
    using that idle by (cases "c_datas s") (auto simp: Config_Visit_def with_rdlock_def Config_Lookup_def with_wrlock_def bindc_def)
  show "Config_Visit (\<lambda>_. bindc (Config_Lookup_name T name) (\<lambda>_. ret ())) s = (Inr (), s)" by (rule Visit_Lookup_name [OF inv])
qed

definition rewiring_env :: "string cfg_env" where
  "rewiring_env = text_env\<lparr>e_call := (\<lambda>cb old new. bindc (ConfigVar_addListener 0 9) (\<lambda>_. ret ()))\<rparr>"

lemma listened_cfg:
  "reachable cfg_init any_cfg_step (snd (ConfigVar_addListener 0 5 two_cfg))"
  "var_at (snd (ConfigVar_addListener 0 5 two_cfg)) 0 =
     Some \<lparr>cv_name = ''system.port'', cv_description = ''port'', cv_type = ''string'', cv_val = ''80'', cv_cbs = [(1, 5)]\<rparr>"
proof -
  have "any_cfg_step two_cfg (snd (ConfigVar_addListener 0 5 two_cfg))"
    using text_env_ok unfolding any_cfg_step_def by (blast intro: cfg_addListener)
  with two_cfg_reachable show "reachable cfg_init any_cfg_step (snd (ConfigVar_addListener 0 5 two_cfg))" by (rule reach_step)
  show "var_at (snd (ConfigVar_addListener 0 5 two_cfg)) 0 =
     Some \<lparr>cv_name = ''system.port'', cv_description = ''port'', cv_type = ''string'', cv_val = ''80'', cv_cbs = [(1, 5)]\<rparr>"
    unfolding addListener_eval [OF two_cfg_inv(3) two_cfg_vars(2)]
    using two_cfg_vars by (simp add: var_at_put_var)
qed

theorem callbacks_under_locks_witness:
  "\<exists>s. ConfigVar_setValue rewiring_env 0 ''81'' s = (Inl Deadlock, s) \<and>
     Config_Visit (\<lambda>_. bindc (Config_Lookup_name ''string'' ''system.ip'') (\<lambda>_. ret ())) s = (Inr (), s)"
proof -
  let ?cv = "\<lparr>cv_name = ''system.port'', cv_description = ''port'', cv_type = ''string'', cv_val = ''80'', cv_cbs = [(1, 5)]\<rparr>"
  let ?s = "snd (ConfigVar_addListener 0 5 two_cfg)"
  have "''81'' \<noteq> cv_val ?cv" by simp
  note locks = callbacks_under_locks [OF listened_cfg this, of rewiring_env "''string''" "''system.ip''"]
  have "cv_cbs ?cv = [] @ (1, 5) # [] \<and> rewires rewiring_env 5 0 \<and> (\<forall>(key, cb) \<in> set []. keeps_config rewiring_env cb) \<and>
      for_each (\<lambda>(key, cb). e_call rewiring_env cb (cv_val ?cv) ''81'') [] (?s\<lparr>c_rd := [VarMutex 0]\<rparr>) = (Inr (), ?s\<lparr>c_rd := [VarMutex 0]\<rparr>)"
    by (auto simp: rewires_def rewiring_env_def)
  from locks [THEN conjunct1, rule_format, OF this, THEN conjunct1]
  have "ConfigVar_setValue rewiring_env 0 ''81'' ?s = (Inl Deadlock, ?s\<lparr>c_rd := [VarMutex 0]\<rparr>\<lparr>c_rd := []\<rparr>)" .
  moreover have "c_rd ?s = []" using configuration.reach_inv [OF listened_cfg(1)] by (simp add: cfg_inv_def cfg_idle_def)
  then have "?s\<lparr>c_rd := [VarMutex 0]\<rparr>\<lparr>c_rd := []\<rparr> = ?s" by simp
  ultimately show ?thesis using locks [THEN conjunct2, THEN conjunct2, THEN conjunct2] by (intro exI [of _ ?s]) simp
qed

end
