(* ===== verification/LogConfig.thy ===== *)
theory LogConfig
  imports ConfigOps
begin

text \<open>
  Logging configured by the configuration system, the middle part of \<open>src/sylar/log.cc\<close>: the
  definitions of loggers and appenders, their conversion from and to text, the listener that
  applies a change of the variable \<open>logs\<close>, and the conversion of the live loggers to text.
\<close>

section \<open>Definitions of loggers\<close>

record LogAppenderDefine =
  lad_type :: int
  lad_level :: Level
  lad_formatter :: string
  lad_file :: string

record LogDefine =
  ld_name :: string
  ld_level :: Level
  ld_formatter :: string
  ld_appenders :: "LogAppenderDefine list"

text \<open>
  \<open>std::set<LogDefine>\<close> is ordered by the name alone, and so are \<open>insert\<close> and \<open>find\<close>; \<open>operator==\<close> compares
  every field, which is equality of the records.
\<close>

fun LogDefine_insert :: "LogDefine \<Rightarrow> LogDefine list \<Rightarrow> LogDefine list" where
  "LogDefine_insert d [] = [d]"
| "LogDefine_insert d (e # es) =
     (if ld_name d < ld_name e then d # e # es
      else if ld_name e < ld_name d then e # LogDefine_insert d es
      else e # es)"

definition LogDefine_find :: "LogDefine \<Rightarrow> LogDefine list \<Rightarrow> LogDefine option" where
  "LogDefine_find d ds = find (\<lambda>e. ld_name e = ld_name d) ds"

section \<open>From text\<close>

text \<open>A loop that carries a value.\<close>

fun cfold :: "('x \<Rightarrow> 'a \<Rightarrow> ('s, 'a) comp) \<Rightarrow> 'x list \<Rightarrow> 'a \<Rightarrow> ('s, 'a) comp" where
  "cfold f [] a s = (Inr a, s)"
| "cfold f (x # xs) a s = (case f x a s of (Inl e, s') \<Rightarrow> (Inl e, s') | (Inr a', s') \<Rightarrow> cfold f xs a' s')"

definition opt_field :: "yaml_cpp \<Rightarrow> Node \<Rightarrow> string \<Rightarrow> ('s, Node option) comp" where
  "opt_field Y n key = lift_result (y_get Y n key)"

text \<open>\<open>n[key].as<std::string>()\<close> when the field is defined, a default otherwise.\<close>

definition field_or :: "yaml_cpp \<Rightarrow> Node \<Rightarrow> string \<Rightarrow> string \<Rightarrow> ('s, string) comp" where
  "field_or Y n key dflt =
     bindc (opt_field Y n key) (\<lambda>f. case f of None \<Rightarrow> ret dflt | Some v \<Rightarrow> lift_result (y_as_string Y v))"

definition config_error :: "yaml_cpp \<Rightarrow> string \<Rightarrow> Node \<Rightarrow> ('z, unit) logc" where
  "config_error Y what n = cout (''log config error: '' @ what @ '', '' @ y_emit Y n @ newline)"

text \<open>The body of the loop over the appenders; \<open>None\<close> is \<open>continue\<close>.\<close>

definition LogAppenderDefine_parse :: "yaml_cpp \<Rightarrow> Node \<Rightarrow> ('z, LogAppenderDefine option) logc" where
  "LogAppenderDefine_parse Y a =
     bindc (opt_field Y a ''type'') (\<lambda>t.
       case t of
         None \<Rightarrow> bindc (config_error Y ''appender type is null'' a) (\<lambda>_. ret None)
       | Some tn \<Rightarrow>
           bindc (lift_result (y_as_string Y tn)) (\<lambda>type.
             if type = ''FileLogAppender'' then
               bindc (opt_field Y a ''file'') (\<lambda>f.
                 case f of
                   None \<Rightarrow> bindc (config_error Y ''fileappender file is null'' a) (\<lambda>_. ret None)
                 | Some fn \<Rightarrow>
                     bindc (lift_result (y_as_string Y fn)) (\<lambda>file.
                     bindc (field_or Y a ''formatter'' []) (\<lambda>formatter.
                     ret (Some \<lparr>lad_type = 1, lad_level = UNKNOW, lad_formatter = formatter, lad_file = file\<rparr>))))
             else if type = ''StdoutLogAppender'' then
               bindc (field_or Y a ''formatter'' []) (\<lambda>formatter.
               ret (Some \<lparr>lad_type = 2, lad_level = UNKNOW, lad_formatter = formatter, lad_file = []\<rparr>))
             else bindc (config_error Y ''appender type is invalid'' a) (\<lambda>_. ret None)))"

definition parse_appenders :: "yaml_cpp \<Rightarrow> Node \<Rightarrow> ('z, LogAppenderDefine list) logc" where
  "parse_appenders Y appenders =
     cfold (\<lambda>x acc.
       bindc (lift_result (y_index Y appenders x)) (\<lambda>a.
       bindc (LogAppenderDefine_parse Y a) (\<lambda>lad.
       ret (case lad of None \<Rightarrow> acc | Some d \<Rightarrow> acc @ [d])))) [0..<Node_size appenders] []"

text \<open>The body of the loop over the loggers.\<close>

definition LogDefine_parse :: "yaml_cpp \<Rightarrow> Node \<Rightarrow> ('z, LogDefine option) logc" where
  "LogDefine_parse Y n =
     bindc (opt_field Y n ''name'') (\<lambda>nm.
       case nm of
         None \<Rightarrow> bindc (config_error Y ''name is null'' n) (\<lambda>_. ret None)
       | Some nn \<Rightarrow>
           bindc (lift_result (y_as_string Y nn)) (\<lambda>name.
           bindc (field_or Y n ''level'' []) (\<lambda>level.
           bindc (field_or Y n ''formatter'' []) (\<lambda>formatter.
           bindc (opt_field Y n ''appenders'') (\<lambda>aps.
           bindc (case aps of None \<Rightarrow> ret [] | Some an \<Rightarrow> parse_appenders Y an) (\<lambda>appenders.
           ret (Some \<lparr>ld_name = name, ld_level = LogLevel_FromString level, ld_formatter = formatter,
                      ld_appenders = appenders\<rparr>)))))))"

definition LogDefine_from_string :: "yaml_cpp \<Rightarrow> string \<Rightarrow> ('z, LogDefine list) logc" where
  "LogDefine_from_string Y v =
     bindc (lift_result (y_load Y v)) (\<lambda>node.
     cfold (\<lambda>i m_set.
       bindc (lift_result (y_index Y node i)) (\<lambda>n.
       bindc (LogDefine_parse Y n) (\<lambda>ld.
       ret (case ld of None \<Rightarrow> m_set | Some d \<Rightarrow> LogDefine_insert d m_set)))) [0..<Node_size node] [])"

section \<open>To text\<close>

text \<open>
  A node built by assigning to its fields, from null: the fields in the order of the assignments, and
  still null when there is none. Likewise the sequences built by \<open>push_back\<close>.
\<close>

definition fields_node :: "(string \<times> Node) list \<Rightarrow> Node" where
  "fields_node fs = map_node fs"

definition level_field :: "Level \<Rightarrow> (string \<times> Node) list" where
  "level_field level = (if level \<noteq> UNKNOW then [(''level'', Scalar (LogLevel_ToString level))] else [])"

definition text_field :: "string \<Rightarrow> string \<Rightarrow> (string \<times> Node) list" where
  "text_field key v = (if v \<noteq> [] then [(key, Scalar v)] else [])"

definition LogAppenderDefine_node :: "LogAppenderDefine \<Rightarrow> Node" where
  "LogAppenderDefine_node a =
     fields_node
       ((if lad_type a = 1 then [(''type'', Scalar ''FileLogAppender''), (''file'', Scalar (lad_file a))]
         else if lad_type a = 2 then [(''type'', Scalar ''StdoutLogAppender'')]
         else []) @
        level_field (lad_level a) @ text_field ''formatter'' (lad_formatter a))"

definition LogDefine_node :: "LogDefine \<Rightarrow> Node" where
  "LogDefine_node i =
     fields_node
       ([(''name'', Scalar (ld_name i))] @ level_field (ld_level i) @ text_field ''formatter'' (ld_formatter i) @
        (if ld_appenders i \<noteq> [] then [(''appenders'', Sequence (map LogAppenderDefine_node (ld_appenders i)))] else []))"

definition LogDefine_to_string :: "yaml_cpp \<Rightarrow> LogDefine list \<Rightarrow> string" where
  "LogDefine_to_string Y v = y_emit Y (seq_node (map LogDefine_node v))"

section \<open>Applying a change\<close>

text \<open>One appender of a definition; a type other than 1 and 2 leaves the pointer null.\<close>

definition apply_appender :: "LogDefine \<Rightarrow> addr \<Rightarrow> LogAppenderDefine \<Rightarrow> ('z, unit) logc" where
  "apply_appender i logger a =
     bindc (if lad_type a = 1 then FileLogAppender_new (lad_file a)
            else if lad_type a = 2 then StdoutLogAppender_new
            else raise NullDeref) (\<lambda>ap.
     bindc (LogAppender_setLevel ap (lad_level a)) (\<lambda>_.
     bindc (if lad_formatter a \<noteq> [] then
              bindc (lift_result (LogFormatter_new (lad_formatter a))) (\<lambda>fmt.
                if \<not> lf_error fmt then LogAppender_setFormatter ap (Some fmt)
                else cout (''log.name'' @ ld_name i @ ''appender type='' @ show_int (lad_type a) @
                           '' formatter='' @ lad_formatter a @ '' is invalid'' @ newline))
            else ret ()) (\<lambda>_.
     Logger_addAppender logger ap)))"

text \<open>
  One definition of the new value. The pointer stays null when the definition is in the old value
  unchanged, and is used all the same.
\<close>

definition apply_define :: "LogDefine list \<Rightarrow> LogDefine \<Rightarrow> ('z, unit) logc" where
  "apply_define old_value i =
     bindc (case LogDefine_find i old_value of
              None \<Rightarrow> bindc (LoggerManager_getLogger (ld_name i)) (\<lambda>l. ret (Some l))
            | Some it \<Rightarrow>
                if i \<noteq> it then bindc (LoggerManager_getLogger (ld_name i)) (\<lambda>l. ret (Some l)) else ret None) (\<lambda>logger.
     case logger of
       None \<Rightarrow> raise NullDeref
     | Some l \<Rightarrow>
         bindc (Logger_setLevel l (ld_level i)) (\<lambda>_.
         bindc (if ld_formatter i \<noteq> [] then Logger_setFormatter_str l (ld_formatter i) else ret ()) (\<lambda>_.
         bindc (Logger_clearAppender l) (\<lambda>_.
         for_each (apply_appender i l) (ld_appenders i)))))"

definition remove_define :: "LogDefine list \<Rightarrow> LogDefine \<Rightarrow> ('z, unit) logc" where
  "remove_define new_value i =
     (if LogDefine_find i new_value = None then
        bindc (LoggerManager_getLogger (ld_name i)) (\<lambda>l.
        bindc (Logger_setLevel l Level100) (\<lambda>_.
        Logger_clearAppender l))
      else ret ())"

definition on_logger_conf_changed :: "LogDefine list \<Rightarrow> LogDefine list \<Rightarrow> ('z, unit) logc" where
  "on_logger_conf_changed old_value new_value =
     bindc (log_root INFO ''sylar/log.cc'' 360 ''on_logger_conf_changed'') (\<lambda>_.
     bindc (for_each (apply_define old_value) new_value) (\<lambda>_.
     for_each (remove_define new_value) old_value))"

section \<open>The live loggers as text\<close>

definition own_formatter_field :: "LogAppender \<Rightarrow> (string \<times> Node) list" where
  "own_formatter_field ap =
     (case ap_formatter ap of
        Some lf \<Rightarrow> if ap_hasFormatter ap then [(''formatter'', Scalar (lf_pattern lf))] else []
      | None \<Rightarrow> [])"

definition LogAppender_node :: "LogAppender \<Rightarrow> Node" where
  "LogAppender_node ap =
     fields_node
       ((case ap_class ap of
           FileLogAppender fa \<Rightarrow> [(''type'', Scalar ''FileLogAppender''), (''file'', Scalar (fa_filename fa))]
         | StdoutLogAppender \<Rightarrow> [(''type'', Scalar ''StdoutLogAppender'')]) @
        level_field (ap_level ap) @ own_formatter_field ap)"

text \<open>The virtual method \<open>toYamlString\<close> of the appenders.\<close>

definition LogAppender_toYamlString :: "yaml_cpp \<Rightarrow> addr \<Rightarrow> ('z, string) logc" where
  "LogAppender_toYamlString Y a =
     bindc (get_appender a) (\<lambda>_.
     with_lock (AppenderLock a) (bindc (get_appender a) (\<lambda>ap. ret (y_emit Y (LogAppender_node ap)))))"

definition Logger_toYamlString :: "yaml_cpp \<Rightarrow> addr \<Rightarrow> ('z, string) logc" where
  "Logger_toYamlString Y l =
     bindc (get_logger l) (\<lambda>_.
     with_lock (LoggerLock l) (bindc (get_logger l) (\<lambda>lg.
       bindc (cfold (\<lambda>i acc.
                bindc (LogAppender_toYamlString Y i) (\<lambda>text.
                bindc (lift_result (y_load Y text)) (\<lambda>n. ret (acc @ [n])))) (lg_appenders lg) []) (\<lambda>aps.
       ret (y_emit Y (fields_node
         ([(''name'', Scalar (lg_name lg))] @ level_field (lg_level lg) @
          (case lg_formatter lg of None \<Rightarrow> [] | Some lf \<Rightarrow> [(''formatter'', Scalar (lf_pattern lf))]) @
          (if aps \<noteq> [] then [(''appenders'', Sequence aps)] else []))))))))"

definition LoggerManager_toYamlString :: "yaml_cpp \<Rightarrow> ('z, string) logc" where
  "LoggerManager_toYamlString Y =
     with_lock ManagerLock (\<lambda>s.
       bindc (cfold (\<lambda>p acc.
                bindc (Logger_toYamlString Y (snd p)) (\<lambda>text.
                bindc (lift_result (y_load Y text)) (\<lambda>n. ret (acc @ [n])))) (w_m_loggers s) []) (\<lambda>ns.
       ret (y_emit Y (seq_node ns))) s)"

section \<open>The variable of the logging configuration\<close>

text \<open>
  The functors and the listener of the variable \<open>logs\<close>, whose values are sets of definitions; \<open>what\<close> and
  \<open>place\<close> are the library's.
\<close>

definition log_env ::
    "yaml_cpp \<Rightarrow> (exn \<Rightarrow> string) \<Rightarrow> (string \<times> addr \<Rightarrow> (string \<times> addr) list \<Rightarrow> (string \<times> addr) list)
     \<Rightarrow> LogDefine list cfg_env" where
  "log_env Y what place =
     \<lparr>e_from = (\<lambda>T v. LogDefine_from_string Y v), e_to = (\<lambda>T v. Inr (LogDefine_to_string Y v)),
      e_call = (\<lambda>cb old new. on_logger_conf_changed old new), e_what = what, e_place = place, e_yaml = Y\<rparr>"

text \<open>
  The global \<open>g_log_defines\<close> and the constructor of \<open>LogIniter\<close>; \<open>T\<close> is the name of the type, \<open>empty_set\<close> the
  value \<open>std::set<LogDefine>()\<close>.
\<close>

definition g_log_defines :: "'v cfg_env \<Rightarrow> string \<Rightarrow> 'v \<Rightarrow> ('v, addr) cfgc" where
  "g_log_defines E T empty_set = Config_Lookup E T ''logs'' empty_set ''logs config''"

definition LogIniter_new :: "addr \<Rightarrow> ('v, unit) cfgc" where
  "LogIniter_new i = bindc (ConfigVar_addListener i 0) (\<lambda>_. ret ())"

end
