(* ===== verification/LogConfigOps.thy ===== *)
theory LogConfigOps
  imports LogConfig
begin

text \<open>
  The conversions of the definitions of loggers, what applying them does to the live loggers, and the dump of
  the live loggers.
\<close>

section \<open>Reading back a definition\<close>

text \<open>What is read back of a definition: the level of an appender is printed but never read.\<close>

definition strip_appender :: "LogAppenderDefine \<Rightarrow> LogAppenderDefine" where
  "strip_appender a = a\<lparr>lad_level := UNKNOW, lad_file := (if lad_type a = 1 then lad_file a else [])\<rparr>"

definition strip_define :: "LogDefine \<Rightarrow> LogDefine" where
  "strip_define d = d\<lparr>ld_appenders := map strip_appender (ld_appenders d)\<rparr>"

definition define_ok :: "LogDefine \<Rightarrow> bool" where
  "define_ok d \<longleftrightarrow> ld_level d \<noteq> Level100 \<and> (\<forall>a \<in> set (ld_appenders d). lad_type a = 1 \<or> lad_type a = 2)"

lemma cfold_index:
  assumes "\<And>i acc. i < length xs \<Longrightarrow> f i acc s = (Inr (add (xs ! i) acc), s)"
  shows "cfold f [0..<length xs] acc s = (Inr (fold add xs acc), s)"
proof -
  have "cfold f [k..<k + length ys] acc s = (Inr (fold add ys acc), s)"
    if "\<And>i acc. i < length ys \<Longrightarrow> f (k + i) acc s = (Inr (add (ys ! i) acc), s)" for k ys acc
    using that
  proof (induction ys arbitrary: k acc)
    case (Cons y ys)
    have "f k acc s = (Inr (add y acc), s)" using Cons.prems [of 0 acc] by simp
    moreover have "cfold f [Suc k..<Suc k + length ys] (add y acc) s = (Inr (fold add ys (add y acc)), s)"
    proof (rule Cons.IH)
      show "f (Suc k + i) acc s = (Inr (add (ys ! i) acc), s)" if "i < length ys" for i acc
        using Cons.prems [of "Suc i" acc] that by simp
    qed
    ultimately show ?case
      using upt_conv_Cons [of k "k + length (y # ys)"] by (simp del: upt_Suc)
  qed simp
  from this [of xs 0 acc] assms show ?thesis by simp
qed

lemma map_node_Cons: "map_node (f # fs) = Map (map (\<lambda>(k, n). (Scalar k, n)) (f # fs))"
  by (simp add: map_node_def)

lemmas parse_simps = bindc_def ret_apply lift_result_apply opt_field_def field_or_def fields_node_def map_node_Cons
  level_field_def text_field_def

lemma LogAppenderDefine_roundtrip:
  assumes "yaml_laws Y" and "lad_type a = 1 \<or> lad_type a = 2"
  shows "LogAppenderDefine_parse Y (LogAppenderDefine_node a) s = (Inr (Some (strip_appender a)), s)"
  using assms(2)
  by (cases a)
    (auto simp: LogAppenderDefine_parse_def LogAppenderDefine_node_def parse_simps yaml_lawsD [OF assms(1)]
      strip_appender_def)

lemma parse_appenders_roundtrip:
  assumes "yaml_laws Y" and "\<forall>a \<in> set as. lad_type a = 1 \<or> lad_type a = 2"
  shows "parse_appenders Y (Sequence (map LogAppenderDefine_node as)) s = (Inr (map strip_appender as), s)"
proof -
  have "cfold (\<lambda>x acc.
       bindc (lift_result (y_index Y (Sequence (map LogAppenderDefine_node as)) x)) (\<lambda>a.
       bindc (LogAppenderDefine_parse Y a) (\<lambda>lad.
       ret (case lad of None \<Rightarrow> acc | Some d \<Rightarrow> acc @ [d])))) [0..<length as] [] s =
     (Inr (fold (\<lambda>a acc. acc @ [strip_appender a]) as []), s)"
    using assms(2)
    by (intro cfold_index)
      (simp add: bindc_def lift_result_apply ret_apply yaml_lawsD [OF assms(1)] LogAppenderDefine_roundtrip [OF assms(1)])
  moreover have "fold (\<lambda>a acc. acc @ [strip_appender a]) as xs = xs @ map strip_appender as" for xs
    by (induction as arbitrary: xs) auto
  ultimately show ?thesis by (simp add: parse_appenders_def)
qed

lemma LogDefine_roundtrip_one:
  assumes "yaml_laws Y" and "define_ok d"
  shows "LogDefine_parse Y (LogDefine_node d) s = (Inr (Some (strip_define d)), s)"
  using assms(2)
  by (cases d)
    (auto simp: LogDefine_parse_def LogDefine_node_def parse_simps yaml_lawsD [OF assms(1)] strip_define_def
      FromString_ToString define_ok_def parse_appenders_roundtrip [OF assms(1)])

lemma LogDefine_insert_last: "\<forall>e \<in> set es. ld_name e < ld_name d \<Longrightarrow> LogDefine_insert d es = es @ [d]"
  by (induction es) auto

lemma fold_LogDefine_insert:
  "sorted_wrt (\<lambda>a b. ld_name a < ld_name b) (acc @ ds) \<Longrightarrow> fold LogDefine_insert ds acc = acc @ ds"
  by (induction ds arbitrary: acc) (auto simp: LogDefine_insert_last sorted_wrt_append)

abbreviation defines_sorted :: "LogDefine list \<Rightarrow> bool" where
  "defines_sorted ds \<equiv> sorted_wrt (\<lambda>a b. ld_name a < ld_name b) ds"

lemma strip_name [simp]: "ld_name (strip_define d) = ld_name d"
  by (simp add: strip_define_def)

lemma LogDefine_cast_roundtrip:
  assumes "yaml_laws Y" and "defines_sorted ds" and "\<forall>d \<in> set ds. define_ok d"
  shows "LogDefine_from_string Y (LogDefine_to_string Y ds) s = (Inr (map strip_define ds), s)"
proof (cases "ds = []")
  case True
  with assms(1) show ?thesis
    by (simp add: LogDefine_from_string_def LogDefine_to_string_def bindc_def lift_result_apply yaml_lawsD seq_node_def)
next
  case False
  have "cfold (\<lambda>i m_set.
       bindc (lift_result (y_index Y (Sequence (map LogDefine_node ds)) i)) (\<lambda>n.
       bindc (LogDefine_parse Y n) (\<lambda>ld.
       ret (case ld of None \<Rightarrow> m_set | Some d \<Rightarrow> LogDefine_insert d m_set)))) [0..<length ds] [] s =
     (Inr (fold (\<lambda>d. LogDefine_insert (strip_define d)) ds []), s)"
    using assms(3)
    by (intro cfold_index)
      (simp add: bindc_def lift_result_apply ret_apply yaml_lawsD [OF assms(1)] LogDefine_roundtrip_one [OF assms(1)])
  moreover have "fold (\<lambda>d. LogDefine_insert (strip_define d)) ds [] = map strip_define ds"
    using fold_LogDefine_insert [of "[]" "map strip_define ds"] assms(2)
    by (simp add: fold_map o_def sorted_wrt_map)
  ultimately show ?thesis
    using False assms(1)
    by (simp add: LogDefine_from_string_def LogDefine_to_string_def bindc_def lift_result_apply yaml_lawsD seq_node_def)
qed

section \<open>What applying a definition does\<close>

text \<open>The formatter that a pattern of the configuration stands for: an empty or faulty one stands for none.\<close>

definition pattern_formatter :: "string \<Rightarrow> LogFormatter option" where
  "pattern_formatter val =
     (if val = [] then None
      else case LogFormatter_new val of Inl e \<Rightarrow> None | Inr lf \<Rightarrow> if lf_error lf then None else Some lf)"

text \<open>
  An appender as its definition says, on a logger with the formatter \<open>f\<close>: its level, its class and file, and the formatter
  of its own pattern or else that of the logger.
\<close>

definition matches :: "LogFormatter option \<Rightarrow> LogAppender \<Rightarrow> LogAppenderDefine \<Rightarrow> bool" where
  "matches f ap a \<longleftrightarrow>
     ap_level ap = lad_level a \<and>
     (case ap_class ap of
        StdoutLogAppender \<Rightarrow> lad_type a = 2
      | FileLogAppender fa \<Rightarrow> lad_type a = 1 \<and> fa_filename fa = lad_file a) \<and>
     (case pattern_formatter (lad_formatter a) of
        Some lf \<Rightarrow> ap_formatter ap = Some lf \<and> ap_hasFormatter ap
      | None \<Rightarrow> ap_formatter ap = f \<and> \<not> ap_hasFormatter ap)"

lemma log_ok_held: "log_ok s \<Longrightarrow> w_held s = {}"
  by (simp add: log_ok_def log_inv_def)

lemma new_appender_eval:
  assumes "log_ok s" and "lad_type a = 1 \<or> lad_type a = 2"
  shows "\<exists>c fs. (if lad_type a = 1 then FileLogAppender_new (lad_file a)
        else if lad_type a = 2 then StdoutLogAppender_new else raise NullDeref) s =
     (Inr (length (w_appenders s)),
      s\<lparr>w_appenders := w_appenders s @ [\<lparr>ap_level = DEBUG, ap_formatter = None, ap_hasFormatter = False, ap_class = c\<rparr>],
        w_fs := fs\<rparr>) \<and>
     (case c of
        StdoutLogAppender \<Rightarrow> lad_type a = 2
      | FileLogAppender fa \<Rightarrow> lad_type a = 1 \<and> fa_filename fa = lad_file a)"
proof (cases "lad_type a = 1")
  case True
  obtain st fs where "reopen_stream \<lparr>fa_filename = lad_file a, fa_filestream = ofstream_new, fa_lastTime = 0\<rparr> (w_fs s) = (st, fs)"
    by fastforce
  from FileLogAppender_new_eval [OF log_ok_held [OF assms(1)] this] True show ?thesis
    by (auto intro!: exI [of _ "FileLogAppender \<lparr>fa_filename = lad_file a, fa_filestream = st, fa_lastTime = 0\<rparr>"] exI [of _ fs])
next
  case False
  with assms(2) show ?thesis
    by (auto simp: StdoutLogAppender_new_def intro!: exI [of _ StdoutLogAppender] exI [of _ "w_fs s"])
qed

lemma log_inv_apply_appender:
  assumes "log_inv s"
  shows "log_inv (snd (apply_appender i l a s))"
  unfolding apply_appender_def
  using assms
  by (auto simp: inv_FileLogAppender_new inv_StdoutLogAppender_new inv_LogAppender_setLevel inv_LogAppender_setFormatter
      inv_Logger_addAppender inv_cout raise_apply ret_apply lift_result_apply intro!: bindc_inv [where P = log_inv])

lemma apply_appender_eval:
  assumes ok: "log_ok s" and lg: "logger_at s l = Some lg" and ty: "lad_type a = 1 \<or> lad_type a = 2"
  shows "\<exists>t ap. apply_appender i l a s = (Inr (), t) \<and> log_ok t \<and> matches (lg_formatter lg) ap a \<and>
     w_appenders t = w_appenders s @ [ap] \<and> w_m_loggers t = w_m_loggers s \<and> w_root t = w_root s \<and>
     w_loggers t = (w_loggers s)[l := lg\<lparr>lg_appenders := lg_appenders lg @ [length (w_appenders s)]\<rparr>]"
proof -
  let ?n = "length (w_appenders s)"
  obtain lf where lf: "LogFormatter_new (lad_formatter a) = Inr lf" using LogFormatter_new_total by blast
  define own where "own \<longleftrightarrow> lad_formatter a \<noteq> [] \<and> \<not> lf_error lf"
  obtain c fs where new: "(if lad_type a = 1 then FileLogAppender_new (lad_file a)
        else if lad_type a = 2 then StdoutLogAppender_new else raise NullDeref) s =
     (Inr ?n, s\<lparr>w_appenders := w_appenders s @ [\<lparr>ap_level = DEBUG, ap_formatter = None, ap_hasFormatter = False, ap_class = c\<rparr>], w_fs := fs\<rparr>)"
    and c: "case c of StdoutLogAppender \<Rightarrow> lad_type a = 2 | FileLogAppender fa \<Rightarrow> lad_type a = 1 \<and> fa_filename fa = lad_file a"
    using new_appender_eval [OF ok ty] by metis
  define ap1 where "ap1 = \<lparr>ap_level = lad_level a, ap_formatter = (if own then Some lf else None), ap_hasFormatter = own, ap_class = c\<rparr>"
  define out where "out = (if lad_formatter a \<noteq> [] \<and> lf_error lf then ''log.name'' @ ld_name i @ ''appender type='' @ show_int (lad_type a) @
                           '' formatter='' @ lad_formatter a @ '' is invalid'' @ newline else [])"
  define s3 where "s3 = s\<lparr>w_fs := fs, w_appenders := w_appenders s @ [ap1], w_cout := w_cout s @ out\<rparr>"
  have held: "w_held s = {}" "w_held s3 = {}" using log_ok_held [OF ok] by (simp_all add: s3_def)
  have at: "appender_at s3 ?n = Some ap1" "logger_at s3 l = Some lg"
    using lg by (simp_all add: s3_def appender_at_def logger_at_def split: if_splits)
  have "apply_appender i l a s = Logger_addAppender l ?n s3"
    using new lf held(1)
    by (auto simp: apply_appender_def op_simps LogAppender_setLevel_eval LogAppender_setFormatter_def
        LogAppender_setLevel_def appender_at_def put_appender_def cout_def s3_def ap1_def own_def out_def held_idem)
  also have "\<dots> = (Inr (), put_logger l (lg\<lparr>lg_appenders := lg_appenders lg @ [?n]\<rparr>)
      (put_appender ?n (with_formatter (lg_formatter lg) ap1) s3))"
    using Logger_addAppender_eval [OF at(2,1) held(2)] .
  finally have eval: "apply_appender i l a s = (Inr (), put_logger l (lg\<lparr>lg_appenders := lg_appenders lg @ [?n]\<rparr>)
      (put_appender ?n (with_formatter (lg_formatter lg) ap1) s3))" .
  let ?t = "put_logger l (lg\<lparr>lg_appenders := lg_appenders lg @ [?n]\<rparr>) (put_appender ?n (with_formatter (lg_formatter lg) ap1) s3)"
  have "log_inv ?t" using log_inv_apply_appender [of s i l a] ok eval by (simp add: log_ok_def)
  then have "log_ok ?t" using ok by (simp add: log_ok_def dates_ok_def put_logger_def put_appender_def s3_def)
  moreover have "matches (lg_formatter lg) (with_formatter (lg_formatter lg) ap1) a"
    using c lf by (simp add: matches_def with_formatter_def ap1_def pattern_formatter_def own_def)
  ultimately show ?thesis
    using eval by (auto simp: put_logger_def put_appender_def s3_def)
qed


lemma apply_appenders_loop:
  assumes "log_ok s" and "logger_at s l = Some lg" and "\<forall>a \<in> set as. lad_type a = 1 \<or> lad_type a = 2"
  shows "\<exists>t aps. for_each (apply_appender i l) as s = (Inr (), t) \<and> log_ok t \<and> list_all2 (matches (lg_formatter lg)) aps as \<and>
     w_appenders t = w_appenders s @ aps \<and> w_m_loggers t = w_m_loggers s \<and> w_root t = w_root s \<and>
     w_loggers t = (w_loggers s)[l := lg\<lparr>lg_appenders := lg_appenders lg @
       [length (w_appenders s)..<length (w_appenders s) + length as]\<rparr>]"
  using assms
proof (induction as arbitrary: s lg)
  case Nil
  then have "(w_loggers s)[l := lg] = w_loggers s" by (auto simp: logger_at_eq_Some list_update_same_conv)
  with Nil show ?case by simp
next
  case (Cons a as)
  from apply_appender_eval [OF Cons.prems(1,2), of a i] Cons.prems(3) obtain t ap where
    t: "apply_appender i l a s = (Inr (), t)" "log_ok t" "matches (lg_formatter lg) ap a" "w_appenders t = w_appenders s @ [ap]"
      "w_m_loggers t = w_m_loggers s" "w_root t = w_root s"
      "w_loggers t = (w_loggers s)[l := lg\<lparr>lg_appenders := lg_appenders lg @ [length (w_appenders s)]\<rparr>]"
    by auto
  have at: "logger_at t l = Some (lg\<lparr>lg_appenders := lg_appenders lg @ [length (w_appenders s)]\<rparr>)"
    using Cons.prems(2) by (auto simp: logger_at_eq_Some t(7))
  from Cons.IH [OF t(2) at] Cons.prems(3) obtain u aps where
    u: "for_each (apply_appender i l) as t = (Inr (), u)" "log_ok u" "list_all2 (matches (lg_formatter lg)) aps as"
      "w_appenders u = w_appenders t @ aps" "w_m_loggers u = w_m_loggers t" "w_root u = w_root t"
      "w_loggers u = (w_loggers t)[l := lg\<lparr>lg_appenders := (lg_appenders lg @ [length (w_appenders s)]) @
         [length (w_appenders t)..<length (w_appenders t) + length as]\<rparr>]"
    by auto
  have "[length (w_appenders s)] @ [length (w_appenders t)..<length (w_appenders t) + length as] =
      [length (w_appenders s)..<length (w_appenders s) + length (a # as)]"
    using upt_conv_Cons [of "length (w_appenders s)" "length (w_appenders s) + length (a # as)"] t(4) by simp
  with t u show ?case
    by (intro exI [of _ u] exI [of _ "ap # aps"]) (simp del: upt_Suc)
qed

text \<open>
  Reconfiguring the loggers of a set: other loggers stay as they are and no logger gets an older appender; no appender
  changes its class, file or level, and those on no logger of the set keep their formatters; what is registered stays
  registered.
\<close>

definition lists :: "'z log_world_scheme \<Rightarrow> addr \<Rightarrow> addr set" where
  "lists s k = (case logger_at s k of None \<Rightarrow> {} | Some lg \<Rightarrow> set (lg_appenders lg))"

definition reconf :: "addr set \<Rightarrow> 'z log_world_scheme \<Rightarrow> 'z log_world_scheme \<Rightarrow> bool" where
  "reconf L s t \<longleftrightarrow>
     (\<forall>k lg. logger_at s k = Some lg \<longrightarrow>
        (\<exists>lg'. logger_at t k = Some lg' \<and> lg_name lg' = lg_name lg \<and> (k \<notin> L \<longrightarrow> lg' = lg))) \<and>
     (\<forall>k a. a \<in> lists t k \<longrightarrow> appender_at s a \<noteq> None \<longrightarrow> a \<in> lists s k) \<and>
     (\<forall>a ap. appender_at s a = Some ap \<longrightarrow>
        (\<exists>ap'. appender_at t a = Some ap' \<and> ap_level ap' = ap_level ap \<and> same_class (ap_class ap) (ap_class ap') \<and>
           ((\<forall>k \<in> L. a \<notin> lists s k) \<longrightarrow> ap_formatter ap' = ap_formatter ap \<and> ap_hasFormatter ap' = ap_hasFormatter ap))) \<and>
     map_of (w_m_loggers s) \<subseteq>\<^sub>m map_of (w_m_loggers t)"

lemma reconf_refl: "reconf L s s"
  by (simp add: reconf_def)

lemma map_le_Some: "m \<subseteq>\<^sub>m m' \<Longrightarrow> m k = Some v \<Longrightarrow> m' k = Some v"
  by (metis domI map_le_def)

lemma reconf_registry: "reconf L s t \<Longrightarrow> map_of (w_m_loggers s) \<subseteq>\<^sub>m map_of (w_m_loggers t)"
  by (simp add: reconf_def)

lemma reconf_logger:
  assumes "reconf L s t" and "logger_at s k = Some lg"
  obtains lg' where "logger_at t k = Some lg'" and "lg_name lg' = lg_name lg" and "k \<notin> L \<Longrightarrow> lg' = lg"
  using assms unfolding reconf_def by blast

lemma reconf_lists: "reconf L s t \<Longrightarrow> a \<in> lists t k \<Longrightarrow> appender_at s a \<noteq> None \<Longrightarrow> a \<in> lists s k"
  unfolding reconf_def by blast

lemma reconfE:
  assumes "reconf L s t" and "appender_at s a = Some ap"
  obtains ap' where "appender_at t a = Some ap'" and "ap_level ap' = ap_level ap" and "same_class (ap_class ap) (ap_class ap')"
    and "(\<And>k. k \<in> L \<Longrightarrow> a \<notin> lists s k) \<Longrightarrow> ap_formatter ap' = ap_formatter ap \<and> ap_hasFormatter ap' = ap_hasFormatter ap"
  using assms unfolding reconf_def by blast

lemma reconf_trans:
  assumes st: "reconf L s t" and tu: "reconf L t u"
  shows "reconf L s u"
  unfolding reconf_def
proof (intro conjI allI impI)
  fix a ap assume a: "appender_at s a = Some ap"
  with st obtain ap1 where 1: "appender_at t a = Some ap1" "ap_level ap1 = ap_level ap" "same_class (ap_class ap) (ap_class ap1)"
    "(\<And>k. k \<in> L \<Longrightarrow> a \<notin> lists s k) \<Longrightarrow> ap_formatter ap1 = ap_formatter ap \<and> ap_hasFormatter ap1 = ap_hasFormatter ap"
    by (rule reconfE) blast
  from tu 1(1) obtain ap2 where 2: "appender_at u a = Some ap2" "ap_level ap2 = ap_level ap1" "same_class (ap_class ap1) (ap_class ap2)"
    "(\<And>k. k \<in> L \<Longrightarrow> a \<notin> lists t k) \<Longrightarrow> ap_formatter ap2 = ap_formatter ap1 \<and> ap_hasFormatter ap2 = ap_hasFormatter ap1"
    by (rule reconfE) blast
  have "a \<notin> lists t k" if "a \<notin> lists s k" for k using reconf_lists [OF st, of a k] a that by auto
  with 1 2 show "\<exists>ap'. appender_at u a = Some ap' \<and> ap_level ap' = ap_level ap \<and> same_class (ap_class ap) (ap_class ap') \<and>
      ((\<forall>k \<in> L. a \<notin> lists s k) \<longrightarrow> ap_formatter ap' = ap_formatter ap \<and> ap_hasFormatter ap' = ap_hasFormatter ap)"
    by (intro exI [of _ ap2]) (auto intro: same_class_trans)
next
  fix k a assume a: "a \<in> lists u k" "appender_at s a \<noteq> None"
  then have "appender_at t a \<noteq> None" using st by (auto elim: reconfE)
  then show "a \<in> lists s k" using reconf_lists [OF tu a(1)] reconf_lists [OF st _ a(2)] by blast
next
  fix k lg assume "logger_at s k = Some lg"
  with st obtain lg1 where 1: "logger_at t k = Some lg1" "lg_name lg1 = lg_name lg" "k \<notin> L \<Longrightarrow> lg1 = lg" by (rule reconf_logger) blast
  from tu 1(1) obtain lg2 where "logger_at u k = Some lg2" "lg_name lg2 = lg_name lg1" "k \<notin> L \<Longrightarrow> lg2 = lg1" by (rule reconf_logger) blast
  with 1 show "\<exists>lg'. logger_at u k = Some lg' \<and> lg_name lg' = lg_name lg \<and> (k \<notin> L \<longrightarrow> lg' = lg)" by auto
next
  show "map_of (w_m_loggers s) \<subseteq>\<^sub>m map_of (w_m_loggers u)"
    using st tu unfolding reconf_def by (blast intro: map_le_trans)
qed

lemma reconf_mono:
  assumes "reconf L s t" and "L \<subseteq> L'"
  shows "reconf L' s t"
  unfolding reconf_def
proof (intro conjI allI impI)
  fix a ap assume "appender_at s a = Some ap"
  with assms(1) show "\<exists>ap'. appender_at t a = Some ap' \<and> ap_level ap' = ap_level ap \<and> same_class (ap_class ap) (ap_class ap') \<and>
      ((\<forall>k \<in> L'. a \<notin> lists s k) \<longrightarrow> ap_formatter ap' = ap_formatter ap \<and> ap_hasFormatter ap' = ap_hasFormatter ap)"
    by (rule reconfE) (use assms(2) in blast)
next
  fix k lg assume "logger_at s k = Some lg"
  with assms(1) show "\<exists>lg'. logger_at t k = Some lg' \<and> lg_name lg' = lg_name lg \<and> (k \<notin> L' \<longrightarrow> lg' = lg)"
    by (rule reconf_logger) (use assms(2) in blast)
qed (use assms(1) reconf_lists [OF assms(1)] in \<open>auto simp: reconf_registry\<close>)

lemma lists_put_logger: "lists (put_logger l lg s) k = (if k = l \<and> logger_at s l \<noteq> None then set (lg_appenders lg) else lists s k)"
  by (auto simp: lists_def logger_at_put_logger)

lemma reconf_put_logger:
  assumes "logger_at s l = Some lg0" and "lg_name lg = lg_name lg0" and "set (lg_appenders lg) \<subseteq> set (lg_appenders lg0)"
  shows "reconf {l} s (put_logger l lg s)"
  using assms by (auto simp: reconf_def lists_put_logger logger_at_put_logger) (auto simp: lists_def)

lemma reconf_cout: "reconf L s (s\<lparr>w_cout := c\<rparr>)"
  by (simp add: reconf_def lists_def)

lemma reconf_frame:
  assumes "log_frame s t"
  shows "reconf L s t"
  unfolding reconf_def lists_def log_frame_logger_at [OF assms]
proof (intro conjI allI impI)
  show "\<exists>ap'. appender_at t a = Some ap' \<and> ap_level ap' = ap_level ap \<and> same_class (ap_class ap) (ap_class ap') \<and>
      ((\<forall>k \<in> L. a \<notin> (case logger_at s k of None \<Rightarrow> {} | Some lg \<Rightarrow> set (lg_appenders lg))) \<longrightarrow>
        ap_formatter ap' = ap_formatter ap \<and> ap_hasFormatter ap' = ap_hasFormatter ap)"
    if "appender_at s a = Some ap" for a ap
    using log_frame_appender [OF assms that] by (metis same_settings_def)
qed (use assms in \<open>simp_all add: log_frame_def\<close>)


text \<open>The formatter of a logger with the formatter \<open>f\<close> after \<open>setFormatter\<close> with a pattern.\<close>

definition set_pattern :: "string \<Rightarrow> LogFormatter option \<Rightarrow> LogFormatter option" where
  "set_pattern val f = (case pattern_formatter val of Some lf \<Rightarrow> Some lf | None \<Rightarrow> f)"

lemma reconf_setFormatter_str:
  assumes ok: "log_ok s" and lg: "logger_at s l = Some lg" and val: "val \<noteq> []"
  shows "\<exists>t. Logger_setFormatter_str l val s = (Inr (), t) \<and> log_ok t \<and> reconf {l} s t \<and>
     logger_at t l = Some (lg\<lparr>lg_formatter := set_pattern val (lg_formatter lg)\<rparr>) \<and> w_root t = w_root s \<and> w_m_loggers t = w_m_loggers s \<and>
     length (w_appenders t) = length (w_appenders s)"
proof -
  obtain lf where lf: "LogFormatter_new val = Inr lf" using LogFormatter_new_total by blast
  have inv: "log_inv s" using ok by (simp add: log_ok_def)
  show ?thesis
  proof (cases "lf_error lf")
    case True
    with lf lg ok val show ?thesis
      by (auto simp: Logger_setFormatter_str_def op_simps cout_def reconf_cout set_pattern_def pattern_formatter_def
          intro!: log_ok_frame [of s])
  next
    case False
    from Logger_setFormatter_eval [OF lg, of "Some lf"] log_inv_logger_ok [OF inv lg] log_ok_held [OF ok]
    obtain t where t: "Logger_setFormatter l (Some lf) s = (Inr (), t)"
        "t = put_logger l (lg\<lparr>lg_formatter := Some lf\<rparr>) (s\<lparr>w_appenders := w_appenders t\<rparr>)"
      and at: "\<And>a. appender_at t a = map_option (\<lambda>ap.
        if a \<in> set (lg_appenders lg) \<and> \<not> ap_hasFormatter ap then ap\<lparr>ap_formatter := Some lf\<rparr> else ap) (appender_at s a)"
      by (fastforce simp: logger_ok_def)
    have lgs: "w_loggers t = (w_loggers s)[l := lg\<lparr>lg_formatter := Some lf\<rparr>]" "w_root t = w_root s"
      "w_m_loggers t = w_m_loggers s" "w_strftime t = w_strftime s"
      by (subst t(2), simp add: put_logger_def)+
    have "log_inv t" using inv_Logger_setFormatter [OF inv, of l lf] t(1) by simp
    then have "log_ok t" using ok lgs(4) by (simp add: log_ok_def dates_ok_def)
    moreover have "lists t = lists s"
      using lg lgs(1) by (auto simp: fun_eq_iff lists_def logger_at_def nth_list_update split: if_splits option.splits)
    moreover have "reconf {l} s t"
      unfolding reconf_def \<open>lists t = lists s\<close> using lg lgs at
      by (auto simp: logger_at_def lists_def nth_list_update split: if_splits)
    moreover have "length (w_appenders t) = length (w_appenders s)"
    proof -
      have "a < length (w_appenders t) \<longleftrightarrow> a < length (w_appenders s)" for a
        using at [of a] by (auto simp: appender_at_def split: if_splits)
      then show ?thesis by (meson linorder_neqE_nat less_irrefl)
    qed
    moreover have "logger_at t l = Some (lg\<lparr>lg_formatter := Some lf\<rparr>)"
      using lg lgs(1) by (auto simp: logger_at_eq_Some)
    ultimately show ?thesis
      using t(1) False lf lgs val by (auto simp: Logger_setFormatter_str_def op_simps set_pattern_def pattern_formatter_def)
  qed
qed

text \<open>The formatter of the logger of a name, and of the one \<open>getLogger\<close> would create for it.\<close>

definition formatter_of :: "'z log_world_scheme \<Rightarrow> string \<Rightarrow> LogFormatter option" where
  "formatter_of s name =
     (case map_of (w_m_loggers s) name of
        None \<Rightarrow> Some default_formatter
      | Some l \<Rightarrow> (case logger_at s l of None \<Rightarrow> None | Some lg \<Rightarrow> lg_formatter lg))"

lemma getLogger_eval:
  assumes ok: "log_ok s"
  shows "\<exists>t l lg. LoggerManager_getLogger name s = (Inr l, t) \<and> log_ok t \<and> reconf {} s t \<and>
     map_of (w_m_loggers t) = (map_of (w_m_loggers s))(name \<mapsto> l) \<and> logger_at t l = Some lg \<and> lg_formatter lg = formatter_of s name \<and>
     w_root t = w_root s"
proof -
  have inv: "log_inv s" "w_held s = {}" using ok by (simp_all add: log_ok_def log_inv_def)
  show ?thesis
  proof (cases "map_of (w_m_loggers s) name")
    case (Some l)
    then obtain lg where "logger_at s l = Some lg"
      using inv by (fastforce simp: log_inv_def wf_log_def logger_name_def)
    with Some inv ok show ?thesis by (auto simp: LoggerManager_getLogger_known reconf_refl formatter_of_def fun_upd_triv)
  next
    case None
    note ev = LoggerManager_getLogger_fresh [OF inv(2) None]
    let ?t = "s\<lparr>w_loggers := w_loggers s @ [fresh_logger name (Some (w_root s))],
        w_m_loggers := omap_put name (length (w_loggers s)) (w_m_loggers s)\<rparr>"
    have "log_inv ?t" using inv_LoggerManager_getLogger [OF inv(1), of name] ev by simp
    then have okt: "log_ok ?t" using ok by (simp add: log_ok_def dates_ok_def)
    have "lists ?t = lists s" by (auto simp: fun_eq_iff lists_def logger_at_def nth_append fresh_logger_def split: if_splits)
    then have "reconf {} s ?t"
      using None om.put_extends [OF None] by (auto simp: reconf_def logger_at_def appender_at_def nth_append split: if_splits)
    then show ?thesis
      using ev okt None by (auto simp: logger_at_def formatter_of_def fresh_logger_def om.find_put intro!: exI [of _ ?t])
  qed
qed

text \<open>A registered logger satisfies a property that reconfiguring other loggers keeps.\<close>

definition stands :: "('z log_world_scheme \<Rightarrow> Logger \<Rightarrow> bool) \<Rightarrow> 'z log_world_scheme \<Rightarrow> string \<Rightarrow> bool" where
  "stands Q s name \<longleftrightarrow> (\<exists>l lg. map_of (w_m_loggers s) name = Some l \<and> logger_at s l = Some lg \<and> Q s lg)"

definition reconf_stable :: "('z log_world_scheme \<Rightarrow> Logger \<Rightarrow> bool) \<Rightarrow> bool" where
  "reconf_stable Q \<longleftrightarrow> (\<forall>L s t lg. reconf L s t \<longrightarrow> (\<forall>k \<in> L. logger_at s k \<noteq> Some lg) \<longrightarrow> Q s lg \<longrightarrow> Q t lg)"

lemma reconf_stableD:
  "reconf_stable Q \<Longrightarrow> reconf L s t \<Longrightarrow> (\<And>k. k \<in> L \<Longrightarrow> logger_at s k \<noteq> Some lg) \<Longrightarrow> Q s lg \<Longrightarrow> Q t lg"
  unfolding reconf_stable_def by blast

text \<open>No other logger writes to the appenders of a logger.\<close>

definition own_appenders :: "'z log_world_scheme \<Rightarrow> Logger \<Rightarrow> bool" where
  "own_appenders s lg \<longleftrightarrow> (\<forall>k. \<forall>a \<in> lists s k. a \<in> set (lg_appenders lg) \<longrightarrow> logger_at s k = Some lg)"

text \<open>
  A logger as its definition says, where \<open>f\<close> is the formatter it had before: its level, its formatter, and its appenders in
  order, which are its own.
\<close>

definition conf_as :: "LogFormatter option \<Rightarrow> LogDefine \<Rightarrow> 'z log_world_scheme \<Rightarrow> Logger \<Rightarrow> bool" where
  "conf_as f d s lg \<longleftrightarrow>
     lg_level lg = ld_level d \<and> lg_formatter lg = set_pattern (ld_formatter d) f \<and>
     list_all2 (\<lambda>a ad. \<exists>ap. appender_at s a = Some ap \<and> matches (lg_formatter lg) ap ad) (lg_appenders lg) (ld_appenders d) \<and>
     own_appenders s lg"

definition silenced :: "'z log_world_scheme \<Rightarrow> Logger \<Rightarrow> bool" where
  "silenced s lg \<longleftrightarrow> lg_level lg = Level100 \<and> lg_appenders lg = []"

lemma matches_same:
  "matches f ap a \<Longrightarrow> ap_level ap' = ap_level ap \<Longrightarrow> same_class (ap_class ap) (ap_class ap') \<Longrightarrow>
     ap_formatter ap' = ap_formatter ap \<and> ap_hasFormatter ap' = ap_hasFormatter ap \<Longrightarrow> matches f ap' a"
  by (cases "ap_class ap"; cases "ap_class ap'") (auto simp: matches_def split: option.splits)

lemma stable_conf_as: "reconf_stable (conf_as f d)"
  unfolding reconf_stable_def
proof (intro allI impI)
  fix L s t lg assume rc: "reconf L s t" and L: "\<forall>k \<in> L. logger_at s k \<noteq> Some lg" and c: "conf_as f d s lg"
  have own: "logger_at s k = Some lg" if "a \<in> lists s k" "a \<in> set (lg_appenders lg)" for k a
    using c that by (auto simp: conf_as_def own_appenders_def)
  have ex: "\<exists>ap'. appender_at t a = Some ap' \<and> matches (lg_formatter lg) ap' ad"
    if "a \<in> set (lg_appenders lg)" "appender_at s a = Some ap" "matches (lg_formatter lg) ap ad" for a ap ad
    using rc that(2)
  proof (rule reconfE)
    fix ap' assume "appender_at t a = Some ap'" "ap_level ap' = ap_level ap" "same_class (ap_class ap) (ap_class ap')"
      and "(\<And>k. k \<in> L \<Longrightarrow> a \<notin> lists s k) \<Longrightarrow> ap_formatter ap' = ap_formatter ap \<and> ap_hasFormatter ap' = ap_hasFormatter ap"
    with L own that show ?thesis by (blast intro: matches_same)
  qed
  have "list_all2 (\<lambda>a ad. \<exists>ap. appender_at t a = Some ap \<and> matches (lg_formatter lg) ap ad) (lg_appenders lg) (ld_appenders d)"
    using c ex by (auto simp: conf_as_def elim!: list.rel_mono_strong)
  moreover have "own_appenders t lg"
    unfolding own_appenders_def
  proof (intro allI ballI impI)
    fix k a assume a: "a \<in> lists t k" "a \<in> set (lg_appenders lg)"
    then have "appender_at s a \<noteq> None"
      using c unfolding conf_as_def by (auto simp: list_all2_conv_all_nth in_set_conv_nth)
    with a have k: "logger_at s k = Some lg" using own reconf_lists [OF rc] by blast
    from rc k obtain lg' where "logger_at t k = Some lg'" "k \<notin> L \<Longrightarrow> lg' = lg" by (rule reconf_logger) blast
    with L k show "logger_at t k = Some lg" by blast
  qed
  ultimately show "conf_as f d t lg" using c by (simp add: conf_as_def)
qed

lemma stable_silenced: "reconf_stable silenced"
  by (simp add: reconf_stable_def silenced_def)

lemma log_ok_names: "log_ok s \<Longrightarrow> map_of (w_m_loggers s) name = Some l \<Longrightarrow> logger_name s l = Some name"
  by (auto simp: log_ok_def log_inv_def wf_log_def)

lemma stands_reconf:
  assumes "stands Q s name" and "reconf_stable Q" and "reconf {k} s t" and "log_ok s" and "log_ok t"
    and "map_of (w_m_loggers t) name' = Some k" and "name' \<noteq> name"
  shows "stands Q t name"
proof -
  from assms(1) obtain l lg where l: "map_of (w_m_loggers s) name = Some l" "logger_at s l = Some lg" "Q s lg"
    by (auto simp: stands_def)
  have reg: "map_of (w_m_loggers t) name = Some l" using l(1) assms(3) by (auto simp: reconf_def map_le_def dom_def)
  then have "l \<noteq> k" using log_ok_names [OF assms(5) reg] log_ok_names [OF assms(5,6)] assms(7) by auto
  then have "logger_at t l = Some lg" using l(2) by (auto elim: reconf_logger [OF assms(3)])
  moreover have "logger_at s k \<noteq> Some lg"
  proof
    assume k: "logger_at s k = Some lg"
    with assms(3) obtain lg' where "logger_at t k = Some lg'" "lg_name lg' = lg_name lg" by (rule reconf_logger)
    then show False using log_ok_names [OF assms(5,6)] log_ok_names [OF assms(4) l(1)] l(2) assms(7) by (simp add: logger_name_def)
  qed
  ultimately show ?thesis using reg reconf_stableD [OF assms(2,3) _ l(3)] by (auto simp: stands_def)
qed

text \<open>The formatters of the loggers of other names stay.\<close>

lemma formatter_of_other:
  assumes "reconf {l} s t" and "log_ok t" and "map_of (w_m_loggers t) = (map_of (w_m_loggers s))(name \<mapsto> l)" and "nm \<noteq> name"
    and "log_ok s"
  shows "formatter_of t nm = formatter_of s nm"
proof (cases "map_of (w_m_loggers s) nm")
  case None
  with assms(3,4) show ?thesis by (simp add: formatter_of_def)
next
  case (Some k)
  then obtain lg where k: "logger_at s k = Some lg" using log_ok_names [OF assms(5) Some] by (auto simp: logger_name_def)
  have t: "map_of (w_m_loggers t) nm = Some k" "map_of (w_m_loggers t) name = Some l" using assms(3,4) Some by simp_all
  then have "k \<noteq> l" using log_ok_names [OF assms(2) t(1)] log_ok_names [OF assms(2) t(2)] assms(4) by auto
  then have "logger_at t k = Some lg" using k by (auto elim: reconf_logger [OF assms(1)])
  with Some t(1) k show ?thesis by (simp add: formatter_of_def)
qed

lemma apply_define_eval:
  assumes ok: "log_ok s" and ty: "\<forall>a \<in> set (ld_appenders d). lad_type a = 1 \<or> lad_type a = 2"
    and new: "LogDefine_find d old \<noteq> Some d"
  shows "\<exists>t l. apply_define old d s = (Inr (), t) \<and> log_ok t \<and> reconf {l} s t \<and>
     map_of (w_m_loggers t) = (map_of (w_m_loggers s))(ld_name d \<mapsto> l) \<and>
     stands (conf_as (formatter_of s (ld_name d)) d) t (ld_name d)"
proof -
  from getLogger_eval [OF ok, of "ld_name d"] obtain s1 l lg where
    s1: "LoggerManager_getLogger (ld_name d) s = (Inr l, s1)" "log_ok s1" "reconf {} s s1"
      "map_of (w_m_loggers s1) = (map_of (w_m_loggers s))(ld_name d \<mapsto> l)" "logger_at s1 l = Some lg"
      "lg_formatter lg = formatter_of s (ld_name d)"
    by blast
  define s2 where "s2 = put_logger l (lg\<lparr>lg_level := ld_level d\<rparr>) s1"
  have s2: "Logger_setLevel l (ld_level d) s1 = (Inr (), s2)" "logger_at s2 l = Some (lg\<lparr>lg_level := ld_level d\<rparr>)"
    "reconf {l} s1 s2" "w_m_loggers s2 = w_m_loggers s1"
    using Logger_setLevel_eval [OF s1(5), of "ld_level d"] s1(5) reconf_put_logger [OF s1(5), of "lg\<lparr>lg_level := ld_level d\<rparr>"]
    by (simp_all add: s2_def logger_at_put_logger)
  have "log_inv s2" using inv_Logger_setLevel [of s1 l "ld_level d"] s1(2) s2(1) by (simp add: log_ok_def)
  then have ok2: "log_ok s2" using s1(2) by (simp add: log_ok_def dates_ok_def s2_def put_logger_def)
  let ?f = "set_pattern (ld_formatter d) (lg_formatter lg)"
  obtain s3 where s3: "(if ld_formatter d \<noteq> [] then Logger_setFormatter_str l (ld_formatter d) else ret ()) s2 = (Inr (), s3)"
      "log_ok s3" "reconf {l} s2 s3" "logger_at s3 l = Some (lg\<lparr>lg_level := ld_level d, lg_formatter := ?f\<rparr>)"
      "w_m_loggers s3 = w_m_loggers s2"
  proof (cases "ld_formatter d = []")
    case True
    then have "?f = lg_formatter lg" by (simp add: set_pattern_def pattern_formatter_def)
    with True show ?thesis
      using that [of s2] ok2 s2(2) reconf_refl [of "{l}" s2] by (simp add: ret_apply)
  next
    case False
    then show ?thesis
      using that reconf_setFormatter_str [OF ok2 s2(2), of "ld_formatter d"] by auto
  qed
  define lg4 where "lg4 = lg\<lparr>lg_level := ld_level d, lg_formatter := ?f, lg_appenders := []\<rparr>"
  define s4 where "s4 = put_logger l lg4 s3"
  have s4: "Logger_clearAppender l s3 = (Inr (), s4)" "logger_at s4 l = Some lg4" "reconf {l} s3 s4"
    "w_m_loggers s4 = w_m_loggers s3"
    using Logger_clearAppender_eval [OF s3(4)] s3(4) reconf_put_logger [OF s3(4), of lg4]
    by (simp_all add: s4_def lg4_def logger_at_put_logger)
  have "log_inv s4" using inv_Logger_clearAppender [of s3 l] s3(2) s4(1) by (simp add: log_ok_def)
  then have ok4: "log_ok s4" using s3(2) by (simp add: log_ok_def dates_ok_def s4_def put_logger_def)
  define n where "n = length (w_appenders s4)"
  define lg5 where "lg5 = lg4\<lparr>lg_appenders := [n..<n + length (ld_appenders d)]\<rparr>"
  from apply_appenders_loop [OF ok4 s4(2) ty, of d] obtain t aps where
    t: "for_each (apply_appender d l) (ld_appenders d) s4 = (Inr (), t)" "log_ok t" "list_all2 (matches ?f) aps (ld_appenders d)"
      "w_appenders t = w_appenders s4 @ aps" "w_m_loggers t = w_m_loggers s4" "w_loggers t = (w_loggers s4)[l := lg5]"
    by (auto simp: lg4_def lg5_def n_def)
  have at: "logger_at t l = Some lg5" using s4(2) t(6) by (auto simp: logger_at_eq_Some)
  have other: "logger_at t k = logger_at s4 k" if "k \<noteq> l" for k using that t(6) by (simp add: logger_at_def)
  have old_lists: "a < n" if "a \<in> lists t k" "k \<noteq> l" for a k
  proof -
    from that other obtain lk where "logger_at s4 k = Some lk" "a \<in> set (lg_appenders lk)"
      by (auto simp: lists_def split: option.splits)
    with log_inv_logger_ok [of s4 k lk] ok4 show ?thesis by (auto simp: log_ok_def logger_ok_def appender_at_def n_def split: if_splits)
  qed
  have "reconf {l} s4 t"
    unfolding reconf_def
  proof (intro conjI allI impI)
    fix k a assume a: "a \<in> lists t k" "appender_at s4 a \<noteq> None"
    then have "a < n" by (simp add: appender_at_def n_def split: if_splits)
    then have "k \<noteq> l" using a(1) at by (auto simp: lists_def lg5_def)
    with a(1) other show "a \<in> lists s4 k" by (simp add: lists_def)
  next
    fix k lg assume "logger_at s4 k = Some lg"
    then show "\<exists>lg'. logger_at t k = Some lg' \<and> lg_name lg' = lg_name lg \<and> (k \<notin> {l} \<longrightarrow> lg' = lg)"
      using at other s4(2) by (cases "k = l") (auto simp: lg5_def)
  qed (use t(4,5) in \<open>auto simp: appender_at_def nth_append split: if_splits\<close>)
  then have rc: "reconf {l} s t"
    using reconf_mono [OF s1(3)] s2(3) s3(3) s4(3) by (blast intro: reconf_trans)
  have reg: "map_of (w_m_loggers t) = (map_of (w_m_loggers s))(ld_name d \<mapsto> l)" using s1(4) s2(4) s3(5) s4(4) t(5) by simp
  have "list_all2 (\<lambda>a ad. \<exists>ap. appender_at t a = Some ap \<and> matches ?f ap ad) [n..<n + length (ld_appenders d)] (ld_appenders d)"
    using t(3,4) by (auto simp: list_all2_conv_all_nth appender_at_def nth_append n_def)
  moreover have "own_appenders t lg5"
    using old_lists at by (fastforce simp: own_appenders_def lg5_def)
  ultimately have "conf_as (formatter_of s (ld_name d)) d t lg5"
    using s1(6) by (simp add: conf_as_def lg5_def lg4_def)
  then have "stands (conf_as (formatter_of s (ld_name d)) d) t (ld_name d)"
    using reg at by (simp add: stands_def)
  moreover have "apply_define old d s = (Inr (), t)"
    using new s1(1) s2(1) s3(1) s4(1) t(1)
    by (auto simp: apply_define_def bindc_def ret_apply split: option.splits)
  ultimately show ?thesis using t(2) rc reg by blast
qed

lemma apply_loop:
  assumes "log_ok s" and "distinct (map ld_name ds)"
    and "\<forall>d \<in> set ds. LogDefine_find d old \<noteq> Some d \<and> (\<forall>a \<in> set (ld_appenders d). lad_type a = 1 \<or> lad_type a = 2)"
  shows "\<exists>t. for_each (apply_define old) ds s = (Inr (), t) \<and> log_ok t \<and>
     (\<forall>d \<in> set ds. stands (conf_as (formatter_of s (ld_name d)) d) t (ld_name d)) \<and>
     map_of (w_m_loggers s) \<subseteq>\<^sub>m map_of (w_m_loggers t) \<and>
     (\<forall>Q name. reconf_stable Q \<and> stands Q s name \<and> name \<notin> ld_name ` set ds \<longrightarrow> stands Q t name)"
  using assms
proof (induction ds arbitrary: s)
  case (Cons d ds)
  from apply_define_eval [OF Cons.prems(1), of d old] Cons.prems(3) obtain s1 l where
    s1: "apply_define old d s = (Inr (), s1)" "log_ok s1" "reconf {l} s s1"
      "map_of (w_m_loggers s1) = (map_of (w_m_loggers s))(ld_name d \<mapsto> l)"
      "stands (conf_as (formatter_of s (ld_name d)) d) s1 (ld_name d)" by auto
  from Cons.IH [OF s1(2)] Cons.prems(2,3) obtain t where
    t: "for_each (apply_define old) ds s1 = (Inr (), t)" "log_ok t"
      "\<forall>d \<in> set ds. stands (conf_as (formatter_of s1 (ld_name d)) d) t (ld_name d)"
      "map_of (w_m_loggers s1) \<subseteq>\<^sub>m map_of (w_m_loggers t)"
      "\<And>Q name. reconf_stable Q \<Longrightarrow> stands Q s1 name \<Longrightarrow> name \<notin> ld_name ` set ds \<Longrightarrow> stands Q t name"
    by auto
  have "formatter_of s1 (ld_name e) = formatter_of s (ld_name e)" if "e \<in> set ds" for e
    using that Cons.prems(2) by (intro formatter_of_other [OF s1(3,2,4) _ Cons.prems(1)]) (auto simp: image_iff)
  with t(3) have rest: "\<forall>d \<in> set ds. stands (conf_as (formatter_of s (ld_name d)) d) t (ld_name d)" by simp
  have "stands (conf_as (formatter_of s (ld_name d)) d) t (ld_name d)"
    using t(5) [OF stable_conf_as s1(5)] Cons.prems(2) by simp
  moreover have "stands Q t name" if "reconf_stable Q" "stands Q s name" "name \<notin> ld_name ` set (d # ds)" for Q name
    using t(5) [OF that(1) stands_reconf [OF that(2,1) s1(3) Cons.prems(1) s1(2), of "ld_name d"]] that(3) s1(4) by auto
  moreover have "map_of (w_m_loggers s) \<subseteq>\<^sub>m map_of (w_m_loggers t)" using map_le_trans [OF reconf_registry [OF s1(3)] t(4)] .
  ultimately show ?case using s1(1) t(1,2) rest by auto
qed simp

lemma remove_define_eval:
  assumes ok: "log_ok s"
  shows "\<exists>t. remove_define new d s = (Inr (), t) \<and> log_ok t \<and> map_of (w_m_loggers s) \<subseteq>\<^sub>m map_of (w_m_loggers t) \<and>
     (LogDefine_find d new = None \<longrightarrow> stands silenced t (ld_name d)) \<and>
     (\<forall>Q name. reconf_stable Q \<and> stands Q s name \<and> (LogDefine_find d new = None \<longrightarrow> name \<noteq> ld_name d) \<longrightarrow> stands Q t name)"
proof (cases "LogDefine_find d new = None")
  case False
  with ok show ?thesis by (auto simp: remove_define_def ret_apply)
next
  case True
  from getLogger_eval [OF ok, of "ld_name d"] obtain s1 l lg where
    s1: "LoggerManager_getLogger (ld_name d) s = (Inr l, s1)" "log_ok s1" "reconf {} s s1"
      "map_of (w_m_loggers s1) (ld_name d) = Some l" "logger_at s1 l = Some lg"
    by auto
  define s2 where "s2 = put_logger l (lg\<lparr>lg_level := Level100\<rparr>) s1"
  define t where "t = put_logger l (lg\<lparr>lg_level := Level100, lg_appenders := []\<rparr>) s1"
  have s2: "Logger_setLevel l Level100 s1 = (Inr (), s2)" "logger_at s2 l = Some (lg\<lparr>lg_level := Level100\<rparr>)"
    using Logger_setLevel_eval [OF s1(5), of Level100] s1(5) by (simp_all add: s2_def logger_at_put_logger)
  then have t: "Logger_clearAppender l s2 = (Inr (), t)"
    using Logger_clearAppender_eval [OF s2(2)] by (simp add: t_def s2_def put_logger_def)
  have "log_inv t"
    using inv_Logger_setLevel [of s1 l Level100] inv_Logger_clearAppender [of s2 l] s1(2) s2(1) t by (simp add: log_ok_def)
  then have okt: "log_ok t" using s1(2) by (simp add: log_ok_def dates_ok_def t_def put_logger_def)
  have "reconf {l} s1 t" unfolding t_def by (rule reconf_put_logger [OF s1(5)]) simp_all
  then have rc: "reconf {l} s t" using reconf_mono [OF s1(3), of "{l}"] reconf_trans by blast
  have reg: "map_of (w_m_loggers t) (ld_name d) = Some l" using s1(4) by (simp add: t_def)
  have "stands silenced t (ld_name d)"
    using reg s1(5) by (auto simp: stands_def silenced_def t_def logger_at_put_logger)
  moreover have "stands Q t name" if "reconf_stable Q" "stands Q s name" "name \<noteq> ld_name d" for Q name
    using stands_reconf [OF that(2,1) rc ok okt reg] that(3) by simp
  ultimately show ?thesis
    using True s1(1) s2(1) t okt reconf_registry [OF rc] by (auto simp: remove_define_def bindc_def)
qed

lemma remove_loop:
  assumes "log_ok s" and "distinct (map ld_name ds)"
  shows "\<exists>t. for_each (remove_define new) ds s = (Inr (), t) \<and> log_ok t \<and> map_of (w_m_loggers s) \<subseteq>\<^sub>m map_of (w_m_loggers t) \<and>
     (\<forall>d \<in> set ds. LogDefine_find d new = None \<longrightarrow> stands silenced t (ld_name d)) \<and>
     (\<forall>Q name. reconf_stable Q \<and> stands Q s name \<and> (\<forall>d \<in> set ds. LogDefine_find d new = None \<longrightarrow> name \<noteq> ld_name d) \<longrightarrow> stands Q t name)"
  using assms
proof (induction ds arbitrary: s)
  case (Cons d ds)
  from remove_define_eval [OF Cons.prems(1), of new d] obtain s1 where
    s1: "remove_define new d s = (Inr (), s1)" "log_ok s1" "map_of (w_m_loggers s) \<subseteq>\<^sub>m map_of (w_m_loggers s1)"
      "LogDefine_find d new = None \<longrightarrow> stands silenced s1 (ld_name d)"
      "\<forall>Q name. reconf_stable Q \<and> stands Q s name \<and> (LogDefine_find d new = None \<longrightarrow> name \<noteq> ld_name d) \<longrightarrow> stands Q s1 name"
    by (elim exE conjE)
  from Cons.IH [OF s1(2)] Cons.prems(2) obtain t where
    t: "for_each (remove_define new) ds s1 = (Inr (), t)" "log_ok t" "map_of (w_m_loggers s1) \<subseteq>\<^sub>m map_of (w_m_loggers t)"
      "\<forall>d \<in> set ds. LogDefine_find d new = None \<longrightarrow> stands silenced t (ld_name d)"
      "\<And>Q name. reconf_stable Q \<Longrightarrow> stands Q s1 name \<Longrightarrow> (\<forall>d \<in> set ds. LogDefine_find d new = None \<longrightarrow> name \<noteq> ld_name d) \<Longrightarrow> stands Q t name"
    by auto
  have "stands silenced t (ld_name d)" if "LogDefine_find d new = None"
    using s1(4) that t(5) [OF stable_silenced] Cons.prems(2) by force
  moreover have "map_of (w_m_loggers s) \<subseteq>\<^sub>m map_of (w_m_loggers t)" using map_le_trans [OF s1(3) t(3)] .
  ultimately show ?case using s1(1,5) t(1,2,4,5) by auto
qed simp

lemma find_None_names: "LogDefine_find d ds = None \<longleftrightarrow> ld_name d \<notin> ld_name ` set ds"
  by (simp add: LogDefine_find_def find_None_iff image_iff) metis

lemma sorted_names_distinct: "defines_sorted ds \<Longrightarrow> distinct (map ld_name ds)"
  by (induction ds) auto

lemma find_member: "defines_sorted ds \<Longrightarrow> d \<in> set ds \<Longrightarrow> LogDefine_find d ds = Some d"
  by (induction ds) (auto simp: LogDefine_find_def)

lemma find_Some_member: "LogDefine_find d ds = Some e \<Longrightarrow> e \<in> set ds"
  by (auto simp: LogDefine_find_def find_Some_iff)

lemma stands_mono:
  assumes "stands Q s name" and "reconf_stable Q" and "reconf {} s t"
  shows "stands Q t name"
proof -
  from assms(1) obtain l lg where l: "map_of (w_m_loggers s) name = Some l" "logger_at s l = Some lg" "Q s lg"
    by (auto simp: stands_def)
  have "map_of (w_m_loggers t) name = Some l" "logger_at t l = Some lg"
    using l(1,2) map_le_Some [OF reconf_registry [OF assms(3)]] by (auto elim: reconf_logger [OF assms(3)])
  with reconf_stableD [OF assms(2,3) _ l(3)] show ?thesis by (auto simp: stands_def)
qed

lemma conf_changed_applies:
  assumes "log_ok s" and "defines_sorted new" and "defines_sorted old" and "set new \<inter> set old = {}"
    and "\<forall>d \<in> set new. \<forall>a \<in> set (ld_appenders d). lad_type a = 1 \<or> lad_type a = 2"
  shows "\<exists>t. on_logger_conf_changed old new s = (Inr (), t) \<and> log_ok t \<and>
     map_of (w_m_loggers s) \<subseteq>\<^sub>m map_of (w_m_loggers t) \<and>
     (\<forall>d \<in> set new. stands (conf_as (formatter_of s (ld_name d)) d) t (ld_name d)) \<and>
     (\<forall>d \<in> set old. ld_name d \<notin> ld_name ` set new \<longrightarrow> stands silenced t (ld_name d)) \<and>
     (\<forall>Q name. reconf_stable Q \<and> stands Q s name \<and> name \<notin> ld_name ` (set new \<union> set old) \<longrightarrow> stands Q t name)"
proof -
  from log_root_eval [OF assms(1)] obtain s1 where
    s1: "log_root INFO ''sylar/log.cc'' 360 ''on_logger_conf_changed'' s = (Inr (), s1)" "log_frame s s1" by blast
  have "\<forall>d \<in> set new. LogDefine_find d old \<noteq> Some d" using assms(4) find_Some_member by fastforce
  with apply_loop [OF log_ok_frame [OF s1(2) assms(1)] sorted_names_distinct [OF assms(2)], of old] assms(5)
  obtain s2 where s2: "for_each (apply_define old) new s1 = (Inr (), s2)" "log_ok s2"
      "map_of (w_m_loggers s1) \<subseteq>\<^sub>m map_of (w_m_loggers s2)" "\<forall>d \<in> set new. stands (conf_as (formatter_of s1 (ld_name d)) d) s2 (ld_name d)"
      "\<forall>Q name. reconf_stable Q \<and> stands Q s1 name \<and> name \<notin> ld_name ` set new \<longrightarrow> stands Q s2 name" by blast
  from remove_loop [OF s2(2) sorted_names_distinct [OF assms(3)], of new] obtain t where
    t: "for_each (remove_define new) old s2 = (Inr (), t)" "log_ok t" "map_of (w_m_loggers s2) \<subseteq>\<^sub>m map_of (w_m_loggers t)"
      "\<forall>d \<in> set old. LogDefine_find d new = None \<longrightarrow> stands silenced t (ld_name d)"
      "\<forall>Q name. reconf_stable Q \<and> stands Q s2 name \<and> (\<forall>d \<in> set old. LogDefine_find d new = None \<longrightarrow> name \<noteq> ld_name d) \<longrightarrow> stands Q t name"
    by (elim exE conjE)
  have rc: "reconf {} s s1" using s1(2) by (rule reconf_frame)
  have "formatter_of s1 name = formatter_of s name" for name
    using log_frame_logger_at [OF s1(2)] s1(2) by (simp add: formatter_of_def log_frame_def cong: option.case_cong)
  note s2 = s2 [unfolded this]
  have "stands (conf_as (formatter_of s (ld_name d)) d) t (ld_name d)" if "d \<in> set new" for d
  proof -
    have "\<forall>e \<in> set old. LogDefine_find e new = None \<longrightarrow> ld_name d \<noteq> ld_name e"
      using that by (metis find_None_names image_eqI)
    with that s2(4) t(5) stable_conf_as show ?thesis by blast
  qed
  moreover have "stands Q t name" if "reconf_stable Q" "stands Q s name" "name \<notin> ld_name ` (set new \<union> set old)" for Q name
  proof -
    have "stands Q s1 name" using stands_mono [OF that(2,1) rc] .
    with that s2(5) have "stands Q s2 name" by blast
    moreover have "\<forall>d \<in> set old. LogDefine_find d new = None \<longrightarrow> name \<noteq> ld_name d" using that(3) by auto
    ultimately show ?thesis using that(1) t(5) by blast
  qed
  moreover have "map_of (w_m_loggers s) \<subseteq>\<^sub>m map_of (w_m_loggers t)"
    using map_le_trans [OF reconf_registry [OF rc] map_le_trans [OF s2(3) t(3)]] .
  ultimately show ?thesis using s1(1) s2(1) t(1,2,4)
    by (auto simp: on_logger_conf_changed_def bindc_def find_None_names)
qed

lemma conf_changed_null:
  assumes "log_ok s" and "defines_sorted new" and "defines_sorted old" and "set new \<inter> set old \<noteq> {}"
    and "\<forall>d \<in> set new. \<forall>a \<in> set (ld_appenders d). lad_type a = 1 \<or> lad_type a = 2"
  shows "\<exists>t. on_logger_conf_changed old new s = (Inl NullDeref, t)"
proof -
  from assms(4) have "\<exists>d \<in> set new. d \<in> set old" by blast
  then obtain before d after where new: "new = before @ d # after" "d \<in> set old" "\<forall>e \<in> set before. e \<notin> set old"
    by (auto dest!: split_list_first_prop)
  from log_root_eval [OF assms(1)] obtain s1 where
    s1: "log_root INFO ''sylar/log.cc'' 360 ''on_logger_conf_changed'' s = (Inr (), s1)" "log_frame s s1" by blast
  have "\<forall>e \<in> set before. LogDefine_find e old \<noteq> Some e" using new(3) find_Some_member by fastforce
  moreover have "distinct (map ld_name before)" using sorted_names_distinct [OF assms(2)] new(1) by simp
  ultimately obtain s2 where s2: "for_each (apply_define old) before s1 = (Inr (), s2)"
    using apply_loop [OF log_ok_frame [OF s1(2) assms(1)], of before old] assms(5) new(1)
    by (metis (no_types, lifting) Un_iff set_append)
  have "apply_define old d s2 = (Inl NullDeref, s2)"
    using find_member [OF assms(3) new(2)] by (simp add: apply_define_def bindc_def ret_apply raise_apply)
  with s1(1) s2 show ?thesis
    by (simp add: on_logger_conf_changed_def bindc_def new(1) for_each_append)
qed

section \<open>Dumping the live loggers\<close>

text \<open>The definition that a dump of a live logger reads back as.\<close>

definition live_appender :: "LogAppender \<Rightarrow> LogAppenderDefine" where
  "live_appender ap =
     \<lparr>lad_type = (case ap_class ap of FileLogAppender fa \<Rightarrow> 1 | StdoutLogAppender \<Rightarrow> 2), lad_level = UNKNOW,
      lad_formatter = (case ap_formatter ap of Some lf \<Rightarrow> if ap_hasFormatter ap then lf_pattern lf else [] | None \<Rightarrow> []),
      lad_file = (case ap_class ap of FileLogAppender fa \<Rightarrow> fa_filename fa | StdoutLogAppender \<Rightarrow> [])\<rparr>"

definition live_define :: "'z log_world_scheme \<Rightarrow> Logger \<Rightarrow> LogDefine" where
  "live_define s lg =
     \<lparr>ld_name = lg_name lg, ld_level = (if lg_level lg = Level100 then UNKNOW else lg_level lg),
      ld_formatter = (case lg_formatter lg of None \<Rightarrow> [] | Some lf \<Rightarrow> lf_pattern lf),
      ld_appenders = map (\<lambda>a. live_appender (w_appenders s ! a)) (lg_appenders lg)\<rparr>"

lemma parse_LogAppender_node:
  assumes "yaml_laws Y"
  shows "LogAppenderDefine_parse Y (LogAppender_node ap) s = (Inr (Some (live_appender ap)), s)"
  by (cases "ap_class ap"; cases "ap_formatter ap")
    (auto simp: LogAppenderDefine_parse_def LogAppender_node_def own_formatter_field_def parse_simps
      yaml_lawsD [OF assms] live_appender_def)

lemma with_lock_pure:
  assumes "m \<notin> w_held s" and "body (s\<lparr>w_held := insert m (w_held s)\<rparr>) = (r, s\<lparr>w_held := insert m (w_held s)\<rparr>)"
  shows "with_lock m body s = (r, s)"
  using with_lock_transparent [of m s body r s] assms by simp

lemma LogAppender_toYamlString_eval:
  assumes "appender_at s a = Some ap" and "AppenderLock a \<notin> w_held s"
  shows "LogAppender_toYamlString Y a s = (Inr (y_emit Y (LogAppender_node ap)), s)"
  using assms by (simp add: LogAppender_toYamlString_def bindc_def get_appender_def ret_apply with_lock_pure)

lemma cfold_map:
  assumes "\<And>x acc. x \<in> set xs \<Longrightarrow> f x acc s = (Inr (acc @ [g x]), s)"
  shows "cfold f xs acc s = (Inr (acc @ map g xs), s)"
  using assms by (induction xs arbitrary: acc) auto

definition Logger_node :: "'z log_world_scheme \<Rightarrow> Logger \<Rightarrow> Node" where
  "Logger_node s lg =
     fields_node
       ([(''name'', Scalar (lg_name lg))] @ level_field (lg_level lg) @
        (case lg_formatter lg of None \<Rightarrow> [] | Some lf \<Rightarrow> [(''formatter'', Scalar (lf_pattern lf))]) @
        (if lg_appenders lg \<noteq> [] then [(''appenders'', Sequence (map (\<lambda>a. LogAppender_node (w_appenders s ! a)) (lg_appenders lg)))] else []))"

lemma Logger_toYamlString_eval:
  assumes "yaml_laws Y" and "logger_at s l = Some lg" and "\<forall>a \<in> set (lg_appenders lg). appender_at s a \<noteq> None"
    and "LoggerLock l \<notin> w_held s" and "\<forall>a. AppenderLock a \<notin> w_held s"
  shows "Logger_toYamlString Y l s = (Inr (y_emit Y (Logger_node s lg)), s)"
proof -
  let ?s1 = "s\<lparr>w_held := insert (LoggerLock l) (w_held s)\<rparr>"
  have "cfold (\<lambda>i acc. bindc (LogAppender_toYamlString Y i) (\<lambda>text.
                bindc (lift_result (y_load Y text)) (\<lambda>n. ret (acc @ [n])))) (lg_appenders lg) [] ?s1 =
     (Inr ([] @ map (\<lambda>a. LogAppender_node (w_appenders s ! a)) (lg_appenders lg)), ?s1)"
  proof (rule cfold_map)
    fix a acc assume "a \<in> set (lg_appenders lg)"
    then obtain ap where "appender_at s a = Some ap" using assms(3) by auto
    moreover from this have "w_appenders s ! a = ap" by (simp add: appender_at_eq_Some)
    ultimately show "bindc (LogAppender_toYamlString Y a) (\<lambda>text. bindc (lift_result (y_load Y text)) (\<lambda>n. ret (acc @ [n]))) ?s1 =
        (Inr (acc @ [LogAppender_node (w_appenders s ! a)]), ?s1)"
      using assms(5) LogAppender_toYamlString_eval [of ?s1 a ap Y]
      by (simp add: bindc_def lift_result_apply ret_apply yaml_lawsD [OF assms(1)])
  qed
  then show ?thesis
    using assms(2,4)
    by (simp add: Logger_toYamlString_def bindc_def get_logger_def ret_apply with_lock_pure Logger_node_def)
qed

lemma FromString_UNKNOW: "LogLevel_FromString ''UNKNOW'' = UNKNOW"
  by (simp add: LogLevel_FromString_def)

lemma parse_Logger_node:
  assumes "yaml_laws Y"
  shows "LogDefine_parse Y (Logger_node s lg) u = (Inr (Some (live_define s lg)), u)"
proof -
  let ?as = "map (\<lambda>a. LogAppender_node (w_appenders s ! a)) (lg_appenders lg)"
  have "cfold (\<lambda>x acc. bindc (lift_result (y_index Y (Sequence ?as) x)) (\<lambda>a.
       bindc (LogAppenderDefine_parse Y a) (\<lambda>lad. ret (case lad of None \<Rightarrow> acc | Some d \<Rightarrow> acc @ [d])))) [0..<length (lg_appenders lg)] [] u =
     (Inr (fold (\<lambda>a acc. acc @ [live_appender (w_appenders s ! a)]) (lg_appenders lg) []), u)"
    by (intro cfold_index)
      (simp add: bindc_def lift_result_apply ret_apply yaml_lawsD [OF assms] parse_LogAppender_node [OF assms])
  moreover have "fold (\<lambda>a acc. acc @ [live_appender (w_appenders s ! a)]) as xs = xs @ map (\<lambda>a. live_appender (w_appenders s ! a)) as" for as xs
    by (induction as arbitrary: xs) auto
  ultimately have "parse_appenders Y (Sequence ?as) u = (Inr (map (\<lambda>a. live_appender (w_appenders s ! a)) (lg_appenders lg)), u)"
    by (simp add: parse_appenders_def)
  then show ?thesis
    by (cases "lg_formatter lg")
      (auto simp: LogDefine_parse_def Logger_node_def parse_simps yaml_lawsD [OF assms] live_define_def FromString_ToString FromString_UNKNOW)
qed


lemma log_ok_logger:
  assumes "log_ok s" and "map_of (w_m_loggers s) name = Some l"
  shows "logger_at s l = Some (w_loggers s ! l)" and "lg_name (w_loggers s ! l) = name"
    and "\<forall>a \<in> set (lg_appenders (w_loggers s ! l)). appender_at s a \<noteq> None"
proof -
  from log_ok_names [OF assms] obtain lg where lg: "logger_at s l = Some lg" "lg_name lg = name"
    by (auto simp: logger_name_def)
  then have eq: "w_loggers s ! l = lg" by (simp add: logger_at_eq_Some)
  show "logger_at s l = Some (w_loggers s ! l)" "lg_name (w_loggers s ! l) = name" using lg eq by simp_all
  have "logger_ok s lg" using log_inv_logger_ok [OF _ lg(1)] assms(1) by (simp add: log_ok_def)
  then show "\<forall>a \<in> set (lg_appenders (w_loggers s ! l)). appender_at s a \<noteq> None"
    unfolding eq by (auto simp: logger_ok_def)
qed

lemma LoggerManager_toYamlString_eval:
  assumes Y: "yaml_laws Y" and ok: "log_ok s"
  shows "LoggerManager_toYamlString Y s =
     (Inr (y_emit Y (seq_node (map (\<lambda>p. Logger_node s (w_loggers s ! snd p)) (w_m_loggers s)))), s)"
proof -
  let ?s1 = "s\<lparr>w_held := {ManagerLock}\<rparr>"
  have reg: "map_of (w_m_loggers s) (fst p) = Some (snd p)" if "p \<in> set (w_m_loggers s)" for p
    using ok that omap_ok_distinct [of "w_m_loggers s"] by (cases p) (auto simp: log_ok_def log_inv_def wf_log_def)
  have "cfold (\<lambda>p acc. bindc (Logger_toYamlString Y (snd p)) (\<lambda>text.
                bindc (lift_result (y_load Y text)) (\<lambda>n. ret (acc @ [n])))) (w_m_loggers s) [] ?s1 =
     (Inr ([] @ map (\<lambda>p. Logger_node s (w_loggers s ! snd p)) (w_m_loggers s)), ?s1)"
  proof (rule cfold_map)
    fix p acc assume "p \<in> set (w_m_loggers s)"
    note lg = log_ok_logger [OF ok reg [OF this]]
    have "Logger_toYamlString Y (snd p) ?s1 = (Inr (y_emit Y (Logger_node ?s1 (w_loggers s ! snd p))), ?s1)"
      using lg(1,3) by (intro Logger_toYamlString_eval [OF Y]) simp_all
    then show "bindc (Logger_toYamlString Y (snd p)) (\<lambda>text. bindc (lift_result (y_load Y text)) (\<lambda>n. ret (acc @ [n]))) ?s1 =
        (Inr (acc @ [Logger_node s (w_loggers s ! snd p)]), ?s1)"
      by (simp add: bindc_def lift_result_apply ret_apply yaml_lawsD [OF Y] Logger_node_def)
  qed
  then show ?thesis
    using log_ok_held [OF ok]
    by (simp add: LoggerManager_toYamlString_def with_lock_def bindc_def ret_apply held_idem)
qed

lemma dump_reads_back:
  assumes Y: "yaml_laws Y" and ok: "log_ok s"
  shows "\<exists>text. LoggerManager_toYamlString Y s = (Inr text, s) \<and>
     LogDefine_from_string Y text s = (Inr (map (\<lambda>p. live_define s (w_loggers s ! snd p)) (w_m_loggers s)), s)"
proof -
  let ?ps = "w_m_loggers s" and ?node = "\<lambda>p. Logger_node s (w_loggers s ! snd p)" and ?def = "\<lambda>p. live_define s (w_loggers s ! snd p)"
  have sorted: "omap_ok ?ps" and ne: "?ps \<noteq> []" using ok by (auto simp: log_ok_def log_inv_def wf_log_def)
  have "ld_name (?def p) = fst p" if "p \<in> set ?ps" for p
    using log_ok_logger(2) [OF ok, of "fst p" "snd p"] that omap_ok_distinct [OF sorted] by (cases p) (simp add: live_define_def)
  then have names: "map ld_name (map ?def ?ps) = map fst ?ps" by simp
  have "cfold (\<lambda>i m_set. bindc (lift_result (y_index Y (Sequence (map ?node ?ps)) i)) (\<lambda>n.
       bindc (LogDefine_parse Y n) (\<lambda>ld. ret (case ld of None \<Rightarrow> m_set | Some d \<Rightarrow> LogDefine_insert d m_set)))) [0..<length ?ps] [] s =
     (Inr (fold (\<lambda>p. LogDefine_insert (?def p)) ?ps []), s)"
    by (intro cfold_index)
      (simp add: bindc_def lift_result_apply ret_apply yaml_lawsD [OF Y] parse_Logger_node [OF Y])
  moreover have "fold (\<lambda>p. LogDefine_insert (?def p)) ?ps [] = map ?def ?ps"
  proof -
    have "defines_sorted (map ?def ?ps)" using sorted names by (metis sorted_wrt_map)
    then show ?thesis using fold_LogDefine_insert [of "[]" "map ?def ?ps"] by (simp add: fold_map o_def)
  qed
  ultimately show ?thesis
    using LoggerManager_toYamlString_eval [OF Y ok] ne
    by (simp add: LogDefine_from_string_def bindc_def lift_result_apply yaml_lawsD [OF Y] seq_node_def)
qed

section \<open>Logging operations keep what extends the logging state\<close>

definition keeps_more :: "('z, 'a) logc \<Rightarrow> bool" where
  "keeps_more m \<longleftrightarrow> (\<forall>s. log_world.more (snd (m s)) = log_world.more s)"

named_theorems keeps \<open>operations that keep what extends the logging state\<close>

lemma keeps_bindc [keeps]: "keeps_more m \<Longrightarrow> (\<And>a. keeps_more (f a)) \<Longrightarrow> keeps_more (bindc m f)"
  unfolding keeps_more_def
proof
  fix s assume m: "\<forall>s. log_world.more (snd (m s)) = log_world.more s"
    and f: "\<And>a. \<forall>s. log_world.more (snd (f a s)) = log_world.more s"
  show "log_world.more (snd (bindc m f s)) = log_world.more s"
  proof (cases "m s")
    case (Pair r t)
    then have "log_world.more t = log_world.more s" using m [rule_format, of s] by simp
    with Pair f show ?thesis by (cases r) (simp_all add: bindc_def)
  qed
qed

lemma keeps_moreD: "keeps_more m \<Longrightarrow> log_world.more (snd (m s)) = log_world.more s"
  by (simp add: keeps_more_def)

lemma keeps_if [keeps]: "(c \<Longrightarrow> keeps_more a) \<Longrightarrow> (\<not> c \<Longrightarrow> keeps_more b) \<Longrightarrow> keeps_more (if c then a else b)"
  by simp

lemma keeps_option [keeps]:
  "(x = None \<Longrightarrow> keeps_more a) \<Longrightarrow> (\<And>y. x = Some y \<Longrightarrow> keeps_more (b y)) \<Longrightarrow>
     keeps_more (case x of None \<Rightarrow> a | Some y \<Rightarrow> b y)"
  by (cases x) simp_all

lemma keeps_with_lock [keeps]: "keeps_more body \<Longrightarrow> keeps_more (with_lock m body)"
  unfolding keeps_more_def
proof
  fix s assume b: "\<forall>s. log_world.more (snd (body s)) = log_world.more s"
  obtain r t where "body (s\<lparr>w_held := insert m (w_held s)\<rparr>) = (r, t)" by fastforce
  moreover from this have "log_world.more t = log_world.more s"
    using b [rule_format, of "s\<lparr>w_held := insert m (w_held s)\<rparr>"] by simp
  ultimately show "log_world.more (snd (with_lock m body s)) = log_world.more s"
    by (simp add: with_lock_def)
qed

lemma keeps_for_each [keeps]: "(\<And>x. keeps_more (f x)) \<Longrightarrow> keeps_more (for_each f xs)"
  unfolding keeps_more_def
  by (auto intro!: for_each_inv [where P = "\<lambda>t. log_world.more t = log_world.more s" for s])

lemma keeps_basic [keeps]:
  "keeps_more (ret a)" "keeps_more (raise e)" "keeps_more (lift_result r)"
  "keeps_more (get_logger l)" "keeps_more (get_appender b)" "keeps_more (cout text)"
  "keeps_more (modify (put_logger l lg))" "keeps_more (modify (put_appender b ap))"
  "keeps_more StdoutLogAppender_new" "keeps_more LoggerManager_getRoot"
  by (auto simp: keeps_more_def comp_simps get_logger_def get_appender_def cout_def put_logger_def put_appender_def
      StdoutLogAppender_new_def LoggerManager_getRoot_def split: option.splits)

lemma keeps_frame: "(\<And>s. log_frame s (snd (m s))) \<Longrightarrow> keeps_more m"
  by (simp add: keeps_more_def log_frame_def)

lemma keeps_reopen [keeps]: "keeps_more (FileLogAppender_reopen a)"
  by (rule keeps_frame) (rule frame_FileLogAppender_reopen)

lemma keeps_FileLogAppender_new [keeps]: "keeps_more (FileLogAppender_new filename)"
  by (simp add: keeps_more_def [of "FileLogAppender_new filename"] FileLogAppender_new_def Let_def
      keeps_moreD [OF keeps_bindc [OF keeps_reopen keeps_basic(1)]])

lemma keeps_LoggerManager_getLogger [keeps]: "keeps_more (LoggerManager_getLogger name)"
proof -
  have "keeps_more (\<lambda>s. case map_of (w_m_loggers s) name of
         Some l \<Rightarrow> (Inr l, s)
       | None \<Rightarrow>
           bindc (Logger_new name) (\<lambda>l.
           bindc (get_logger l) (\<lambda>lg.
           bindc (modify (\<lambda>s. put_logger l (lg\<lparr>lg_root := Some (w_root s)\<rparr>) s)) (\<lambda>_.
           bindc (modify (\<lambda>s. s\<lparr>w_m_loggers := omap_put name l (w_m_loggers s)\<rparr>)) (\<lambda>_.
           ret l)))) s)"
    by (simp add: keeps_more_def bindc_def Logger_new_eval comp_simps get_logger_def put_logger_def split: option.splits)
  then show ?thesis unfolding LoggerManager_getLogger_def by (rule keeps_with_lock)
qed

lemma keeps_logger_ops [keeps]:
  "keeps_more (Logger_setLevel l level)" "keeps_more (Logger_clearAppender l)"
  "keeps_more (LogAppender_setLevel a level)" "keeps_more (LogAppender_setFormatter a val)"
  "keeps_more (LogAppender_getFormmater a)" "keeps_more (Logger_getLevel l)"
  unfolding Logger_setLevel_def Logger_clearAppender_def LogAppender_setLevel_def LogAppender_setFormatter_def
    LogAppender_getFormmater_def Logger_getLevel_def
  by (intro keeps)+

lemma keeps_Logger_addAppender [keeps]: "keeps_more (Logger_addAppender l a)"
  unfolding Logger_addAppender_def by (intro keeps)

lemma keeps_Logger_setFormatter_str [keeps]: "keeps_more (Logger_setFormatter_str l val)"
  unfolding Logger_setFormatter_str_def Logger_setFormatter_def inherit_formatter_def
  by (intro keeps)

lemma keeps_Logger_log [keeps]: "keeps_more (Logger_log l level ev)"
  by (rule keeps_frame) (rule frame_Logger_log)

lemma keeps_log_root [keeps]: "keeps_more (log_root level file line text)"
  unfolding log_root_def SYLAR_LOG_LEVEL_def
  by (intro keeps_bindc keeps)
    (simp add: keeps_more_def LogEventWrap_dtor_def keeps_moreD [OF keeps_Logger_log])

lemma keeps_apply_define [keeps]: "keeps_more (apply_define old d)"
  unfolding apply_define_def apply_appender_def
  by (intro keeps)

lemma keeps_remove_define [keeps]: "keeps_more (remove_define new d)"
  unfolding remove_define_def by (simp add: keeps)

lemma keeps_on_logger_conf_changed: "keeps_more (on_logger_conf_changed old new)"
  unfolding on_logger_conf_changed_def by (intro keeps)

section \<open>Reading text into the variable\<close>

lemma log_env_keeps: "calls_keep (log_env Y what place)"
  using keeps_moreD [OF keeps_on_logger_conf_changed] by (auto simp: calls_keep_def log_env_def cfg_eq_def)

text \<open>
  For any encoding \<open>inj\<close> of sets of definitions as values of the variables, and any functors that read the
  text as a set whose listener is that of the variable \<open>logs\<close>.
\<close>

lemma logs_fromString_gen:
  fixes E :: "'v cfg_env" and inj :: "LogDefine list \<Rightarrow> 'v"
  assumes E: "calls_keep E" "e_from E (cv_type cv) val s = (Inr (inj new), s)"
      "\<And>cb. e_call E cb (inj old) (inj new) = on_logger_conf_changed old new" "inj new \<noteq> inj old"
    and ok: "log_ok s" "cfg_idle s" and cv: "var_at s i = Some cv" "cv_cbs cv = [(key, cb)]" "cv_val cv = inj old"
    and new: "defines_sorted new" "\<forall>d \<in> set new. \<forall>a \<in> set (ld_appenders d). lad_type a = 1 \<or> lad_type a = 2"
    and old: "defines_sorted old" "set new \<inter> set old = {}"
  shows "\<exists>t. ConfigVar_fromString E i val s = (Inr False, put_var i (cv\<lparr>cv_val := inj new\<rparr>) t) \<and>
     log_ok t \<and> cfg_eq t s \<and> map_of (w_m_loggers s) \<subseteq>\<^sub>m map_of (w_m_loggers t) \<and>
     (\<forall>d \<in> set new. stands (conf_as (formatter_of s (ld_name d)) d) t (ld_name d)) \<and>
     (\<forall>d \<in> set old. ld_name d \<notin> ld_name ` set new \<longrightarrow> stands silenced t (ld_name d))"
proof -
  let ?s1 = "s\<lparr>c_rd := [VarMutex i]\<rparr>"
  have ok1: "log_ok ?s1" using ok(1) by simp
  have "formatter_of ?s1 = formatter_of s" by (simp add: formatter_of_def logger_at_def fun_eq_iff cong: option.case_cong)
  with conf_changed_applies [OF ok1 new(1) old new(2)] obtain t where
    t: "on_logger_conf_changed old new ?s1 = (Inr (), t)" "log_ok t" "map_of (w_m_loggers s) \<subseteq>\<^sub>m map_of (w_m_loggers t)"
      "\<forall>d \<in> set new. stands (conf_as (formatter_of s (ld_name d)) d) t (ld_name d)"
      "\<forall>d \<in> set old. ld_name d \<notin> ld_name ` set new \<longrightarrow> stands silenced t (ld_name d)" by auto
  have "for_each (\<lambda>(key, cb). e_call E cb (cv_val cv) (inj new)) (cv_cbs cv) ?s1 = (Inr (), t)"
    using t(1) cv(2,3) E(3) by simp
  from setValue_calls [OF ok(2) cv(1) E(1) this] E(4) cv(3)
  have set: "ConfigVar_setValue E i (inj new) s = (Inr (), put_var i (cv\<lparr>cv_val := inj new\<rparr>) (t\<lparr>c_rd := []\<rparr>))" by simp
  have "cfg_eq t ?s1"
    using keeps_moreD [OF keeps_on_logger_conf_changed, of old new ?s1] t(1) by (simp add: cfg_eq_def)
  then have "cfg_eq (t\<lparr>c_rd := []\<rparr>) s" using ok(2) by (simp add: cfg_eq_iff cfg_idle_def)
  moreover have "ConfigVar_fromString E i val s = (Inr False, put_var i (cv\<lparr>cv_val := inj new\<rparr>) (t\<lparr>c_rd := []\<rparr>))"
    using cv(1) set E(2) by (simp add: ConfigVar_fromString_def bindc_def get_var_Some catch_std_def ret_apply)
  moreover have "stands (conf_as f d) (t\<lparr>c_rd := []\<rparr>) name = stands (conf_as f d) t name"
    "stands silenced (t\<lparr>c_rd := []\<rparr>) name = stands silenced t name" for f d name
    by (simp_all add: stands_def conf_as_def own_appenders_def lists_def logger_at_def appender_at_def silenced_def)
  ultimately show ?thesis using t(2-5) by (intro exI [of _ "t\<lparr>c_rd := []\<rparr>"]) simp
qed

lemma stands_put_var:
  "stands (conf_as f d) (put_var i cv t) name = stands (conf_as f d) t name"
  "stands silenced (put_var i cv t) name = stands silenced t name"
  by (simp_all add: stands_def conf_as_def own_appenders_def lists_def logger_at_def appender_at_def silenced_def put_var_def)

lemma logs_fromString_eval:
  assumes Y: "yaml_laws Y" and ok: "log_ok s" "cfg_idle s" and cv: "var_at s i = Some cv" "cv_cbs cv = [(key, cb)]"
    and new: "defines_sorted new" "\<forall>d \<in> set new. define_ok d" "new \<noteq> []"
    and old: "defines_sorted (cv_val cv)" "set (map strip_define new) \<inter> set (cv_val cv) = {}"
  shows "\<exists>t. ConfigVar_fromString (log_env Y what place) i (LogDefine_to_string Y new) s = (Inr False, t) \<and>
     log_ok t \<and> cfg_idle t \<and> var_at t i = Some (cv\<lparr>cv_val := map strip_define new\<rparr>) \<and>
     (\<forall>d \<in> set new. stands (conf_as (formatter_of s (ld_name d)) (strip_define d)) t (ld_name d)) \<and>
     (\<forall>d \<in> set (cv_val cv). ld_name d \<notin> ld_name ` set new \<longrightarrow> stands silenced t (ld_name d))"
proof -
  let ?E = "log_env Y what place" and ?new = "map strip_define new"
  have sorted: "defines_sorted ?new" using new(1) by (simp add: sorted_wrt_map)
  have types: "\<forall>d \<in> set ?new. \<forall>a \<in> set (ld_appenders d). lad_type a = 1 \<or> lad_type a = 2"
    using new(2) by (auto simp: define_ok_def strip_define_def strip_appender_def)
  have ne: "?new \<noteq> cv_val cv" using old(2) new(3) by (metis Int_absorb map_is_Nil_conv set_empty2)
  have names: "ld_name ` set ?new = ld_name ` set new" by (force simp: image_iff)
  have "e_from ?E (cv_type cv) (LogDefine_to_string Y new) s = (Inr ?new, s)"
    using LogDefine_cast_roundtrip [OF Y new(1,2)] by (simp add: log_env_def)
  from logs_fromString_gen [where inj = "\<lambda>ds. ds", OF log_env_keeps this _ ne ok cv refl sorted types old] obtain t where
    t: "ConfigVar_fromString ?E i (LogDefine_to_string Y new) s = (Inr False, put_var i (cv\<lparr>cv_val := ?new\<rparr>) t)"
      "log_ok t" "cfg_eq t s" "\<forall>d \<in> set ?new. stands (conf_as (formatter_of s (ld_name d)) d) t (ld_name d)"
      "\<forall>d \<in> set (cv_val cv). ld_name d \<notin> ld_name ` set new \<longrightarrow> stands silenced t (ld_name d)"
    unfolding names by (auto simp: log_env_def)
  have "cfg_idle t" "var_at t i = Some cv" using t(3) ok(2) cv(1) cfg_eq_var_at [OF t(3)] by (simp_all add: cfg_idle_def cfg_eq_iff)
  with t(2,4,5) show ?thesis unfolding t(1) by (simp add: stands_put_var var_at_put_var)
qed

end
