(* ===== verification/LogConfigProperties.thy ===== *)
theory LogConfigProperties
  imports LogConfigOps ConfigProperties
begin

text \<open>
  The properties of the logging system as the configuration drives it.
\<close>

section \<open>Properties of the configured logging system\<close>

lemma reachable_log_ok: "reachable log_init log_step s \<Longrightarrow> dates_ok s \<Longrightarrow> log_ok s"
  using logging.reach_inv [of s] by (simp add: log_ok_def)

lemma start_world_dates: "dates_ok start_world"
  by (simp add: dates_ok_def)

text \<open>Definitions for the concrete instances.\<close>

definition file_define :: LogAppenderDefine where
  "file_define = \<lparr>lad_type = 1, lad_level = UNKNOW, lad_formatter = ''%m%n'', lad_file = ''a.log''\<rparr>"

definition define_a :: LogDefine where
  "define_a = \<lparr>ld_name = ''a'', ld_level = INFO, ld_formatter = ''%p %m%n'', ld_appenders = [file_define]\<rparr>"

definition define_b :: LogDefine where
  "define_b = \<lparr>ld_name = ''b'', ld_level = WARN, ld_formatter = [],
     ld_appenders = [\<lparr>lad_type = 2, lad_level = ERROR, lad_formatter = [], lad_file = []\<rparr>]\<rparr>"

text \<open>C25: when no definition of the new value is in the old one unchanged, the listener of the variable
  \<open>logs\<close> runs to its end: every new definition has a registered logger with its level, the formatter of its pattern (an
  empty or faulty pattern leaves the formatter the logger had, which is the default one for a new logger) and, in order,
  appenders of its classes, files and levels, which no other logger has, each with the formatter of its own pattern or else that
  of the logger; and every logger whose definition is gone is silenced: its level is above every level a record has and it has no appender. A logger of any other name is left as it is,
  and pointers to registered loggers stay the registered ones.\<close>

theorem log_conf_change_applies:
  assumes "reachable log_init log_step s" and "dates_ok s" and "defines_sorted new" and "defines_sorted old"
    and "set new \<inter> set old = {}"
    and "\<forall>d \<in> set new. \<forall>a \<in> set (ld_appenders d). lad_type a = 1 \<or> lad_type a = 2"
  shows "\<exists>t. on_logger_conf_changed old new s = (Inr (), t) \<and> wf_log t \<and> w_held t = {} \<and>
     (\<forall>d \<in> set new. stands (conf_as (formatter_of s (ld_name d)) d) t (ld_name d)) \<and>
     (\<forall>d \<in> set old. ld_name d \<notin> ld_name ` set new \<longrightarrow> stands silenced t (ld_name d)) \<and>
     map_of (w_m_loggers s) \<subseteq>\<^sub>m map_of (w_m_loggers t) \<and>
     (\<forall>name lg. stands (\<lambda>_ l. l = lg) s name \<and> name \<notin> ld_name ` (set new \<union> set old) \<longrightarrow> stands (\<lambda>_ l. l = lg) t name)"
proof -
  have stable: "reconf_stable (\<lambda>_ l. l = lg)" for lg by (simp add: reconf_stable_def)
  from conf_changed_applies [OF reachable_log_ok [OF assms(1,2)] assms(3-6)] obtain t where
    t: "on_logger_conf_changed old new s = (Inr (), t)" "log_ok t" "map_of (w_m_loggers s) \<subseteq>\<^sub>m map_of (w_m_loggers t)"
      "\<forall>d \<in> set new. stands (conf_as (formatter_of s (ld_name d)) d) t (ld_name d)"
      "\<forall>d \<in> set old. ld_name d \<notin> ld_name ` set new \<longrightarrow> stands silenced t (ld_name d)"
      "\<And>Q name. reconf_stable Q \<Longrightarrow> stands Q s name \<Longrightarrow> name \<notin> ld_name ` (set new \<union> set old) \<Longrightarrow> stands Q t name"
    by blast
  then show ?thesis using t(6) [OF stable] by (auto simp: log_ok_def log_inv_def)
qed

theorem log_conf_change_applies_witness:
  "\<exists>t. on_logger_conf_changed [define_b] [define_a] start_world = (Inr (), t) \<and>
     stands (conf_as (Some default_formatter) define_a) t ''a'' \<and> stands silenced t ''b''"
  using log_conf_change_applies [OF start_world_reachable start_world_dates, of "[define_a]" "[define_b]"]
  by (auto simp: define_a_def define_b_def file_define_def formatter_of_def)

text \<open>C37: when some definition of the new value is in the old one unchanged, the listener follows a
  null pointer: a change of one logger crashes the program as soon as another one is kept.\<close>

theorem log_conf_unchanged_crashes:
  assumes "reachable log_init log_step s" and "dates_ok s" and "defines_sorted new" and "defines_sorted old"
    and "set new \<inter> set old \<noteq> {}"
    and "\<forall>d \<in> set new. \<forall>a \<in> set (ld_appenders d). lad_type a = 1 \<or> lad_type a = 2"
  shows "\<exists>t. on_logger_conf_changed old new s = (Inl NullDeref, t)"
  using conf_changed_null [OF reachable_log_ok [OF assms(1,2)] assms(3-6)] .

theorem log_conf_unchanged_crashes_witness:
  "\<exists>t. on_logger_conf_changed [define_a] [define_a, define_b] start_world = (Inl NullDeref, t)"
proof -
  have "defines_sorted [define_a, define_b]" by (simp add: define_a_def define_b_def less_char_def)
  from log_conf_unchanged_crashes [OF start_world_reachable start_world_dates this, of "[define_a]"] show ?thesis
    by (simp add: define_a_def define_b_def file_define_def)
qed

text \<open>C36: a set of definitions, in the order of their names, whose levels are ones the program names and whose appenders are of the
  two types, written as text is read back with everything but two things: the levels of the appenders, which are written and
  never read, and the file names of console appenders, which are not written.\<close>

theorem LogDefine_text_roundtrip:
  assumes "yaml_laws Y" and "defines_sorted ds" and "\<forall>d \<in> set ds. define_ok d"
  shows "LogDefine_from_string Y (LogDefine_to_string Y ds) s = (Inr (map strip_define ds), s)"
  using LogDefine_cast_roundtrip [OF assms] .

theorem LogDefine_text_roundtrip_witness:
  "LogDefine_from_string small_yaml (LogDefine_to_string small_yaml [define_a, define_b]) start_world =
     (Inr [define_a, define_b\<lparr>ld_appenders := [\<lparr>lad_type = 2, lad_level = UNKNOW, lad_formatter = [], lad_file = []\<rparr>]\<rparr>], start_world)"
proof -
  have "defines_sorted [define_a, define_b]" "\<forall>d \<in> set [define_a, define_b]. define_ok d"
    by (simp_all add: define_a_def define_b_def file_define_def define_ok_def less_char_def)
  from LogDefine_text_roundtrip [OF small_yaml_laws this, of start_world] show ?thesis
    by (simp add: define_a_def define_b_def file_define_def strip_define_def strip_appender_def)
qed

text \<open>C30: the text of all live loggers can be produced in every reachable state without blocking, and read as a
  configuration it gives the definitions of exactly the registered loggers, in the order of their names,
  with their levels, patterns, and the classes, files and own patterns of their appenders.\<close>

theorem logger_dump_reads_back:
  assumes "yaml_laws Y" and "reachable log_init log_step s" and "dates_ok s"
  shows "\<exists>text. LoggerManager_toYamlString Y s = (Inr text, s) \<and>
     LogDefine_from_string Y text s = (Inr (map (\<lambda>p. live_define s (w_loggers s ! snd p)) (w_m_loggers s)), s)"
  using dump_reads_back [OF assms(1) reachable_log_ok [OF assms(2,3)]] .

theorem logger_dump_reads_back_witness:
  "\<exists>text. LoggerManager_toYamlString small_yaml start_world = (Inr text, start_world) \<and>
     LogDefine_from_string small_yaml text start_world =
       (Inr [\<lparr>ld_name = ''root'', ld_level = DEBUG, ld_formatter = default_pattern,
              ld_appenders = [\<lparr>lad_type = 2, lad_level = UNKNOW, lad_formatter = [], lad_file = []\<rparr>]\<rparr>], start_world)"
  using logger_dump_reads_back [OF small_yaml_laws start_world_reachable start_world_dates]
  by (auto simp: live_define_def live_appender_def fresh_logger_def console_appender_def default_formatter_def)

section \<open>The variable and the loggers together\<close>

text \<open>Reading the text of definitions into the variable \<open>logs\<close> stores them and brings the live loggers in line:
  each definition has its logger with its level, formatter and appenders, and the loggers of definitions that are
  gone are silenced, provided no definition stays unchanged.\<close>

theorem logs_variable_drives_loggers:
  assumes "yaml_laws Y" and "log_ok s" and "cfg_idle s" and "var_at s i = Some cv" and "cv_cbs cv = [(key, cb)]"
    and "defines_sorted new" and "\<forall>d \<in> set new. define_ok d" and "new \<noteq> []"
    and "defines_sorted (cv_val cv)" and "set (map strip_define new) \<inter> set (cv_val cv) = {}"
  shows "\<exists>t. ConfigVar_fromString (log_env Y what place) i (LogDefine_to_string Y new) s = (Inr False, t) \<and>
     ConfigVar_getValue i t = (Inr (map strip_define new), t) \<and>
     (\<forall>d \<in> set new. stands (conf_as (formatter_of s (ld_name d)) (strip_define d)) t (ld_name d)) \<and>
     (\<forall>d \<in> set (cv_val cv). ld_name d \<notin> ld_name ` set new \<longrightarrow> stands silenced t (ld_name d))"
proof -
  from logs_fromString_eval [OF assms, of what place] obtain t where
    t: "ConfigVar_fromString (log_env Y what place) i (LogDefine_to_string Y new) s = (Inr False, t)" "cfg_idle t"
      "var_at t i = Some (cv\<lparr>cv_val := map strip_define new\<rparr>)"
      "\<forall>d \<in> set new. stands (conf_as (formatter_of s (ld_name d)) (strip_define d)) t (ld_name d)"
      "\<forall>d \<in> set (cv_val cv). ld_name d \<notin> ld_name ` set new \<longrightarrow> stands silenced t (ld_name d)" by blast
  with getValue_eval [OF t(2,3)] show ?thesis by auto
qed

text \<open>The program at its start: the manager, the variable and the listener.\<close>

definition blank_logs :: "LogDefine list cfg_world" where
  "blank_logs =
     \<lparr>w_loggers = [], w_appenders = [], w_m_loggers = [], w_root = 0, w_held = {}, w_cout = [],
      w_fs = \<lparr>fs_dir = Map.empty, fs_data = [], fs_writable = (\<lambda>_. True)\<rparr>, w_clock = 1000,
      w_strftime = (\<lambda>f t. Some ''now''), w_tid = 7, w_fid = 0, w_tname = ''main'',
      c_vars = [], c_datas = [], c_fun_id = (\<lambda>_. 0), c_rd = [], c_wr = {}\<rparr>"

definition small_env :: "LogDefine list cfg_env" where
  "small_env = log_env small_yaml (\<lambda>e. ''error'') (\<lambda>p m. m @ [p])"

definition logs_world :: "LogDefine list cfg_world" where
  "logs_world = snd (LogIniter_new 0 (snd (g_log_defines small_env ''set'' [] (snd (LoggerManager_new blank_logs)))))"

lemma logs_world_facts:
  "log_ok logs_world" "cfg_idle logs_world"
  "var_at logs_world 0 = Some \<lparr>cv_name = ''logs'', cv_description = ''logs config'', cv_type = ''set'', cv_val = [], cv_cbs = [(1, 0)]\<rparr>"
proof -
  let ?s = "snd (LoggerManager_new blank_logs)"
  have "log_init ?s"
    unfolding log_init_def by (rule exI [of _ blank_logs]) (simp add: LoggerManager_new_eval blank_logs_def)
  then have ok: "log_ok ?s"
    using inv_log_init [of ?s] by (simp add: log_ok_def) (simp add: LoggerManager_new_eval blank_logs_def dates_ok_def)
  have s: "cfg_idle ?s" "c_datas ?s = []" "c_vars ?s = []" "c_fun_id ?s = (\<lambda>_. 0)"
    by (simp_all add: LoggerManager_new_eval blank_logs_def cfg_idle_def)
  have "\<not> has_char_not_of name_chars ''logs''" by (simp add: has_char_not_of_def name_chars_def)
  with Lookup_fresh [OF ok s(1), of "''logs''" small_env "''set''" "[]" "''logs config''"] s(2)
  obtain t where t: "g_log_defines small_env ''set'' [] ?s = (Inr (length (c_vars ?s)), t)" "log_ok t"
      "cfg_eq t (register small_env ''set'' ''logs'' [] ''logs config'' ?s)"
    by (auto simp: g_log_defines_def)
  then have idle: "cfg_idle t" and fid: "c_fun_id t = (\<lambda>_. 0)"
    and at: "var_at t 0 = Some \<lparr>cv_name = ''logs'', cv_description = ''logs config'', cv_type = ''set'', cv_val = [], cv_cbs = []\<rparr>"
    using s cfg_eq_var_at [OF t(3)] by (simp_all add: cfg_eq_iff register_def cfg_idle_def var_at_def)
  show "log_ok logs_world" "cfg_idle logs_world"
    "var_at logs_world 0 = Some \<lparr>cv_name = ''logs'', cv_description = ''logs config'', cv_type = ''set'', cv_val = [], cv_cbs = [(1, 0)]\<rparr>"
    using t(1,2) idle at fid addListener_eval [OF idle at, of 0]
    by (simp_all add: logs_world_def LogIniter_new_def bindc_def ret_apply var_at_put_var, simp_all add: cfg_idle_def)
qed

theorem logs_variable_drives_loggers_witness:
  "\<exists>t. ConfigVar_fromString small_env 0 (LogDefine_to_string small_yaml [define_a]) logs_world = (Inr False, t) \<and>
     ConfigVar_getValue 0 t = (Inr [define_a], t) \<and> stands (conf_as (formatter_of logs_world ''a'') define_a) t ''a''"
proof -
  obtain cv where cv: "var_at logs_world 0 = Some cv" "cv_cbs cv = [(1, 0)]" "cv_val cv = []"
    by (simp add: logs_world_facts(3))
  have a: "strip_define define_a = define_a" "define_ok define_a" "ld_name define_a = ''a''"
    by (simp_all add: define_a_def file_define_def strip_define_def strip_appender_def define_ok_def)
  from logs_variable_drives_loggers [OF small_yaml_laws logs_world_facts(1,2) cv(1,2), of "[define_a]" "\<lambda>e. ''error''" "\<lambda>p m. m @ [p]"] a cv(3)
  show ?thesis by (simp add: small_env_def)
qed

end
