(* ===== verification/Startup.thy ===== *)
theory Startup
  imports LogConfigProperties
begin

text \<open>
  The program before \<open>main\<close>: the singletons of \<open>src/sylar/singleton.h\<close> and the global objects of \<open>log.cc\<close>,
  \<open>fiber.cc\<close>, \<open>thread.cc\<close> and \<open>util.cc\<close>, whose initialisers run in an order that the language leaves open
  between files; and a configuration file that changes all variables of the program.
\<close>

section \<open>Singletons\<close>

text \<open>
  \<open>Singleton<T>::GetInstance\<close>: the static object is constructed by the first call; when its constructor throws,
  the next call tries again.
\<close>

definition Singleton_GetInstance :: "('s \<Rightarrow> bool) \<Rightarrow> ('s, unit) comp \<Rightarrow> ('s, unit) comp" where
  "Singleton_GetInstance constructed construct s = (if constructed s then (Inr (), s) else construct s)"

text \<open>
  \<open>SingletonPtr<T>::GetInstance\<close>: the static pointer, in the state at \<open>get\<close> and \<open>put\<close>, is initialised with \<open>new T\<close> by the
  first call, and every call returns a copy of it.
\<close>

definition SingletonPtr_GetInstance ::
    "('s \<Rightarrow> addr option) \<Rightarrow> (addr \<Rightarrow> 's \<Rightarrow> 's) \<Rightarrow> ('s, addr) comp \<Rightarrow> ('s, addr) comp" where
  "SingletonPtr_GetInstance get put new_T s =
     (case get s of
        Some v \<Rightarrow> (Inr v, s)
      | None \<Rightarrow> bindc new_T (\<lambda>v. bindc (modify (put v)) (\<lambda>_. ret v)) s)"

lemma SingletonPtr_constructs_once:
  assumes "\<And>v s. get (put v s) = Some v" and "SingletonPtr_GetInstance get put new_T s = (Inr v, t)"
  shows "SingletonPtr_GetInstance get put new_T' t = (Inr v, t)"
  using assms by (auto simp: SingletonPtr_GetInstance_def bindc_def modify_def ret_def split: option.splits prod.splits sum.splits)

lemma SingletonPtr_retries:
  assumes "get s = None" and "new_T s = (Inl e, t)"
  shows "SingletonPtr_GetInstance get put new_T s = (Inl e, t)" and
    "get t = None \<Longrightarrow> SingletonPtr_GetInstance get put new_T' t = bindc new_T' (\<lambda>v. bindc (modify (put v)) (\<lambda>_. ret v)) t"
  using assms by (simp_all add: SingletonPtr_GetInstance_def bindc_def)

text \<open>
  \<open>LoggerMgr\<close> is \<open>Singleton<LoggerManager>\<close>. The constructor registers the root logger and nothing removes it, so
  the object is constructed exactly when the registry is not empty.
\<close>

definition LoggerMgr_GetInstance :: "('z, unit) logc" where
  "LoggerMgr_GetInstance = Singleton_GetInstance (\<lambda>s. w_m_loggers s \<noteq> []) LoggerManager_new"

definition SYLAR_LOG_ROOT :: "('z, addr) logc" where
  "SYLAR_LOG_ROOT = bindc LoggerMgr_GetInstance (\<lambda>_. LoggerManager_getRoot)"

definition SYLAR_LOG_NAME :: "string \<Rightarrow> ('z, addr) logc" where
  "SYLAR_LOG_NAME name = bindc LoggerMgr_GetInstance (\<lambda>_. LoggerManager_getLogger name)"

section \<open>The variables of the program\<close>

text \<open>The values of its two variables, and \<open>typeid(T).name()\<close> of their types.\<close>

datatype cfg_value = UInt32 u32 | LogDefines "LogDefine list"

definition uint32_type :: string where
  "uint32_type = ''j''"

definition log_defines_type :: string where
  "log_defines_type = ''St3setIN5sylar9LogDefineESt4lessIS1_ESaIS1_EE''"

text \<open>
  The conversions of the two types, with \<open>boost::lexical_cast\<close> between texts and \<open>uint32_t\<close> as a
  parameter, and the only listener, that of the variable \<open>logs\<close>.
\<close>

definition program_env ::
    "yaml_cpp \<Rightarrow> (string \<Rightarrow> u32 result) \<Rightarrow> (u32 \<Rightarrow> string result) \<Rightarrow> (exn \<Rightarrow> string) \<Rightarrow>
     (string \<times> addr \<Rightarrow> (string \<times> addr) list \<Rightarrow> (string \<times> addr) list) \<Rightarrow> cfg_value cfg_env" where
  "program_env Y of_text to_text what place =
     \<lparr>e_from = (\<lambda>T v.
        if T = uint32_type then bindc (lift_result (of_text v)) (\<lambda>n. ret (UInt32 n))
        else bindc (LogDefine_from_string Y v) (\<lambda>ds. ret (LogDefines ds))),
      e_to = (\<lambda>T v. case v of UInt32 n \<Rightarrow> to_text n | LogDefines ds \<Rightarrow> Inr (LogDefine_to_string Y ds)),
      e_call = (\<lambda>cb old new.
        case (old, new) of (LogDefines ds, LogDefines ds') \<Rightarrow> on_logger_conf_changed ds ds' | _ \<Rightarrow> raise Indeterminate),
      e_what = what, e_place = place, e_yaml = Y\<rparr>"

section \<open>Static initialisation\<close>

definition g_fiber_stack_size_init :: "cfg_value cfg_env \<Rightarrow> (cfg_value, addr) cfgc" where
  "g_fiber_stack_size_init E = Config_Lookup E uint32_type ''fiber.stack_size'' (UInt32 (1024 * 1024)) ''fiber stack size''"

datatype unit_name = LogCc | FiberCc | ThreadCc | UtilCc

text \<open>The dynamic initialisers of each file, in the order of the file.\<close>

fun unit_init :: "cfg_value cfg_env \<Rightarrow> unit_name \<Rightarrow> (cfg_value, unit) cfgc" where
  "unit_init E LogCc = bindc (g_log_defines E log_defines_type (LogDefines [])) LogIniter_new"
| "unit_init E FiberCc =
     bindc (SYLAR_LOG_NAME ''system'') (\<lambda>_. bindc (g_fiber_stack_size_init E) (\<lambda>_. ret ()))"
| "unit_init E ThreadCc = bindc (SYLAR_LOG_NAME ''system'') (\<lambda>_. ret ())"
| "unit_init E UtilCc = bindc (SYLAR_LOG_NAME ''system'') (\<lambda>_. ret ())"

definition static_init :: "cfg_value cfg_env \<Rightarrow> unit_name list \<Rightarrow> (cfg_value, unit) cfgc" where
  "static_init E order = for_each (unit_init E) order"

text \<open>The state in which the process starts.\<close>

definition process_start :: "'v cfg_world \<Rightarrow> bool" where
  "process_start s \<longleftrightarrow>
     w_loggers s = [] \<and> w_appenders s = [] \<and> w_m_loggers s = [] \<and> w_held s = {} \<and> dates_ok s \<and>
     c_vars s = [] \<and> c_datas s = [] \<and> c_fun_id s = (\<lambda>_. 0) \<and> c_rd s = [] \<and> c_wr s = {}"

text \<open>After some of the files: the logging part, and the variables.\<close>

definition logging_up :: "'v cfg_world \<Rightarrow> bool" where
  "logging_up s \<longleftrightarrow>
     log_ok s \<and> map fst (w_m_loggers s) = [''root'', ''system''] \<and> (\<forall>name. formatter_of s name = Some default_formatter)"

lemma formatter_of_part:
  assumes "w_loggers t = w_loggers s" and "w_m_loggers t = w_m_loggers s"
  shows "formatter_of t = formatter_of s"
proof -
  have "logger_at t = logger_at s" using assms(1) by (simp add: logger_at_def fun_eq_iff)
  with assms(2) show ?thesis unfolding formatter_of_def [abs_def] by (simp only:)
qed

definition stack_var :: "cfg_value ConfigVar" where
  "stack_var = \<lparr>cv_name = ''fiber.stack_size'', cv_description = ''fiber stack size'', cv_type = uint32_type,
     cv_val = UInt32 (1024 * 1024), cv_cbs = []\<rparr>"

definition logs_var :: "cfg_value ConfigVar" where
  "logs_var = \<lparr>cv_name = ''logs'', cv_description = ''logs config'', cv_type = log_defines_type,
     cv_val = LogDefines [], cv_cbs = [(1, 0)]\<rparr>"

text \<open>The variables by their names.\<close>

definition registry :: "'v cfg_world \<Rightarrow> string \<rightharpoonup> 'v ConfigVar" where
  "registry s name = (case map_of (c_datas s) name of None \<Rightarrow> None | Some i \<Rightarrow> var_at s i)"

definition registry_ok :: "'v cfg_world \<Rightarrow> bool" where
  "registry_ok s \<longleftrightarrow>
     cfg_idle s \<and> distinct (map fst (c_datas s)) \<and> (\<forall>n i. map_of (c_datas s) n = Some i \<longrightarrow> i < length (c_vars s))"

definition unit_vars :: "unit_name set \<Rightarrow> string \<rightharpoonup> cfg_value ConfigVar" where
  "unit_vars us =
     (\<lambda>_. None)(''fiber.stack_size'' := if FiberCc \<in> us then Some stack_var else None,
       ''logs'' := if LogCc \<in> us then Some logs_var else None)"

definition initialised :: "unit_name set \<Rightarrow> cfg_value cfg_world \<Rightarrow> bool" where
  "initialised us s \<longleftrightarrow>
     (if us \<subseteq> {LogCc} then w_loggers s = [] \<and> w_appenders s = [] \<and> w_m_loggers s = [] \<and> w_held s = {} \<and> dates_ok s
      else logging_up s) \<and>
     registry_ok s \<and> registry s = unit_vars us \<and> (LogCc \<notin> us \<longrightarrow> c_fun_id s log_defines_type = 0)"

lemma process_start_initialised: "process_start s \<Longrightarrow> initialised {} s"
  by (simp add: process_start_def initialised_def registry_ok_def cfg_idle_def registry_def unit_vars_def fun_eq_iff)

lemma Lookup_new:
  assumes "cfg_idle s" and "map_of (c_datas s) name = None" and "\<not> has_char_not_of name_chars name"
  shows "Config_Lookup E T name d desc s = (Inr (length (c_vars s)), register E T name d desc s)"
  using assms by (simp add: Config_Lookup_def with_wrlock_def cfg_idle_def Lookup_create_valid register_def)

text \<open>Asking for the logger \<open>system\<close>, which the first of the files creates together with the manager.\<close>

lemma SYLAR_LOG_NAME_system:
  assumes "initialised us s"
  shows "\<exists>t l. SYLAR_LOG_NAME ''system'' s = (Inr l, t) \<and> logging_up t \<and> cfg_eq t s"
proof (cases "us \<subseteq> {LogCc}")
  case True
  then have s: "w_loggers s = []" "w_appenders s = []" "w_m_loggers s = []" "w_held s = {}" "dates_ok s"
    using assms by (simp_all add: initialised_def)
  let ?s1 = "s\<lparr>w_loggers := [(fresh_logger ''root'' None)\<lparr>lg_appenders := [0]\<rparr>], w_appenders := [console_appender],
     w_root := 0, w_m_loggers := [(''root'', 0)]\<rparr>"
  note new = LoggerManager_new_eval [OF s(1,2,4)]
  have "log_init ?s1" unfolding log_init_def using new s by blast
  then have inv: "log_inv ?s1" by (rule inv_log_init)
  have free: "w_held ?s1 = {}" "map_of (w_m_loggers ?s1) ''system'' = None" using s(4) by simp_all
  let ?t = "snd (LoggerManager_getLogger ''system'' ?s1)"
  have t: "LoggerManager_getLogger ''system'' ?s1 = (Inr 1, ?t)" "w_m_loggers ?t = [(''root'', 0), (''system'', 1)]"
    "w_strftime ?t = w_strftime s" "log_world.more ?t = log_world.more s"
    unfolding LoggerManager_getLogger_fresh [OF free] by (simp_all add: less_char_def)
  have inv_t: "log_inv ?t" by (rule inv_LoggerManager_getLogger [OF inv])
  have "w_loggers ?t = [(fresh_logger ''root'' None)\<lparr>lg_appenders := [0]\<rparr>, fresh_logger ''system'' (Some 0)]"
    unfolding LoggerManager_getLogger_fresh [OF free] by simp
  then have "formatter_of ?t name = Some default_formatter" for name
    using t(2) by (simp add: formatter_of_def logger_at_def fresh_logger_def split: option.split)
  with inv_t have "logging_up ?t" using s(5) t(2,3) by (simp add: logging_up_def log_ok_def dates_ok_def)
  moreover have "SYLAR_LOG_NAME ''system'' s = (Inr 1, ?t)"
    using s(3) t(1) by (simp add: SYLAR_LOG_NAME_def LoggerMgr_GetInstance_def Singleton_GetInstance_def bindc_def new)
  moreover have "cfg_eq ?t s" using t(4) by (simp add: cfg_eq_def)
  ultimately show ?thesis by blast
next
  case False
  then have up: "logging_up s" using assms by (simp add: initialised_def)
  then have held: "w_held s = {}" and names: "map fst (w_m_loggers s) = [''root'', ''system'']"
    by (simp_all add: logging_up_def log_ok_held)
  then obtain l where "map_of (w_m_loggers s) ''system'' = Some l" "w_m_loggers s \<noteq> []"
    by (cases "w_m_loggers s"; cases "tl (w_m_loggers s)") auto
  with held up show ?thesis
    by (simp add: SYLAR_LOG_NAME_def LoggerMgr_GetInstance_def Singleton_GetInstance_def bindc_def LoggerManager_getLogger_known)
qed

lemma registry_eq: "cfg_eq t s \<Longrightarrow> registry t = registry s \<and> registry_ok t = registry_ok s \<and> c_fun_id t = c_fun_id s"
  using cfg_eq_var_at [of t s]
  by (auto simp: registry_def [abs_def] registry_ok_def cfg_eq_iff cfg_idle_def cong: option.case_cong)

lemma names_valid: "\<not> has_char_not_of name_chars ''fiber.stack_size''" "\<not> has_char_not_of name_chars ''logs''"
  by (simp_all add: has_char_not_of_def name_chars_def)

lemma registry_None: "registry_ok s \<Longrightarrow> registry s n = None \<Longrightarrow> map_of (c_datas s) n = None"
  by (auto simp: registry_def registry_ok_def var_at_def split: option.splits)

lemma registry_new:
  assumes place: "\<And>p m. mset (e_place E p m) = add_mset p (mset m)" and s: "registry_ok s"
    and t: "c_datas t = datas_put (e_place E) name (length (c_vars s)) (c_datas s)" "c_vars t = c_vars s @ [cv]" "cfg_idle t"
  shows "registry_ok t" and "registry t = (registry s)(name \<mapsto> cv)"
proof -
  have dist: "distinct (map fst (c_datas s))" and less: "\<And>n i. map_of (c_datas s) n = Some i \<Longrightarrow> i < length (c_vars s)"
    using s by (auto simp: registry_ok_def)
  note put = datas_put_facts [of "e_place E", OF place dist, of name "length (c_vars s)"]
  show "registry_ok t" using put t less by (auto simp: registry_ok_def less_SucI split: if_splits)
  show "registry t = (registry s)(name \<mapsto> cv)"
  proof
    fix n
    show "registry t n = ((registry s)(name \<mapsto> cv)) n"
      using put(2) t less [of n] by (auto simp: registry_def var_at_def nth_append split: option.splits)
  qed
qed

lemma init_stack_size:
  assumes place: "\<And>p m. mset (e_place E p m) = add_mset p (mset m)" and s: "registry_ok s" "registry s = unit_vars us"
    and new: "FiberCc \<notin> us"
  shows "\<exists>i t. g_fiber_stack_size_init E s = (Inr i, t) \<and> registry_ok t \<and> registry t = unit_vars (insert FiberCc us) \<and>
     (logging_up s \<longrightarrow> logging_up t) \<and> c_fun_id t = c_fun_id s"
proof -
  let ?t = "register E uint32_type ''fiber.stack_size'' (UInt32 (1024 * 1024)) ''fiber stack size'' s"
  have none: "map_of (c_datas s) ''fiber.stack_size'' = None"
    using s new registry_None [OF s(1), of "''fiber.stack_size''"] by (simp add: unit_vars_def)
  have idle: "cfg_idle s" using s by (simp add: registry_ok_def)
  have "c_datas ?t = datas_put (e_place E) ''fiber.stack_size'' (length (c_vars s)) (c_datas s)"
    "c_vars ?t = c_vars s @ [stack_var]" "cfg_idle ?t"
    using idle by (simp_all only: register_fields) (simp_all add: register_def stack_var_def)
  note reg = registry_new [OF place s(1) this]
  have "unit_vars (insert FiberCc us) = (unit_vars us)(''fiber.stack_size'' \<mapsto> stack_var)"
    by (auto simp: unit_vars_def fun_eq_iff)
  moreover have "formatter_of ?t = formatter_of s" by (rule formatter_of_part) (simp_all add: register_def)
  then have "logging_up ?t = logging_up s" by (simp add: logging_up_def) (simp add: register_def)
  ultimately show ?thesis
    using reg Lookup_new [OF idle none names_valid(1)] s(2) by (simp add: g_fiber_stack_size_init_def)
qed

lemma init_logs:
  assumes place: "\<And>p m. mset (e_place E p m) = add_mset p (mset m)" and s: "registry_ok s" "registry s = unit_vars us"
    and new: "LogCc \<notin> us" and fid: "c_fun_id s log_defines_type = 0"
  shows "\<exists>t. unit_init E LogCc s = (Inr (), t) \<and> registry_ok t \<and> registry t = unit_vars (insert LogCc us) \<and>
     log_world.truncate t = log_world.truncate s"
proof -
  let ?i = "length (c_vars s)" let ?t = "register E log_defines_type ''logs'' (LogDefines []) ''logs config'' s"
  have none: "map_of (c_datas s) ''logs'' = None" using s new registry_None [OF s(1), of "''logs''"] by (simp add: unit_vars_def)
  have idle: "cfg_idle s" using s by (simp add: registry_ok_def)
  let ?cv = "\<lparr>cv_name = ''logs'', cv_description = ''logs config'', cv_type = log_defines_type, cv_val = LogDefines [], cv_cbs = []\<rparr>"
  have at: "cfg_idle ?t" "var_at ?t ?i = Some ?cv" using idle by (simp_all add: var_at_register)
  let ?u = "put_var ?i logs_var (?t\<lparr>c_fun_id := (c_fun_id ?t)(log_defines_type := 1)\<rparr>)"
  have "ConfigVar_addListener ?i 0 ?t = (Inr 1, ?u)" using fid by (simp add: addListener_eval [OF at] logs_var_def)
  then have "unit_init E LogCc s = (Inr (), ?u)"
    using Lookup_new [OF idle none names_valid(2)] by (simp add: g_log_defines_def LogIniter_new_def bindc_def ret_apply)
  moreover have "c_vars ?u = c_vars s @ [logs_var]" "c_datas ?u = datas_put (e_place E) ''logs'' ?i (c_datas s)"
    by (simp_all add: register_def)
  moreover have "cfg_idle ?u" using idle by (simp add: cfg_idle_def register_def)
  moreover have "unit_vars (insert LogCc us) = (unit_vars us)(''logs'' \<mapsto> logs_var)"
    by (auto simp: unit_vars_def fun_eq_iff)
  moreover have "log_world.truncate ?u = log_world.truncate s"
    by (simp add: log_world.defs put_var_def register_def)
  ultimately show ?thesis using registry_new [OF place s(1), of ?u "''logs''" logs_var] s(2) by (intro exI [of _ ?u]) simp
qed

lemma logging_part:
  fixes s t :: "'v cfg_world"
  assumes "log_world.truncate t = log_world.truncate s"
  shows "logging_up t = logging_up s" and "w_loggers t = w_loggers s" "w_appenders t = w_appenders s"
    "w_m_loggers t = w_m_loggers s" "w_held t = w_held s" "dates_ok t = dates_ok s"
  using assms formatter_of_part [of t s]
  by (simp_all add: log_world.defs logging_up_def log_ok_def log_inv_def wf_log_def logger_ok_def logger_name_def
      logger_at_def appender_at_def dates_ok_def)

text \<open>One more file.\<close>

lemma unit_init_step:
  assumes place: "\<And>p m. mset (e_place E p m) = add_mset p (mset m)" and s: "initialised us s" and new: "u \<notin> us"
  shows "\<exists>t. unit_init E u s = (Inr (), t) \<and> initialised (insert u us) t"
proof (cases "u = LogCc")
  case True
  from s have reg: "registry_ok s" "registry s = unit_vars us" "c_fun_id s log_defines_type = 0"
    using new True by (simp_all add: initialised_def)
  obtain t where t: "unit_init E LogCc s = (Inr (), t)" "registry_ok t" "registry t = unit_vars (insert LogCc us)"
    "log_world.truncate t = log_world.truncate s"
    using init_logs [OF place reg(1,2) _ reg(3)] new True by blast
  then have "initialised (insert LogCc us) t"
    using s logging_part [OF t(4)] by (simp add: initialised_def)
  with t(1) True show ?thesis by blast
next
  case False
  obtain l s1 where s1: "SYLAR_LOG_NAME ''system'' s = (Inr l, s1)" "logging_up s1" "cfg_eq s1 s"
    using SYLAR_LOG_NAME_system [OF s] by blast
  have reg: "registry_ok s1" "registry s1 = unit_vars us" "LogCc \<notin> us \<longrightarrow> c_fun_id s1 log_defines_type = 0"
    using s registry_eq [OF s1(3)] by (auto simp: initialised_def)
  have more: "\<not> insert u us \<subseteq> {LogCc}" using False by simp
  show ?thesis
  proof (cases "u = FiberCc")
    case True
    obtain i t where "g_fiber_stack_size_init E s1 = (Inr i, t)" "registry_ok t" "registry t = unit_vars (insert FiberCc us)"
      "logging_up t" "c_fun_id t = c_fun_id s1"
      using init_stack_size [OF place reg(1,2)] new True s1(2) by blast
    with True s1(1) reg(3) more show ?thesis by (simp add: bindc_def ret_apply initialised_def)
  next
    case not_fiber: False
    with False have "unit_vars (insert u us) = unit_vars us" by (auto simp: unit_vars_def)
    then have "initialised (insert u us) s1" using s1(2) reg more False by (simp add: initialised_def)
    moreover have "unit_init E u s = (Inr (), s1)" using False not_fiber s1(1) by (cases u) (simp_all add: bindc_def ret_apply)
    ultimately show ?thesis by blast
  qed
qed

lemma static_init_steps:
  assumes place: "\<And>p m. mset (e_place E p m) = add_mset p (mset m)" and s: "initialised us s"
    and "distinct order" and "set order \<inter> us = {}"
  shows "\<exists>t. static_init E order s = (Inr (), t) \<and> initialised (us \<union> set order) t"
  using assms(2-4)
proof (induction order arbitrary: us s)
  case (Cons u order)
  then have "u \<notin> us" by simp
  from unit_init_step [OF place Cons.prems(1) this] obtain s1 where
    s1: "unit_init E u s = (Inr (), s1)" "initialised (insert u us) s1" by blast
  from Cons.IH [OF s1(2)] Cons.prems(2,3) obtain t where
    "static_init E order s1 = (Inr (), t)" "initialised (insert u us \<union> set order) t" by auto
  with s1(1) show ?case by (auto simp: static_init_def)
qed (simp add: static_init_def)

section \<open>A configuration file for the whole program\<close>

definition program_file :: "string \<Rightarrow> LogDefine list \<Rightarrow> Node" where
  "program_file size_text defs =
     Map [(Scalar ''fiber'', Map [(Scalar ''stack_size'', Scalar size_text)]), (Scalar ''logs'', seq_node (map LogDefine_node defs))]"

lemma program_file_members:
  assumes "defs \<noteq> []"
  shows "members [] (program_file size_text defs) =
     [([], program_file size_text defs), (''fiber'', Map [(Scalar ''stack_size'', Scalar size_text)]),
      (''fiber.stack_size'', Scalar size_text), (''logs'', seq_node (map LogDefine_node defs))]"
  using assms
  by (simp add: members.simps members_loop.simps program_file_def seq_node_def has_char_not_of_def name_chars_def)

text \<open>The process between the start of \<open>main\<close> and the first change.\<close>

definition started :: "u32 \<Rightarrow> LogDefine list \<Rightarrow> cfg_value cfg_world \<Rightarrow> bool" where
  "started n ds s \<longleftrightarrow>
     log_ok s \<and> registry_ok s \<and>
     registry s = [''fiber.stack_size'' \<mapsto> stack_var\<lparr>cv_val := UInt32 n\<rparr>, ''logs'' \<mapsto> logs_var\<lparr>cv_val := LogDefines ds\<rparr>]"

lemma started_vars:
  assumes "started n ds s"
  obtains i j where "map_of (c_datas s) ''fiber.stack_size'' = Some i" "var_at s i = Some (stack_var\<lparr>cv_val := UInt32 n\<rparr>)"
    "map_of (c_datas s) ''logs'' = Some j" "var_at s j = Some (logs_var\<lparr>cv_val := LogDefines ds\<rparr>)" "i \<noteq> j" "cfg_idle s"
proof -
  have reg: "registry s ''fiber.stack_size'' = Some (stack_var\<lparr>cv_val := UInt32 n\<rparr>)"
    "registry s ''logs'' = Some (logs_var\<lparr>cv_val := LogDefines ds\<rparr>)" using assms by (simp_all add: started_def)
  then obtain i j where "map_of (c_datas s) ''fiber.stack_size'' = Some i" "var_at s i = Some (stack_var\<lparr>cv_val := UInt32 n\<rparr>)"
    "map_of (c_datas s) ''logs'' = Some j" "var_at s j = Some (logs_var\<lparr>cv_val := LogDefines ds\<rparr>)"
    by (auto simp: registry_def split: option.splits)
  moreover from this have "i \<noteq> j" by (auto simp: stack_var_def logs_var_def)
  moreover have "cfg_idle s" using assms by (simp add: started_def registry_ok_def)
  ultimately show thesis by (rule that)
qed

text \<open>Changing one of the two variables.\<close>

lemma registry_put_var:
  assumes "registry_ok s" and "map_of (c_datas s) name = Some i" and "\<And>n. map_of (c_datas s) n = Some i \<Longrightarrow> n = name"
  shows "registry (put_var i cv s) = (registry s)(name \<mapsto> cv)" and "registry_ok (put_var i cv s)"
proof -
  show "registry_ok (put_var i cv s)" using assms(1) by (simp add: registry_ok_def)
  have "var_at s i \<noteq> None" using assms(1,2) by (auto simp: registry_ok_def var_at_def)
  show "registry (put_var i cv s) = (registry s)(name \<mapsto> cv)"
  proof
    fix x
    show "registry (put_var i cv s) x = ((registry s)(name \<mapsto> cv)) x"
    proof (cases "x = name")
      case True
      with assms(2) \<open>var_at s i \<noteq> None\<close> show ?thesis by (simp add: registry_def var_at_put_var)
    next
      case False
      then have "map_of (c_datas s) x \<noteq> Some i" using assms(3) by blast
      with False show ?thesis by (auto simp: registry_def var_at_put_var split: option.splits)
    qed
  qed
qed

lemma started_only:
  assumes "started n ds s" and "map_of (c_datas s) x = Some i"
  shows "x = ''fiber.stack_size'' \<or> x = ''logs''"
proof (rule ccontr)
  assume "\<not> ?thesis"
  then have "registry s x = None" using assms(1) by (auto simp: started_def)
  with assms registry_None [of s x] show False by (auto simp: started_def)
qed

lemma started_put_stack:
  assumes "started n ds s" and "map_of (c_datas s) ''fiber.stack_size'' = Some i"
  shows "started m ds (put_var i (stack_var\<lparr>cv_val := UInt32 m\<rparr>) s)"
proof -
  have "map_of (c_datas s) ''logs'' \<noteq> Some i" using started_vars [OF assms(1)] assms(2) by (metis option.inject)
  then have "x = ''fiber.stack_size''" if "map_of (c_datas s) x = Some i" for x using started_only [OF assms(1) that] that by blast
  from registry_put_var [OF _ assms(2) this] assms(1) show ?thesis
    by (simp add: started_def fun_upd_twist)
qed

lemma started_put_logs:
  assumes "started n ds s" and "map_of (c_datas s) ''logs'' = Some i"
  shows "started n ds' (put_var i (logs_var\<lparr>cv_val := LogDefines ds'\<rparr>) s)"
proof -
  have "map_of (c_datas s) ''fiber.stack_size'' \<noteq> Some i" using started_vars [OF assms(1)] assms(2) by (metis option.inject)
  then have "x = ''logs''" if "map_of (c_datas s) x = Some i" for x using started_only [OF assms(1) that] that by blast
  from registry_put_var [OF _ assms(2) this] assms(1) show ?thesis
    by (simp add: started_def fun_upd_twist)
qed

lemma started_eq: "cfg_eq t s \<Longrightarrow> log_ok t \<Longrightarrow> started n ds s \<Longrightarrow> started n ds t"
  using registry_eq [of t s] by (simp add: started_def)

lemma program_env_keeps: "calls_keep (program_env Y of_text to_text what place)"
  using keeps_moreD [OF keeps_on_logger_conf_changed]
  by (auto simp: calls_keep_def program_env_def cfg_eq_def raise_apply split: cfg_value.splits)

lemma load_stack_size:
  assumes s: "started n ds s" and num: "of_text size_text = Inr m"
  shows "\<exists>t. LoadFromYaml_entry (program_env Y of_text to_text what place) (''fiber.stack_size'', Scalar size_text) s = (Inr (), t) \<and>
     started m ds t \<and> w_m_loggers t = w_m_loggers s \<and> w_loggers t = w_loggers s"
proof -
  let ?E = "program_env Y of_text to_text what place" let ?cv = "stack_var\<lparr>cv_val := UInt32 n\<rparr>"
  obtain i where i: "map_of (c_datas s) ''fiber.stack_size'' = Some i" "var_at s i = Some ?cv" "cfg_idle s"
    using s by (rule started_vars)
  let ?t = "put_var i (stack_var\<lparr>cv_val := UInt32 m\<rparr>) s"
  have "for_each (\<lambda>(key, cb). e_call ?E cb (cv_val ?cv) (UInt32 m)) (cv_cbs ?cv) (s\<lparr>c_rd := [VarMutex i]\<rparr>) =
      (Inr (), s\<lparr>c_rd := [VarMutex i]\<rparr>)" by (simp add: stack_var_def)
  note set = setValue_calls [OF i(3,2) program_env_keeps this]
  have "ConfigVar_setValue ?E i (UInt32 m) s = (Inr (), ?t)"
  proof (cases "m = n")
    case True
    then show ?thesis using set put_var_same [OF i(2)] by simp
  next
    case False
    then show ?thesis using set i(3) by (simp add: put_var_def cfg_idle_def)
  qed
  moreover have "e_from ?E (cv_type ?cv) size_text s = (Inr (UInt32 m), s)"
    using num by (simp add: program_env_def stack_var_def bindc_def lift_result_apply ret_apply)
  ultimately have "ConfigVar_fromString ?E i size_text s = (Inr False, ?t)"
    using i(2) by (simp add: ConfigVar_fromString_def bindc_def get_var_Some catch_std_def ret_apply)
  moreover have "map c_tolower ''fiber.stack_size'' = ''fiber.stack_size''" by (rule tolower_valid [OF names_valid(1)])
  ultimately have "LoadFromYaml_entry ?E (''fiber.stack_size'', Scalar size_text) s = (Inr (), ?t)"
    using LookupBase_eval [OF i(3), of "''fiber.stack_size''"] i(1)
    by (simp add: LoadFromYaml_entry_def bindc_def ret_apply del: list.map)
  moreover have "w_m_loggers ?t = w_m_loggers s" "w_loggers ?t = w_loggers s" by (simp_all add: put_var_def)
  ultimately show ?thesis using started_put_stack [OF s i(1)] by blast
qed

lemma load_logs:
  assumes Y: "yaml_laws Y" and s: "started n [] s"
    and defs: "defines_sorted defs" "\<forall>d \<in> set defs. define_ok d" "defs \<noteq> []"
  shows "\<exists>t. LoadFromYaml_entry (program_env Y of_text to_text what place) (''logs'', seq_node (map LogDefine_node defs)) s = (Inr (), t) \<and>
     started n (map strip_define defs) t \<and> map_of (w_m_loggers s) \<subseteq>\<^sub>m map_of (w_m_loggers t) \<and>
     (\<forall>d \<in> set defs. stands (conf_as (formatter_of s (ld_name d)) (strip_define d)) t (ld_name d))"
proof -
  let ?E = "program_env Y of_text to_text what place" let ?new = "map strip_define defs" let ?text = "LogDefine_to_string Y defs"
  let ?cv = "logs_var\<lparr>cv_val := LogDefines []\<rparr>"
  obtain j where j: "map_of (c_datas s) ''logs'' = Some j" "var_at s j = Some ?cv" "cfg_idle s"
    using s by (rule started_vars)
  have ok: "log_ok s" using s by (simp add: started_def)
  have sorted: "defines_sorted ?new" "defines_sorted []" "set ?new \<inter> set [] = {}" using defs(1) by (simp_all add: sorted_wrt_map)
  have types: "\<forall>d \<in> set ?new. \<forall>a \<in> set (ld_appenders d). lad_type a = 1 \<or> lad_type a = 2"
    using defs(2) by (auto simp: define_ok_def strip_define_def strip_appender_def)
  have "e_from ?E (cv_type ?cv) ?text s = (Inr (LogDefines ?new), s)"
    using LogDefine_cast_roundtrip [OF Y defs(1,2), of s]
    by (simp add: program_env_def logs_var_def log_defines_type_def uint32_type_def bindc_def ret_apply)
  moreover have "e_call ?E cb (LogDefines []) (LogDefines ?new) = on_logger_conf_changed [] ?new" for cb
    by (simp add: program_env_def)
  moreover have "LogDefines ?new \<noteq> LogDefines []" "cv_cbs ?cv = [(1, 0)]" "cv_val ?cv = LogDefines []"
    using defs(3) by (simp_all add: logs_var_def)
  ultimately obtain t where t: "ConfigVar_fromString ?E j ?text s = (Inr False, put_var j (?cv\<lparr>cv_val := LogDefines ?new\<rparr>) t)"
    "log_ok t" "cfg_eq t s" "\<forall>d \<in> set ?new. stands (conf_as (formatter_of s (ld_name d)) d) t (ld_name d)"
    "map_of (w_m_loggers s) \<subseteq>\<^sub>m map_of (w_m_loggers t)"
    using logs_fromString_gen [where inj = LogDefines, OF program_env_keeps _ _ _ ok j(3,2) _ _ sorted(1) types sorted(2,3)] by metis
  have Yeq: "e_yaml ?E = Y" and emit: "y_emit Y (seq_node (map LogDefine_node defs)) = ?text"
    by (simp_all add: program_env_def LogDefine_to_string_def)
  have "map c_tolower ''logs'' = ''logs''" by (rule tolower_valid [OF names_valid(2)])
  moreover have "Node_IsScalar (seq_node (map LogDefine_node defs)) = False" using defs(3) by (simp add: seq_node_def)
  ultimately have "LoadFromYaml_entry ?E (''logs'', seq_node (map LogDefine_node defs)) s =
      (Inr (), put_var j (?cv\<lparr>cv_val := LogDefines ?new\<rparr>) t)"
    using LookupBase_eval [OF j(3), of "''logs''"] j(1) t(1)
    by (simp add: LoadFromYaml_entry_def bindc_def ret_apply emit Yeq del: list.map)
  moreover have "started n ?new (put_var j (?cv\<lparr>cv_val := LogDefines ?new\<rparr>) t)"
    using started_put_logs [OF started_eq [OF t(3,2) s], of j ?new] j(1) t(3) by (simp add: cfg_eq_iff)
  moreover have "w_m_loggers (put_var j (?cv\<lparr>cv_val := LogDefines ?new\<rparr>) t) = w_m_loggers t" by (simp add: put_var_def)
  ultimately show ?thesis using t(4,5) by (auto simp: stands_put_var)
qed

lemma load_program_file:
  assumes Y: "yaml_laws Y" and s: "started n [] s" and num: "of_text size_text = Inr m"
    and defs: "defines_sorted defs" "\<forall>d \<in> set defs. define_ok d" "defs \<noteq> []"
  shows "\<exists>t. Config_LoadFromYaml (program_env Y of_text to_text what place) (program_file size_text defs) s = (Inr (), t) \<and>
     started m (map strip_define defs) t \<and> map_of (w_m_loggers s) \<subseteq>\<^sub>m map_of (w_m_loggers t) \<and>
     (\<forall>d \<in> set defs. stands (conf_as (formatter_of s (ld_name d)) (strip_define d)) t (ld_name d))"
proof -
  let ?E = "program_env Y of_text to_text what place" let ?file = "program_file size_text defs"
  have Yeq: "e_yaml ?E = Y" by (simp add: program_env_def)
  obtain s1 where s1: "ListAllMember Y [] ?file [] s = (Inr (members [] ?file), s1)" "log_frame s s1"
    using ListAllMember_members(1) [of s Y "[]" ?file "[]"] s by (auto simp: started_def)
  have st1: "started n [] s1"
    using s started_eq [OF log_frame_cfg_eq [OF s1(2)] log_ok_frame [OF s1(2)]] by (auto simp: started_def)
  then have idle: "cfg_idle s1" by (simp add: started_def registry_ok_def)
  have nofiber: "map_of (c_datas s1) ''fiber'' = None"
    using started_only [OF st1, of "''fiber''"] by (cases "map_of (c_datas s1) ''fiber''") auto
  have skip: "LoadFromYaml_entry ?E ([], ?file) s1 = (Inr (), s1)"
    "LoadFromYaml_entry ?E (''fiber'', node) s1 = (Inr (), s1)" for node
    using LookupBase_eval [OF idle, of "''fiber''"] nofiber
    by (simp_all add: LoadFromYaml_entry_def bindc_def ret_apply c_tolower_def)
  obtain s2 where s2: "LoadFromYaml_entry ?E (''fiber.stack_size'', Scalar size_text) s1 = (Inr (), s2)" "started m [] s2"
    "w_m_loggers s2 = w_m_loggers s1" "w_loggers s2 = w_loggers s1"
    using load_stack_size [of n "[]" s1 of_text, OF st1 num] by blast
  have eq: "w_m_loggers s1 = w_m_loggers s" "w_loggers s1 = w_loggers s" using s1(2) by (simp_all add: log_frame_def)
  then have "formatter_of s2 = formatter_of s" by (intro formatter_of_part) (simp_all add: s2(3,4))
  with eq(1) load_logs [OF Y s2(2) defs, of of_text to_text what place] s2(1,3) skip s1(1) show ?thesis
    by (auto simp: Config_LoadFromYaml_def bindc_def Yeq program_file_members [OF defs(3)])
qed

section \<open>Properties\<close>

lemma init_place: "(\<And>p m. mset (place p m) = add_mset p (mset m)) \<Longrightarrow>
    mset (e_place (program_env Y of_text to_text what place) p m) = add_mset p (mset m)"
  by (simp add: program_env_def)

lemma all_units: "mset order = {#LogCc, FiberCc, ThreadCc, UtilCc#} \<Longrightarrow> distinct order \<and> set order = UNIV"
proof -
  assume m: "mset order = {#LogCc, FiberCc, ThreadCc, UtilCc#}"
  then have "mset order = mset [LogCc, FiberCc, ThreadCc, UtilCc]" by simp
  then have "distinct order = distinct [LogCc, FiberCc, ThreadCc, UtilCc]" "set order = set [LogCc, FiberCc, ThreadCc, UtilCc]"
    by (rule mset_eq_imp_distinct_iff, rule mset_eq_setD)
  moreover have "u \<in> set [LogCc, FiberCc, ThreadCc, UtilCc]" for u by (cases u) simp_all
  ultimately show ?thesis by auto
qed

lemma static_init_all:
  assumes "process_start s" and "mset order = {#LogCc, FiberCc, ThreadCc, UtilCc#}"
    and place: "\<And>p m. mset (place p m) = add_mset p (mset m)"
  shows "\<exists>t. static_init (program_env Y of_text to_text what place) order s = (Inr (), t) \<and> logging_up t \<and> registry_ok t \<and>
     registry t = [''fiber.stack_size'' \<mapsto> stack_var, ''logs'' \<mapsto> logs_var]"
proof -
  have order: "distinct order" "set order = UNIV" using all_units [OF assms(2)] by blast+
  let ?E = "program_env Y of_text to_text what place"
  obtain t where t: "static_init ?E order s = (Inr (), t)" "initialised ({} \<union> set order) t"
    using static_init_steps [of ?E "{}" s order, OF init_place [OF place] process_start_initialised [OF assms(1)] order(1)] by auto
  have "\<not> UNIV \<subseteq> {LogCc}" using unit_name.distinct(1) by blast
  then show ?thesis using t order(2) by (auto simp: initialised_def unit_vars_def)
qed

text \<open>C22: the global objects of the program may be initialised in any order of the files. Always all initialisers return, and the
  process ends up with a well-formed logging system in which nobody holds a lock and exactly the loggers \<open>root\<close> and \<open>system\<close>
  are registered, and with exactly the two variables \<open>fiber.stack_size\<close> and \<open>logs\<close>, with their default values and the latter with
  its listener.\<close>

theorem static_init_any_order:
  assumes "process_start s" and "mset order = {#LogCc, FiberCc, ThreadCc, UtilCc#}"
    and place: "\<And>p m. mset (place p m) = add_mset p (mset m)"
  shows "\<exists>t. static_init (program_env Y of_text to_text what place) order s = (Inr (), t) \<and>
     wf_log t \<and> w_held t = {} \<and> cfg_idle t \<and> map fst (w_m_loggers t) = [''root'', ''system''] \<and>
     registry t = [''fiber.stack_size'' \<mapsto> stack_var, ''logs'' \<mapsto> logs_var]"
  using static_init_all [OF assms, of Y of_text to_text what] by (auto simp: logging_up_def log_ok_def log_inv_def registry_ok_def)

text \<open>The process before its static initialisation.\<close>

definition blank_process :: "cfg_value cfg_world" where
  "blank_process =
     \<lparr>w_loggers = [], w_appenders = [], w_m_loggers = [], w_root = 0, w_held = {}, w_cout = [],
      w_fs = \<lparr>fs_dir = Map.empty, fs_data = [], fs_writable = (\<lambda>_. True)\<rparr>, w_clock = 1000,
      w_strftime = (\<lambda>f t. Some ''now''), w_tid = 7, w_fid = 0, w_tname = ''main'',
      c_vars = [], c_datas = [], c_fun_id = (\<lambda>_. 0), c_rd = [], c_wr = {}\<rparr>"

lemma blank_process_start: "process_start blank_process"
  by (simp add: process_start_def blank_process_def dates_ok_def)

definition demo_program_env :: "cfg_value cfg_env" where
  "demo_program_env = program_env small_yaml (\<lambda>t. if t = ''2048'' then Inr 2048 else Inl (Throw bad_lexical_cast))
     (\<lambda>n. Inr (show_nat (unat n))) (\<lambda>e. ''error'') (\<lambda>p m. m @ [p])"

theorem static_init_any_order_witness:
  "\<exists>t. static_init demo_program_env [FiberCc, UtilCc, LogCc, ThreadCc] blank_process = (Inr (), t) \<and>
     registry t = [''fiber.stack_size'' \<mapsto> stack_var, ''logs'' \<mapsto> logs_var]"
  unfolding demo_program_env_def
  using static_init_any_order [OF blank_process_start, of "[FiberCc, UtilCc, LogCc, ThreadCc]" "\<lambda>p m. m @ [p]" small_yaml
      "\<lambda>t. if t = ''2048'' then Inr 2048 else Inl (Throw bad_lexical_cast)" "\<lambda>n. Inr (show_nat (unat n))" "\<lambda>e. ''error''"]
  by (simp add: add_mset_commute) blast

text \<open>C5: the program from its start to its configuration. Whatever the order of the initialisers, loading a configuration
  file with a stack size that \<open>lexical_cast\<close> reads and a section of logger definitions returns, sets the variable
  \<open>fiber.stack_size\<close> to that size and the variable \<open>logs\<close> to the definitions of the file, and its listener has brought
  the live loggers in line: every definition has a registered logger with its level, the formatter of its pattern (the default
  one when it has none or a faulty one) and, in order, appenders of its own of the classes and files it names, each with the
  formatter of its own pattern or else that of the logger. The levels of appenders are not read from the file: they become \<open>UNKNOW\<close>.\<close>

theorem program_configured:
  assumes "process_start s" and "mset order = {#LogCc, FiberCc, ThreadCc, UtilCc#}"
    and place: "\<And>p m. mset (place p m) = add_mset p (mset m)" and Y: "yaml_laws Y"
    and num: "of_text size_text = Inr n"
    and defs: "defines_sorted defs" "\<forall>d \<in> set defs. define_ok d" "defs \<noteq> []"
  shows "\<exists>t. bindc (static_init (program_env Y of_text to_text what place) order)
        (\<lambda>_. Config_LoadFromYaml (program_env Y of_text to_text what place) (program_file size_text defs)) s = (Inr (), t) \<and>
     wf_log t \<and> w_held t = {} \<and>
     registry t =
       [''fiber.stack_size'' \<mapsto> stack_var\<lparr>cv_val := UInt32 n\<rparr>,
        ''logs'' \<mapsto> logs_var\<lparr>cv_val := LogDefines (map strip_define defs)\<rparr>] \<and>
     (\<forall>d \<in> set defs. stands (conf_as (Some default_formatter) (strip_define d)) t (ld_name d))"
proof -
  let ?E = "program_env Y of_text to_text what place"
  obtain s1 where s1: "static_init ?E order s = (Inr (), s1)" "logging_up s1" "registry_ok s1"
      "registry s1 = [''fiber.stack_size'' \<mapsto> stack_var, ''logs'' \<mapsto> logs_var]"
    using static_init_all [OF assms(1-3), of Y of_text to_text what] by blast
  then have "started (1024 * 1024) [] s1" by (simp add: started_def logging_up_def stack_var_def logs_var_def)
  from load_program_file [of Y "1024 * 1024" s1 of_text, OF Y this num defs, of to_text what place] obtain t where
    "Config_LoadFromYaml ?E (program_file size_text defs) s1 = (Inr (), t)" "started n (map strip_define defs) t"
    "\<forall>d \<in> set defs. stands (conf_as (formatter_of s1 (ld_name d)) (strip_define d)) t (ld_name d)" by blast
  moreover have "formatter_of s1 name = Some default_formatter" for name using s1(2) by (simp add: logging_up_def)
  ultimately show ?thesis using s1(1) by (auto simp: bindc_def started_def log_ok_def log_inv_def)
qed

theorem program_configured_witness:
  "\<exists>t. bindc (static_init demo_program_env [LogCc, FiberCc, ThreadCc, UtilCc])
       (\<lambda>_. Config_LoadFromYaml demo_program_env (program_file ''2048'' [define_a])) blank_process = (Inr (), t) \<and>
     registry t ''fiber.stack_size'' = Some (stack_var\<lparr>cv_val := UInt32 2048\<rparr>) \<and> stands (conf_as (Some default_formatter) define_a) t ''a''"
proof -
  have a: "strip_define define_a = define_a" "define_ok define_a" "ld_name define_a = ''a''"
    by (simp_all add: define_a_def file_define_def strip_define_def strip_appender_def define_ok_def)
  have "mset [LogCc, FiberCc, ThreadCc, UtilCc] = {#LogCc, FiberCc, ThreadCc, UtilCc#}" by simp
  from program_configured [OF blank_process_start this _ small_yaml_laws, of "\<lambda>p m. m @ [p]"
      "\<lambda>t. if t = ''2048'' then Inr 2048 else Inl (Throw bad_lexical_cast)" "''2048''" 2048 "[define_a]"
      "\<lambda>n. Inr (show_nat (unat n))" "\<lambda>e. ''error''"] a
  show ?thesis unfolding demo_program_env_def by auto
qed

end
