(* ===== verification/Util.thy ===== *)
theory Util
  imports ConfigOps
begin

text \<open>
  \<open>src/sylar/util.cc\<close> and \<open>src/sylar/macro.h\<close>: stack traces and the assertion macros. \<open>symbols n\<close>
  stands for \<open>backtrace\<close> with a buffer of \<open>n\<close> entries followed by \<open>backtrace_symbols\<close>:
  \<open>None\<close> when the latter returns a null pointer, otherwise one line for each stack frame found.
\<close>

section \<open>Stack traces\<close>

text \<open>The loop \<open>for(size_t i = skip; i < s; ++i) bt.push_back(strings[i])\<close>.\<close>

function push_strings :: "string list \<Rightarrow> nat \<Rightarrow> string list \<Rightarrow> string list" where
  "push_strings strings i bt =
     (if i < length strings then push_strings strings (Suc i) (bt @ [strings ! i]) else bt)"
  by pat_completeness auto
termination
  by (relation "measure (\<lambda>(strings, i, bt). length strings - i)") auto

declare push_strings.simps [simp del]

text \<open>The \<open>int\<close> argument \<open>skip\<close> becomes a \<open>size_t\<close>: a negative one is huge.\<close>

definition Backtrace ::
    "(i32 \<Rightarrow> string list option) \<Rightarrow> addr \<Rightarrow> string list \<Rightarrow> i32 \<Rightarrow> i32 \<Rightarrow> ('z, string list) logc" where
  "Backtrace symbols g_logger bt n skip =
     (case symbols n of
        None \<Rightarrow>
          bindc (SYLAR_LOG_LEVEL g_logger ERROR ''sylar/util.cc'' 25 ''backtrace_symbols error'') (\<lambda>_. ret bt)
      | Some strings \<Rightarrow> ret (push_strings strings (unat (scast skip :: u64)) bt))"

fun print_lines :: "string \<Rightarrow> string list \<Rightarrow> string \<Rightarrow> string" where
  "print_lines prefix [] ss = ss"
| "print_lines prefix (b # bt) ss = print_lines prefix bt (ss @ prefix @ b @ newline)"

definition BacktraceToString ::
    "(i32 \<Rightarrow> string list option) \<Rightarrow> addr \<Rightarrow> i32 \<Rightarrow> i32 \<Rightarrow> string \<Rightarrow> ('z, string) logc" where
  "BacktraceToString symbols g_logger n skip prefix =
     bindc (Backtrace symbols g_logger [] n skip) (\<lambda>bt. ret (print_lines prefix bt []))"

section \<open>Assertions\<close>

text \<open>
  The body of \<open>SYLAR_ASSERT\<close> and \<open>SYLAR_ASSERT2\<close> when the condition is false: the record on the
  root logger, whose text is computed only when the level of the logger lets it pass, and the
  failing \<open>assert\<close>.
\<close>

definition assertion_failed ::
    "(i32 \<Rightarrow> string list option) \<Rightarrow> addr \<Rightarrow> string \<Rightarrow> i32 \<Rightarrow> string \<Rightarrow> string \<Rightarrow> ('z, unit) logc" where
  "assertion_failed symbols g_logger file line x w =
     bindc LoggerManager_getRoot (\<lambda>l. bindc (Logger_getLevel l) (\<lambda>root_level.
       bindc
         (if root_level \<le> ERROR then
            bindc (BacktraceToString symbols g_logger 100 2 ''    '') (\<lambda>bt.
              SYLAR_LOG_LEVEL l ERROR file line
                (''ASSERTION: '' @ x @ w @ newline @ ''backtrace:'' @ newline @ bt))
          else ret ())
         (\<lambda>_. raise (Abort x))))"

definition SYLAR_ASSERT ::
    "(i32 \<Rightarrow> string list option) \<Rightarrow> addr \<Rightarrow> string \<Rightarrow> i32 \<Rightarrow> bool \<Rightarrow> string \<Rightarrow> ('z, unit) logc" where
  "SYLAR_ASSERT symbols g_logger file line c x =
     (if \<not> c then assertion_failed symbols g_logger file line x [] else ret ())"

definition SYLAR_ASSERT2 ::
    "(i32 \<Rightarrow> string list option) \<Rightarrow> addr \<Rightarrow> string \<Rightarrow> i32 \<Rightarrow> bool \<Rightarrow> string \<Rightarrow> string \<Rightarrow> ('z, unit) logc" where
  "SYLAR_ASSERT2 symbols g_logger file line c x w =
     (if \<not> c then assertion_failed symbols g_logger file line x (newline @ w) else ret ())"

section \<open>Evaluation\<close>

lemma push_strings_drop: "push_strings strings i bt = bt @ drop i strings"
proof (induction strings i bt rule: push_strings.induct)
  case (1 strings i bt)
  then show ?case by (subst push_strings.simps) (simp add: Cons_nth_drop_Suc [symmetric])
qed

lemma print_lines_concat: "print_lines prefix bt ss = ss @ concat (map (\<lambda>b. prefix @ b @ newline) bt)"
  by (induction prefix bt ss rule: print_lines.induct) simp_all

text \<open>A log statement of a logger that exists returns.\<close>

lemma log_at_eval:
  assumes "log_ok s" and "logger_at s l \<noteq> None"
  shows "\<exists>t. SYLAR_LOG_LEVEL l level file line text s = (Inr (), t) \<and> log_frame s t"
proof -
  have "wf_log s" "w_held s = {}" "dates_ok s" using assms(1) by (simp_all add: log_ok_def log_inv_def)
  from SYLAR_LOG_LEVEL_shown [OF this assms(2)] show ?thesis by blast
qed

lemma Backtrace_eval:
  assumes "log_ok s" and "logger_at s g_logger \<noteq> None"
  shows "\<exists>t. Backtrace symbols g_logger bt n skip s =
      (Inr (bt @ (case symbols n of None \<Rightarrow> [] | Some strings \<Rightarrow> drop (unat (scast skip :: u64)) strings)), t) \<and>
    log_frame s t"
proof (cases "symbols n")
  case None
  with log_at_eval [OF assms, of ERROR "''sylar/util.cc''" 25 "''backtrace_symbols error''"] show ?thesis
    by (auto simp: Backtrace_def bindc_Inr ret_apply)
next
  case (Some strings)
  then show ?thesis by (simp add: Backtrace_def ret_apply push_strings_drop)
qed

lemma BacktraceToString_eval:
  assumes "log_ok s" and "logger_at s g_logger \<noteq> None"
  shows "\<exists>t. BacktraceToString symbols g_logger n skip prefix s =
      (Inr (concat (map (\<lambda>b. prefix @ b @ newline)
        (case symbols n of None \<Rightarrow> [] | Some strings \<Rightarrow> drop (unat (scast skip :: u64)) strings))), t) \<and>
    log_frame s t"
  using Backtrace_eval [OF assms, of symbols "[]" n skip]
  by (auto simp: BacktraceToString_def bindc_Inr ret_apply print_lines_concat)

text \<open>A failing assertion ends in \<open>abort\<close>, whatever logging does on the way, as long as it returns.\<close>

lemma assertion_failed_eval:
  assumes "log_ok s" and "logger_at s g_logger \<noteq> None"
  shows "\<exists>t. assertion_failed symbols g_logger file line x w s = (Inl (Abort x), t) \<and> log_frame s t"
proof -
  obtain lg where lg: "logger_at s (w_root s) = Some lg"
    using assms(1) by (auto simp: log_ok_def log_inv_def wf_log_def)
  show ?thesis
  proof (cases "lg_level lg \<le> ERROR")
    case True
    obtain bt t where t: "BacktraceToString symbols g_logger 100 2 ''    '' s = (Inr bt, t)" "log_frame s t"
      using BacktraceToString_eval [OF assms] by blast
    moreover obtain u where
      "SYLAR_LOG_LEVEL (w_root s) ERROR file line (''ASSERTION: '' @ x @ w @ newline @ ''backtrace:'' @ newline @ bt) t = (Inr (), u)"
      "log_frame t u"
      using log_at_eval [OF log_ok_frame [OF t(2) assms(1)], of "w_root s"] log_frame_logger_at [OF t(2)] lg by force
    ultimately show ?thesis
      using lg True
      by (auto simp: assertion_failed_def LoggerManager_getRoot_def Logger_getLevel_def op_simps raise_apply
          intro: log_frame_trans)
  next
    case False
    then show ?thesis
      using lg
      by (auto simp: assertion_failed_def LoggerManager_getRoot_def Logger_getLevel_def op_simps raise_apply)
  qed
qed

lemma SYLAR_ASSERT_True [simp]: "SYLAR_ASSERT symbols g_logger file line True x s = (Inr (), s)"
  by (simp add: SYLAR_ASSERT_def ret_apply)

lemma SYLAR_ASSERT2_True [simp]: "SYLAR_ASSERT2 symbols g_logger file line True x w s = (Inr (), s)"
  by (simp add: SYLAR_ASSERT2_def ret_apply)

end
