(* ===== verification/Fiber.thy ===== *)
theory Fiber
  imports Util
begin

text \<open>
  \<open>Fiber\<close> of \<open>src/sylar/fiber.h\<close> and \<open>src/sylar/fiber.cc\<close>, on one thread. A context is the code that is still
  to run on its stack, a list of frames; \<open>swapcontext\<close> stores the code that is running in one context
  and goes on with that of the other. The program that uses the class, the code of the thread and of the
  callbacks, is a list of actions: the calls it makes on the class, and the exceptions it throws.
\<close>

section \<open>State\<close>

text \<open>\<open>TERM'\<close> is the state \<open>TERM\<close> of the source, whose name is reserved here.\<close>

datatype State = INIT | HOLD | EXEC | TERM' | READY | EXCEPT

text \<open>
  What a program does. \<open>NewFiber\<close> constructs a fiber and keeps the \<open>Fiber::ptr\<close> to it, \<open>DropHandle\<close> gives that pointer
  up. The callback of a fiber is itself a program; \<open>None\<close> is an empty \<open>std::function\<close>. \<open>LogRoot\<close> is a log statement
  of the program on \<open>SYLAR_LOG_ROOT()\<close>.

  Only the calls a program makes on fibers and logging are represented, in the order it makes them; what it computes between them is
  its own affair. An action list is therefore one path through a program or callback, up to some point: the invariant, the exact
  conditions of the steps and the theorems about single steps hold for every list, hence along every path of code that
  branches and loops. That a program ends is a matter of its own loops, and nothing here claims it.
\<close>

datatype action =
    NewFiber "action list option" u64
  | Reset addr "action list option"
  | SwapIn addr
  | DropHandle addr
  | CallGetThis
  | CallYieldToReady
  | CallYieldToHold
  | ThrowExn exn
  | LogRoot Level string i32 string

text \<open>
  The frames of a stack: the next action of the program; the end of \<open>YieldToReady\<close> and \<open>YieldToHold\<close>, where
  the pointer \<open>cur\<close> goes; the entry of \<open>MainFunc\<close>, its code after the callback has returned, and its last line.
\<close>

datatype frame = Act action | EndYield addr | MainFunc | AfterCb addr | NeverReach

text \<open>
  A context that was only initialised by \<open>getcontext\<close> in the constructor of the main fiber is \<open>None\<close>: the
  call it would return to has ended. \<open>fb_stack\<close> says that \<open>m_stack\<close> is not null, \<open>fb_use\<close> counts the shared pointers.
\<close>

record Fiber =
  fb_id :: u64
  fb_stacksize :: u32
  fb_state :: State
  fb_ctx :: "frame list option"
  fb_stack :: bool
  fb_cb :: "action list option"
  fb_use :: nat

text \<open>
  The static and thread-local variables, the objects by address (\<open>None\<close> once destroyed), the pointers to fibers
  that the program holds, the code that is running, and the logging system.
\<close>

record fiber_world =
  fw_fibers :: "Fiber option list"
  s_fiber_id :: u64
  s_fiber_count :: u64
  t_fiber :: "addr option"
  t_threadFiber :: "addr option"
  fw_handles :: "addr list"
  fw_code :: "frame list"
  fw_log :: log_world

type_synonym 'a fibc = "(fiber_world, 'a) comp"

text \<open>
  The surroundings: the logger \<open>system\<close>, the stack traces, \<open>what()\<close>, the value of the configuration variable
  \<open>fiber.stack_size\<close>, which allocations succeed, and whether the calls on contexts fail. What running on a stack that could not be
  allocated does is not modelled: the theorems on executions assume that allocation succeeds.
\<close>

record fiber_env =
  fe_logger :: addr
  fe_symbols :: "i32 \<Rightarrow> string list option"
  fe_what :: "exn \<Rightarrow> string"
  g_fiber_stack_size :: u32
  fe_malloc :: "u32 \<Rightarrow> bool"
  fe_getcontext_fails :: bool
  fe_swapcontext_fails :: bool

section \<open>Access\<close>

definition fiber_at :: "fiber_world \<Rightarrow> addr \<Rightarrow> Fiber option" where
  "fiber_at s i = (if i < length (fw_fibers s) then fw_fibers s ! i else None)"

definition put_fiber :: "addr \<Rightarrow> Fiber option \<Rightarrow> fiber_world \<Rightarrow> fiber_world" where
  "put_fiber i f s = s\<lparr>fw_fibers := (fw_fibers s)[i := f]\<rparr>"

text \<open>A call on a destroyed object has no defined result.\<close>

definition get_fiber :: "addr \<Rightarrow> Fiber fibc" where
  "get_fiber i s = (case fiber_at s i of None \<Rightarrow> (Inl Indeterminate, s) | Some f \<Rightarrow> (Inr f, s))"

definition update_fiber :: "addr \<Rightarrow> (Fiber \<Rightarrow> Fiber) \<Rightarrow> unit fibc" where
  "update_fiber i g = bindc (get_fiber i) (\<lambda>f. modify (put_fiber i (Some (g f))))"

definition Fiber_getID :: "Fiber \<Rightarrow> u64" where
  "Fiber_getID f = fb_id f"

definition Fiber_GetFiberID :: "u64 fibc" where
  "Fiber_GetFiberID s =
     (case t_fiber s of
        Some i \<Rightarrow> bindc (get_fiber i) (\<lambda>f. ret (Fiber_getID f)) s
      | None \<Rightarrow> (Inr 0, s))"

text \<open>\<open>sylar::GetFiberID\<close>: the identifier cut to 32 bits.\<close>

definition GetFiberID :: "u32 fibc" where
  "GetFiberID = bindc Fiber_GetFiberID (\<lambda>n. ret (ucast n))"

text \<open>A log statement or an assertion of the file; the record carries the identifier of the running fiber.\<close>

definition with_log :: "(unit, unit) logc \<Rightarrow> unit fibc" where
  "with_log m = bindc GetFiberID (\<lambda>fid s.
     case m ((fw_log s)\<lparr>w_fid := fid\<rparr>) of (r, l) \<Rightarrow> (r, s\<lparr>fw_log := l\<rparr>))"

definition fiber_log :: "fiber_env \<Rightarrow> Level \<Rightarrow> i32 \<Rightarrow> string \<Rightarrow> unit fibc" where
  "fiber_log E level line text = with_log (SYLAR_LOG_LEVEL (fe_logger E) level ''sylar/fiber.cc'' line text)"

definition fiber_assert :: "fiber_env \<Rightarrow> i32 \<Rightarrow> bool \<Rightarrow> string \<Rightarrow> unit fibc" where
  "fiber_assert E line c x =
     (if c then ret () else with_log (SYLAR_ASSERT (fe_symbols E) (fe_logger E) ''sylar/fiber.cc'' line c x))"

definition fiber_assert2 :: "fiber_env \<Rightarrow> i32 \<Rightarrow> bool \<Rightarrow> string \<Rightarrow> unit fibc" where
  "fiber_assert2 E line c w =
     (if c then ret () else with_log (SYLAR_ASSERT2 (fe_symbols E) (fe_logger E) ''sylar/fiber.cc'' line c ''false'' w))"

section \<open>Construction and destruction\<close>

definition Fiber_SetThis :: "addr option \<Rightarrow> unit fibc" where
  "Fiber_SetThis f = modify (\<lambda>s. s\<lparr>t_fiber := f\<rparr>)"

text \<open>\<open>Fiber::Fiber()\<close>, the main fiber of the thread.\<close>

definition Fiber_new_main :: "fiber_env \<Rightarrow> addr fibc" where
  "Fiber_new_main E s =
     (let i = length (fw_fibers s);
          f = \<lparr>fb_id = 0, fb_stacksize = 0, fb_state = EXEC, fb_ctx = None, fb_stack = False, fb_cb = None, fb_use = 0\<rparr>
      in bindc (modify (\<lambda>s. s\<lparr>fw_fibers := fw_fibers s @ [Some f]\<rparr>)) (\<lambda>_.
         bindc (Fiber_SetThis (Some i)) (\<lambda>_.
         bindc (fiber_assert2 E 47 (\<not> fe_getcontext_fails E) ''getcontext'') (\<lambda>_.
         bindc (modify (\<lambda>s. s\<lparr>s_fiber_count := s_fiber_count s + 1\<rparr>)) (\<lambda>_.
         bindc (fiber_log E DEBUG 51 ''Fiber::Fiber'') (\<lambda>_.
         ret i))))) s)"

text \<open>
  \<open>Fiber::Fiber(cb, stacksize)\<close>. The size is a \<open>size_t\<close>, the member that stores it has 32 bits.
\<close>

definition Fiber_new :: "fiber_env \<Rightarrow> action list option \<Rightarrow> u64 \<Rightarrow> addr fibc" where
  "Fiber_new E cb stacksize s =
     (let i = length (fw_fibers s);
          fid = s_fiber_id s + 1;
          sz = (if stacksize \<noteq> 0 then ucast stacksize else g_fiber_stack_size E);
          f = \<lparr>fb_id = fid, fb_stacksize = sz, fb_state = INIT, fb_ctx = None, fb_stack = fe_malloc E sz, fb_cb = cb, fb_use = 0\<rparr>
      in bindc (modify (\<lambda>s. s\<lparr>s_fiber_id := fid, s_fiber_count := s_fiber_count s + 1, fw_fibers := fw_fibers s @ [Some f]\<rparr>)) (\<lambda>_.
         bindc (fiber_assert2 E 64 (\<not> fe_getcontext_fails E) ''getcontext'') (\<lambda>_.
         bindc (update_fiber i (\<lambda>f. f\<lparr>fb_ctx := Some [MainFunc]\<rparr>)) (\<lambda>_.
         bindc (fiber_log E DEBUG 72 (''Fiber::Fiber id='' @ show_nat (unat fid))) (\<lambda>_.
         ret i)))) s)"

definition Fiber_dtor :: "fiber_env \<Rightarrow> addr \<Rightarrow> unit fibc" where
  "Fiber_dtor E i =
     bindc (get_fiber i) (\<lambda>f.
     bindc (modify (\<lambda>s. s\<lparr>s_fiber_count := s_fiber_count s - 1\<rparr>)) (\<lambda>_.
     bindc (if fb_stack f then
              fiber_assert E 79 (fb_state f = TERM' \<or> fb_state f = INIT \<or> fb_state f = EXCEPT)
                ''m_state == TERM || m_state == INIT || m_state == EXCEPT''
            else
              bindc (fiber_assert E 83 (fb_cb f = None) ''!m_cb'') (\<lambda>_.
              bindc (fiber_assert E 84 (fb_state f = EXEC) ''m_state == EXEC'') (\<lambda>_ s.
              if t_fiber s = Some i then Fiber_SetThis None s else (Inr (), s)))) (\<lambda>_.
     bindc (fiber_log E DEBUG 92 (''Fiber::~Fiber id='' @ show_nat (unat (fb_id f)))) (\<lambda>_.
     modify (put_fiber i None)))))"

text \<open>Copying and destroying a \<open>Fiber::ptr\<close>; the last one destroys the fiber.\<close>

definition share :: "addr \<Rightarrow> unit fibc" where
  "share i = update_fiber i (\<lambda>f. f\<lparr>fb_use := fb_use f + 1\<rparr>)"

definition release :: "fiber_env \<Rightarrow> addr \<Rightarrow> unit fibc" where
  "release E i =
     bindc (update_fiber i (\<lambda>f. f\<lparr>fb_use := fb_use f - 1\<rparr>)) (\<lambda>_.
     bindc (get_fiber i) (\<lambda>f. if fb_use f = 0 then Fiber_dtor E i else ret ()))"

text \<open>\<open>t_threadFiber = p\<close>, and its destruction at the end of the thread for \<open>None\<close>.\<close>

definition set_threadFiber :: "fiber_env \<Rightarrow> addr option \<Rightarrow> unit fibc" where
  "set_threadFiber E p s =
     (let old = t_threadFiber s
      in bindc (case p of None \<Rightarrow> ret () | Some i \<Rightarrow> share i) (\<lambda>_.
         bindc (modify (\<lambda>s. s\<lparr>t_threadFiber := p\<rparr>)) (\<lambda>_.
         case old of None \<Rightarrow> ret () | Some i \<Rightarrow> release E i)) s)"

text \<open>\<open>Fiber::GetThis\<close>; the pointer it returns is the caller's to release.\<close>

definition Fiber_GetThis :: "fiber_env \<Rightarrow> addr fibc" where
  "Fiber_GetThis E s =
     (case t_fiber s of
        Some i \<Rightarrow> bindc (share i) (\<lambda>_. ret i) s
      | None \<Rightarrow>
          bindc (Fiber_new_main E) (\<lambda>main_fiber.
          bindc (share main_fiber) (\<lambda>_.
          bindc (\<lambda>s. fiber_assert E 140 (t_fiber s = Some main_fiber) ''t_fiber == main_fiber.get()'' s) (\<lambda>_.
          bindc (set_threadFiber E (Some main_fiber)) (\<lambda>_ s.
          case t_fiber s of
            None \<Rightarrow> (Inl NullDeref, s)
          | Some i \<Rightarrow> bindc (share i) (\<lambda>_. bindc (release E main_fiber) (\<lambda>_. ret i)) s)))) s)"

section \<open>Switching\<close>

text \<open>\<open>swapcontext(&o->m_ctx, &n->m_ctx)\<close>: true when it fails.\<close>

definition swapcontext :: "fiber_env \<Rightarrow> addr \<Rightarrow> addr \<Rightarrow> bool fibc" where
  "swapcontext E o_ctx n_ctx =
     (if fe_swapcontext_fails E then ret True
      else
        bindc (\<lambda>s. update_fiber o_ctx (\<lambda>f. f\<lparr>fb_ctx := Some (fw_code s)\<rparr>) s) (\<lambda>_.
        bindc (get_fiber n_ctx) (\<lambda>f.
        case fb_ctx f of
          None \<Rightarrow> raise Indeterminate
        | Some k \<Rightarrow> bindc (modify (\<lambda>s. s\<lparr>fw_code := k\<rparr>)) (\<lambda>_. ret False))))"

definition Fiber_swapIn :: "fiber_env \<Rightarrow> addr \<Rightarrow> unit fibc" where
  "Fiber_swapIn E i =
     bindc (Fiber_SetThis (Some i)) (\<lambda>_.
     bindc (get_fiber i) (\<lambda>f.
     bindc (fiber_assert E 118 (fb_state f \<noteq> EXEC) ''m_state != EXEC'') (\<lambda>_.
     bindc (update_fiber i (\<lambda>f. f\<lparr>fb_state := EXEC\<rparr>)) (\<lambda>_ s.
     case t_threadFiber s of
       None \<Rightarrow> (Inl NullDeref, s)
     | Some m \<Rightarrow> bindc (swapcontext E m i) (\<lambda>rt. fiber_assert2 E 121 (\<not> rt) ''swapcontext'') s))))"

definition Fiber_swapOut :: "fiber_env \<Rightarrow> addr \<Rightarrow> unit fibc" where
  "Fiber_swapOut E i s =
     bindc (Fiber_SetThis (t_threadFiber s)) (\<lambda>_ s.
     case t_threadFiber s of
       None \<Rightarrow> (Inl NullDeref, s)
     | Some m \<Rightarrow> bindc (swapcontext E i m) (\<lambda>rt. fiber_assert2 E 131 (\<not> rt) ''swapcontext'') s) s"

definition yield_as :: "fiber_env \<Rightarrow> State \<Rightarrow> unit fibc" where
  "yield_as E st =
     bindc (Fiber_GetThis E) (\<lambda>cur.
     bindc (update_fiber cur (\<lambda>f. f\<lparr>fb_state := st\<rparr>)) (\<lambda>_.
     bindc (modify (\<lambda>s. s\<lparr>fw_code := EndYield cur # fw_code s\<rparr>)) (\<lambda>_.
     Fiber_swapOut E cur)))"

definition Fiber_YieldToReady :: "fiber_env \<Rightarrow> unit fibc" where
  "Fiber_YieldToReady E = yield_as E READY"

definition Fiber_YieldToHold :: "fiber_env \<Rightarrow> unit fibc" where
  "Fiber_YieldToHold E = yield_as E HOLD"

definition Fiber_reset :: "fiber_env \<Rightarrow> addr \<Rightarrow> action list option \<Rightarrow> unit fibc" where
  "Fiber_reset E i cb =
     bindc (get_fiber i) (\<lambda>f.
     bindc (fiber_assert E 97 (fb_stack f) ''m_stack'') (\<lambda>_.
     bindc (fiber_assert E 98 (fb_state f = TERM' \<or> fb_state f = EXCEPT \<or> fb_state f = INIT)
              ''m_state == TERM || m_state == EXCEPT || m_state == INIT'') (\<lambda>_.
     bindc (update_fiber i (\<lambda>f. f\<lparr>fb_cb := cb\<rparr>)) (\<lambda>_.
     bindc (fiber_assert2 E 103 (\<not> fe_getcontext_fails E) ''getcontext'') (\<lambda>_.
     update_fiber i (\<lambda>f. f\<lparr>fb_ctx := Some [MainFunc], fb_state := INIT\<rparr>))))))"

definition Fiber_TotalFibers :: "u64 fibc" where
  "Fiber_TotalFibers s = (Inr (s_fiber_count s), s)"

section \<open>The main function of a fiber\<close>

text \<open>The end of \<open>MainFunc\<close>: \<open>cur.reset()\<close> and the switch back, which is not expected to return.\<close>

definition MainFunc_leave :: "fiber_env \<Rightarrow> addr \<Rightarrow> unit fibc" where
  "MainFunc_leave E cur =
     bindc (release E cur) (\<lambda>_.
     bindc (modify (\<lambda>s. s\<lparr>fw_code := NeverReach # fw_code s\<rparr>)) (\<lambda>_.
     Fiber_swapOut E cur))"

text \<open>The handlers of \<open>MainFunc\<close>; the last one takes every exception not derived from \<open>std::exception\<close>.\<close>

definition MainFunc_catch :: "fiber_env \<Rightarrow> addr \<Rightarrow> exn \<Rightarrow> unit fibc" where
  "MainFunc_catch E cur e =
     bindc (update_fiber cur (\<lambda>f. f\<lparr>fb_state := EXCEPT\<rparr>)) (\<lambda>_.
     bindc (if e = non_std_exception then fiber_log E ERROR 174 ''Fiber Except: ''
            else fiber_log E ERROR 171 (''Fiber Except: '' @ fe_what E e)) (\<lambda>_.
     MainFunc_leave E cur))"

text \<open>The start of \<open>MainFunc\<close>; \<open>GetThis\<close> never returns a null pointer, so the assertion on \<open>cur\<close> holds.\<close>

definition MainFunc_call :: "fiber_env \<Rightarrow> unit fibc" where
  "MainFunc_call E =
     bindc (Fiber_GetThis E) (\<lambda>cur.
     bindc (get_fiber cur) (\<lambda>f.
     case fb_cb f of
       None \<Rightarrow> MainFunc_catch E cur bad_function_call
     | Some acts \<Rightarrow> modify (\<lambda>s. s\<lparr>fw_code := map Act acts @ AfterCb cur # fw_code s\<rparr>)))"

definition MainFunc_return :: "fiber_env \<Rightarrow> addr \<Rightarrow> unit fibc" where
  "MainFunc_return E cur =
     bindc (update_fiber cur (\<lambda>f. f\<lparr>fb_cb := None, fb_state := TERM'\<rparr>)) (\<lambda>_.
     MainFunc_leave E cur)"

text \<open>An exception leaves the frames down to the \<open>try\<close> block of \<open>MainFunc\<close>; outside of it nobody catches it.\<close>

fun throw_exn :: "fiber_env \<Rightarrow> exn \<Rightarrow> frame list \<Rightarrow> unit fibc" where
  "throw_exn E e [] s = (Inl (Throw e), s)"
| "throw_exn E e (AfterCb cur # k) s = MainFunc_catch E cur e (s\<lparr>fw_code := k\<rparr>)"
| "throw_exn E e (fr # k) s = throw_exn E e k s"

section \<open>Execution\<close>

text \<open>The program may only use fibers it holds a pointer to.\<close>

definition with_handle :: "addr \<Rightarrow> unit fibc \<Rightarrow> unit fibc" where
  "with_handle i m s = (if i \<in> set (fw_handles s) then m s else (Inl Indeterminate, s))"

fun exec_action :: "fiber_env \<Rightarrow> action \<Rightarrow> unit fibc" where
  "exec_action E (NewFiber cb stacksize) s =
     bindc (Fiber_new E cb stacksize) (\<lambda>i.
     bindc (share i) (\<lambda>_.
     modify (\<lambda>s. s\<lparr>fw_handles := i # fw_handles s\<rparr>))) s"
| "exec_action E (Reset i cb) s = with_handle i (Fiber_reset E i cb) s"
| "exec_action E (SwapIn i) s = with_handle i (Fiber_swapIn E i) s"
| "exec_action E (DropHandle i) s =
     with_handle i (bindc (modify (\<lambda>s. s\<lparr>fw_handles := remove1 i (fw_handles s)\<rparr>)) (\<lambda>_. release E i)) s"
| "exec_action E CallGetThis s = bindc (Fiber_GetThis E) (\<lambda>i. release E i) s"
| "exec_action E CallYieldToReady s = Fiber_YieldToReady E s"
| "exec_action E CallYieldToHold s = Fiber_YieldToHold E s"
| "exec_action E (ThrowExn e) s = throw_exn E e (fw_code s) s"
| "exec_action E (LogRoot level path line text') s = with_log (log_root level path line text') s"

fun exec_frame :: "fiber_env \<Rightarrow> frame \<Rightarrow> unit fibc" where
  "exec_frame E (Act a) s = exec_action E a s"
| "exec_frame E (EndYield cur) s = release E cur s"
| "exec_frame E MainFunc s = MainFunc_call E s"
| "exec_frame E (AfterCb cur) s = MainFunc_return E cur s"
| "exec_frame E NeverReach s = fiber_assert2 E 181 False ''never reach'' s"

text \<open>One step of the thread: the next frame of the code that is running.\<close>

definition fiber_exec :: "fiber_env \<Rightarrow> unit fibc" where
  "fiber_exec E s =
     (case fw_code s of
        [] \<Rightarrow> (Inr (), s)
      | fr # k \<Rightarrow> exec_frame E fr (s\<lparr>fw_code := k\<rparr>))"

text \<open>The end of the thread destroys \<open>t_threadFiber\<close>.\<close>

definition Fiber_thread_exit :: "fiber_env \<Rightarrow> unit fibc" where
  "Fiber_thread_exit E = set_threadFiber E None"

end
