(* ===== verification/FiberOps.thy ===== *)
theory FiberOps
  imports Fiber
begin

text \<open>
  The operations of fibers evaluated on explicit states: what each call returns and which objects it changes, on
  every branch; the log records they write only show in the logging system.
\<close>

section \<open>Surroundings\<close>

text \<open>Memory can be allocated and the calls on contexts succeed.\<close>

definition fenv_ok :: "fiber_env \<Rightarrow> bool" where
  "fenv_ok E \<longleftrightarrow> (\<forall>n. fe_malloc E n) \<and> \<not> fe_getcontext_fails E \<and> \<not> fe_swapcontext_fails E"

text \<open>Logging works, and the logger of the file exists.\<close>

definition flog_ok :: "fiber_env \<Rightarrow> log_world \<Rightarrow> bool" where
  "flog_ok E l \<longleftrightarrow> log_ok l \<and> logger_at l (fe_logger E) \<noteq> None"

abbreviation W ::
    "Fiber option list \<Rightarrow> u64 \<Rightarrow> u64 \<Rightarrow> addr option \<Rightarrow> addr option \<Rightarrow> addr list \<Rightarrow> frame list \<Rightarrow> log_world \<Rightarrow> fiber_world" where
  "W fs n c tf tt hs k l \<equiv>
     \<lparr>fw_fibers = fs, s_fiber_id = n, s_fiber_count = c, t_fiber = tf, t_threadFiber = tt, fw_handles = hs,
      fw_code = k, fw_log = l\<rparr>"

definition at :: "Fiber option list \<Rightarrow> addr \<Rightarrow> Fiber option" where
  "at fs i = (if i < length fs then fs ! i else None)"

lemma fiber_at_W [simp]: "fiber_at s i = at (fw_fibers s) i"
  by (simp add: fiber_at_def at_def)

lemma at_length: "at fs i = Some f \<Longrightarrow> i < length fs"
  by (simp add: at_def split: if_splits)

lemma at_update: "at (fs[i := x]) j = (if j = i \<and> i < length fs then x else at fs j)"
  by (simp add: at_def)

lemma at_update_Some [simp]: "at fs i = Some f \<Longrightarrow> at (fs[i := x]) j = (if j = i then x else at fs j)"
  using at_length [of fs i f] by (simp add: at_update)

lemma at_append [simp]: "at (fs @ [x]) j = (if j = length fs then x else at fs j)"
  by (auto simp: at_def nth_append)

lemma put_fiber_W [simp]: "put_fiber i x (W fs n c tf tt hs k l) = W (fs[i := x]) n c tf tt hs k l"
  by (simp add: put_fiber_def)

lemma get_fiber_W [simp]: "at (fw_fibers s) i = Some f \<Longrightarrow> get_fiber i s = (Inr f, s)"
  by (simp add: get_fiber_def)

lemma get_fiber_None [simp]: "at (fw_fibers s) i = None \<Longrightarrow> get_fiber i s = (Inl Indeterminate, s)"
  by (simp add: get_fiber_def)

lemma update_fiber_W [simp]:
  "at fs i = Some f \<Longrightarrow> update_fiber i g (W fs n c tf tt hs k l) = (Inr (), W (fs[i := Some (g f)]) n c tf tt hs k l)"
  by (simp add: update_fiber_def comp_simps)

lemma update_fiber_None [simp]:
  "at fs i = None \<Longrightarrow> update_fiber i g (W fs n c tf tt hs k l) = (Inl Indeterminate, W fs n c tf tt hs k l)"
  by (simp add: update_fiber_def comp_simps)

lemma SetThis_W [simp]: "Fiber_SetThis f (W fs n c tf tt hs k l) = (Inr (), W fs n c f tt hs k l)"
  by (simp add: Fiber_SetThis_def comp_simps)

lemma at_fid: "logger_at (l\<lparr>w_fid := x\<rparr>) = logger_at l" "appender_at (l\<lparr>w_fid := x\<rparr>) = appender_at l"
  by (simp_all add: fun_eq_iff logger_at_def appender_at_def)

lemma flog_ok_fid: "flog_ok E l \<Longrightarrow> flog_ok E (l\<lparr>w_fid := x\<rparr>)"
  by (simp add: flog_ok_def log_ok_def log_inv_def wf_log_def logger_ok_def dates_ok_def logger_name_def at_fid)

lemma flog_ok_frame: "log_frame l l' \<Longrightarrow> flog_ok E l \<Longrightarrow> flog_ok E l'"
  using log_ok_frame [of l l'] by (auto simp: flog_ok_def log_frame_logger_at)

definition this_live :: "Fiber option list \<Rightarrow> addr option \<Rightarrow> bool" where
  "this_live fs tf \<longleftrightarrow> (\<forall>i. tf = Some i \<longrightarrow> at fs i \<noteq> None)"

text \<open>The identifier the log records carry: that of the running fiber, 0 when there is none.\<close>

definition fid_of :: "Fiber option list \<Rightarrow> addr option \<Rightarrow> u32" where
  "fid_of fs tf = (case tf of None \<Rightarrow> 0 | Some i \<Rightarrow> (case at fs i of None \<Rightarrow> 0 | Some f \<Rightarrow> ucast (fb_id f)))"

text \<open>
  A log record that a thread with fibers writes: the fiber, the logger, the level, the place and the text. \<open>wrote\<close>
  says that the logging system has changed by some records, in this order, and by nothing else.
\<close>

type_synonym record_entry = "u32 \<times> addr \<times> Level \<times> string \<times> i32 \<times> string"

fun entry_text :: "log_world \<Rightarrow> record_entry \<Rightarrow> string" where
  "entry_text l (fid, logger, level, path, line, text') =
     log_shown l logger level
       (LogEvent_getSS_put text' (LogEvent_new logger level path line 0 (w_tid l) fid (w_clock l) (w_tname l)))"

definition wrote :: "fiber_env \<Rightarrow> record_entry list \<Rightarrow> log_world \<Rightarrow> log_world \<Rightarrow> bool" where
  "wrote E es l l' \<longleftrightarrow>
     flog_ok E l' \<and> w_cout l' = w_cout l @ concat (map (entry_text l) es) \<and>
     log_frame (l\<lparr>w_fid := 0\<rparr>) (l'\<lparr>w_fid := 0\<rparr>)"

lemma log_shown_fid [simp]: "log_shown (l\<lparr>w_fid := x\<rparr>) logger level ev = log_shown l logger level ev"
proof -
  have "shown console_text (l\<lparr>w_fid := x\<rparr>) k level ev = shown console_text l k level ev" for k
    by (simp add: fun_eq_iff shown_def record_text_def at_fid logger_name_def [abs_def] split: option.splits)
  then have "own_shown (l\<lparr>w_fid := x\<rparr>) k level ev = own_shown l k level ev" for k
    by (simp add: own_shown_def at_fid split: option.splits)
  then show ?thesis by (auto simp: log_shown_def at_fid split: option.splits)
qed

lemma entry_text_fid [simp]: "entry_text (l\<lparr>w_fid := x\<rparr>) e = entry_text l e"
  by (cases e) simp

lemma entry_text_frame: "log_frame l l' \<Longrightarrow> entry_text l' e = entry_text l e"
  by (cases e) (simp add: log_shown_frame, simp add: log_frame_def)

lemma wrote_ok: "wrote E es l l' \<Longrightarrow> flog_ok E l'"
  by (simp add: wrote_def)

lemma wrote_nil: "flog_ok E l \<Longrightarrow> wrote E [] l l"
  by (simp add: wrote_def)

lemma wrote_root: "wrote E es l l' \<Longrightarrow> w_root l' = w_root l"
  by (simp add: wrote_def log_frame_def)

lemma wrote_append: "wrote E es l l' \<Longrightarrow> wrote E es' l' l'' \<Longrightarrow> wrote E (es @ es') l l''"
proof -
  assume w: "wrote E es l l'" "wrote E es' l' l''"
  then have "entry_text l' = entry_text l"
    using entry_text_frame [of "l\<lparr>w_fid := 0\<rparr>" "l'\<lparr>w_fid := 0\<rparr>"] by (simp add: wrote_def fun_eq_iff)
  moreover have "log_frame (l\<lparr>w_fid := 0\<rparr>) (l''\<lparr>w_fid := 0\<rparr>)" using w by (auto simp: wrote_def intro: log_frame_trans)
  ultimately show ?thesis using w by (simp add: wrote_def)
qed

lemma GetFiberID_W:
  "this_live fs tf \<Longrightarrow> GetFiberID (W fs n c tf tt hs k l) = (Inr (fid_of fs tf), W fs n c tf tt hs k l)"
  by (cases tf) (auto simp: GetFiberID_def Fiber_GetFiberID_def Fiber_getID_def this_live_def fid_of_def comp_simps)

lemma with_log_W:
  assumes "this_live fs tf" and "flog_ok E l"
    and "\<And>l0. flog_ok E l0 \<Longrightarrow> \<exists>l'. m l0 = (r, l') \<and> log_frame l0 l'"
  shows "\<exists>l'. with_log m (W fs n c tf tt hs k l) = (r, W fs n c tf tt hs k l') \<and> flog_ok E l'"
proof -
  obtain l' where "m (l\<lparr>w_fid := fid_of fs tf\<rparr>) = (r, l')" "log_frame (l\<lparr>w_fid := fid_of fs tf\<rparr>) l'"
    using assms(3) [OF flog_ok_fid [OF assms(2)]] by blast
  then show ?thesis
    using flog_ok_frame [OF _ flog_ok_fid [OF assms(2)]] GetFiberID_W [OF assms(1)] by (auto simp: with_log_def comp_simps)
qed

lemma with_log_wrote:
  assumes "this_live fs tf" and "flog_ok E l" and "log_frame (l\<lparr>w_fid := fid_of fs tf\<rparr>) l'"
    and "m (l\<lparr>w_fid := fid_of fs tf\<rparr>) = (r, l')" and "w_cout l' = w_cout l @ entry_text l e"
  shows "with_log m (W fs n c tf tt hs k l) = (r, W fs n c tf tt hs k l') \<and> wrote E [e] l l'"
proof -
  have "flog_ok E l'" using flog_ok_frame [OF assms(3) flog_ok_fid [OF assms(2)]] .
  moreover have "log_frame (l\<lparr>w_fid := 0\<rparr>) (l'\<lparr>w_fid := 0\<rparr>)" using assms(3) by (simp add: log_frame_def)
  ultimately show ?thesis
    using assms(4,5) GetFiberID_W [OF assms(1)] by (simp add: with_log_def comp_simps wrote_def)
qed

lemma fiber_log_wrote:
  assumes "this_live fs tf" and "flog_ok E l"
  shows "\<exists>l'. fiber_log E level line text' (W fs n c tf tt hs k l) = (Inr (), W fs n c tf tt hs k l') \<and>
     wrote E [(fid_of fs tf, fe_logger E, level, ''sylar/fiber.cc'', line, text')] l l'"
proof -
  let ?l = "l\<lparr>w_fid := fid_of fs tf\<rparr>"
  have "wf_log ?l" "w_held ?l = {}" "dates_ok ?l" "logger_at ?l (fe_logger E) \<noteq> None"
    using flog_ok_fid [OF assms(2)] by (simp_all add: flog_ok_def log_ok_def log_inv_def)
  from SYLAR_LOG_LEVEL_shown [OF this, of level "''sylar/fiber.cc''" line text'] obtain l' where
    "SYLAR_LOG_LEVEL (fe_logger E) level ''sylar/fiber.cc'' line text' ?l = (Inr (), l')" "log_frame ?l l'"
    "w_cout l' = w_cout l @ entry_text l (fid_of fs tf, fe_logger E, level, ''sylar/fiber.cc'', line, text')"
    by (auto simp: new_event_def)
  with with_log_wrote [OF assms] show ?thesis unfolding fiber_log_def by blast
qed

lemma fiber_log_W:
  assumes "this_live fs tf" and "flog_ok E l"
  shows "\<exists>l'. fiber_log E level line text (W fs n c tf tt hs k l) = (Inr (), W fs n c tf tt hs k l') \<and> flog_ok E l'"
  using fiber_log_wrote [OF assms] wrote_ok by blast

lemma LogRoot_logs:
  assumes "this_live fs tf" and "flog_ok E l"
  shows "\<exists>l'. exec_action E (LogRoot level path line text') (W fs n c tf tt hs k l) = (Inr (), W fs n c tf tt hs k l') \<and>
     wrote E [(fid_of fs tf, w_root l, level, path, line, text')] l l' \<and>
     log_root level path line text' (l\<lparr>w_fid := fid_of fs tf\<rparr>) = (Inr (), l') \<and> log_frame (l\<lparr>w_fid := fid_of fs tf\<rparr>) l'"
proof -
  let ?l = "l\<lparr>w_fid := fid_of fs tf\<rparr>"
  have "log_ok ?l" using flog_ok_fid [OF assms(2)] by (simp add: flog_ok_def)
  from log_root_shown [OF this, of level path line text'] obtain l' where
    "log_root level path line text' ?l = (Inr (), l')" "log_frame ?l l'"
    "w_cout l' = w_cout l @ entry_text l (fid_of fs tf, w_root l, level, path, line, text')"
    by (auto simp: new_event_def)
  with with_log_wrote [OF assms] show ?thesis unfolding exec_action.simps by blast
qed

lemma LogRoot_wrote:
  assumes "this_live fs tf" and "flog_ok E l"
  shows "\<exists>l'. exec_action E (LogRoot level path line text') (W fs n c tf tt hs k l) = (Inr (), W fs n c tf tt hs k l') \<and>
     wrote E [(fid_of fs tf, w_root l, level, path, line, text')] l l'"
  using LogRoot_logs [OF assms] by blast

lemma LogRoot_W:
  assumes "this_live fs tf" and "flog_ok E l"
  shows "\<exists>l'. exec_action E (LogRoot level path line text') (W fs n c tf tt hs k l) = (Inr (), W fs n c tf tt hs k l') \<and> flog_ok E l'"
  using LogRoot_wrote [OF assms] wrote_ok by blast

lemma fiber_assert_True [simp]: "fiber_assert E line True x s = (Inr (), s)"
  by (simp add: fiber_assert_def ret_apply)

lemma fiber_assert2_True [simp]: "fiber_assert2 E line True x s = (Inr (), s)"
  by (simp add: fiber_assert2_def ret_apply)

lemma fiber_assert_False:
  assumes "this_live fs tf" and "flog_ok E l"
  shows "\<exists>l'. fiber_assert E line False x (W fs n c tf tt hs k l) = (Inl (Abort x), W fs n c tf tt hs k l') \<and> flog_ok E l'"
  unfolding fiber_assert_def if_False using assms
  by (rule with_log_W) (auto simp: SYLAR_ASSERT_def flog_ok_def intro: assertion_failed_eval)

lemma fiber_assert2_False:
  assumes "this_live fs tf" and "flog_ok E l"
  shows "\<exists>l'. fiber_assert2 E line False w (W fs n c tf tt hs k l) = (Inl (Abort ''false''), W fs n c tf tt hs k l') \<and> flog_ok E l'"
  unfolding fiber_assert2_def if_False using assms
  by (rule with_log_W) (auto simp: SYLAR_ASSERT2_def flog_ok_def intro: assertion_failed_eval)

section \<open>Pointers\<close>

lemma share_W [simp]:
  "at fs i = Some f \<Longrightarrow>
     share i (W fs n c tf tt hs k l) = (Inr (), W (fs[i := Some (f\<lparr>fb_use := fb_use f + 1\<rparr>)]) n c tf tt hs k l)"
  by (simp add: share_def)

lemma this_live_update [simp]: "at fs i = Some f \<Longrightarrow> this_live (fs[i := Some g]) tf = this_live fs tf"
  by (auto simp: this_live_def)

lemma release_keeps:
  "at fs i = Some f \<Longrightarrow> 1 < fb_use f \<Longrightarrow>
     release E i (W fs n c tf tt hs k l) = (Inr (), W (fs[i := Some (f\<lparr>fb_use := fb_use f - 1\<rparr>)]) n c tf tt hs k l)"
  by (simp add: release_def comp_simps)

lemma release_destroys_wrote:
  assumes "at fs i = Some f" and "fb_use f = 1" and "fb_stack f" and "fb_state f = TERM' \<or> fb_state f = INIT \<or> fb_state f = EXCEPT"
    and "this_live fs tf" and "flog_ok E l"
  shows "\<exists>l'. release E i (W fs n c tf tt hs k l) = (Inr (), W (fs[i := None]) n (c - 1) tf tt hs k l') \<and>
     wrote E [(fid_of (fs[i := Some (f\<lparr>fb_use := 0\<rparr>)]) tf, fe_logger E, DEBUG, ''sylar/fiber.cc'', 92, ''Fiber::~Fiber id='' @ show_nat (unat (fb_id f)))] l l'"
proof -
  let ?fs = "fs[i := Some (f\<lparr>fb_use := 0\<rparr>)]"
  have "this_live ?fs tf" using assms(1,5) by simp
  then obtain l' where "fiber_log E DEBUG 92 (''Fiber::~Fiber id='' @ show_nat (unat (fb_id f))) (W ?fs n (c - 1) tf tt hs k l) =
      (Inr (), W ?fs n (c - 1) tf tt hs k l')" and
      "wrote E [(fid_of ?fs tf, fe_logger E, DEBUG, ''sylar/fiber.cc'', 92, ''Fiber::~Fiber id='' @ show_nat (unat (fb_id f)))] l l'"
    using fiber_log_wrote [OF _ assms(6)] by blast
  with assms show ?thesis by (simp add: release_def Fiber_dtor_def comp_simps)
qed

lemma release_destroys:
  assumes "at fs i = Some f" and "fb_use f = 1" and "fb_stack f" and "fb_state f = TERM' \<or> fb_state f = INIT \<or> fb_state f = EXCEPT"
    and "this_live fs tf" and "flog_ok E l"
  shows "\<exists>l'. release E i (W fs n c tf tt hs k l) = (Inr (), W (fs[i := None]) n (c - 1) tf tt hs k l') \<and> flog_ok E l'"
  using release_destroys_wrote [OF assms] wrote_ok by blast

text \<open>The destructor of a fiber that is neither finished nor fresh does not return.\<close>

lemma release_aborts:
  assumes "at fs i = Some f" and "fb_use f = 1" and "fb_stack f" and "fb_state f = HOLD \<or> fb_state f = READY \<or> fb_state f = EXEC"
    and "this_live fs tf" and "flog_ok E l"
  shows "\<exists>t. release E i (W fs n c tf tt hs k l) = (Inl (Abort ''m_state == TERM || m_state == INIT || m_state == EXCEPT''), t)"
proof -
  let ?fs = "fs[i := Some (f\<lparr>fb_use := 0\<rparr>)]" and ?x = "''m_state == TERM || m_state == INIT || m_state == EXCEPT''"
  have "this_live ?fs tf" using assms(1,5) by simp
  then obtain l' where "fiber_assert E 79 False ?x (W ?fs n (c - 1) tf tt hs k l) = (Inl (Abort ?x), W ?fs n (c - 1) tf tt hs k l')"
    using fiber_assert_False [OF _ assms(6)] by blast
  with assms show ?thesis by (auto simp: release_def Fiber_dtor_def comp_simps)
qed

section \<open>The current fiber\<close>

lemma GetThis_Some:
  "at fs i = Some f \<Longrightarrow>
     Fiber_GetThis E (W fs n c (Some i) tt hs k l) =
       (Inr i, W (fs[i := Some (f\<lparr>fb_use := fb_use f + 1\<rparr>)]) n c (Some i) tt hs k l)"
  by (simp add: Fiber_GetThis_def comp_simps)

definition main_fiber :: "nat \<Rightarrow> Fiber" where
  "main_fiber u =
     \<lparr>fb_id = 0, fb_stacksize = 0, fb_state = EXEC, fb_ctx = None, fb_stack = False, fb_cb = None, fb_use = u\<rparr>"

lemma new_main_wrote:
  assumes "fenv_ok E" and "flog_ok E l"
  shows "\<exists>l'. Fiber_new_main E (W fs n c tf tt hs k l) =
      (Inr (length fs), W (fs @ [Some (main_fiber 0)]) n (c + 1) (Some (length fs)) tt hs k l') \<and>
     wrote E [(0, fe_logger E, DEBUG, ''sylar/fiber.cc'', 51, ''Fiber::Fiber'')] l l'"
proof -
  have "this_live (fs @ [Some (main_fiber 0)]) (Some (length fs))"
    "fid_of (fs @ [Some (main_fiber 0)]) (Some (length fs)) = 0" by (simp_all add: this_live_def fid_of_def main_fiber_def)
  then obtain l' where "fiber_log E DEBUG 51 ''Fiber::Fiber'' (W (fs @ [Some (main_fiber 0)]) n (c + 1) (Some (length fs)) tt hs k l) =
      (Inr (), W (fs @ [Some (main_fiber 0)]) n (c + 1) (Some (length fs)) tt hs k l')" and
      "wrote E [(0, fe_logger E, DEBUG, ''sylar/fiber.cc'', 51, ''Fiber::Fiber'')] l l'"
    using fiber_log_wrote [OF _ assms(2)] by metis
  with assms(1) show ?thesis by (simp add: Fiber_new_main_def comp_simps fenv_ok_def main_fiber_def Let_def)
qed

lemma GetThis_None_wrote:
  assumes "fenv_ok E" and "flog_ok E l"
  shows "\<exists>l'. Fiber_GetThis E (W fs n c None None hs k l) =
      (Inr (length fs), W (fs @ [Some (main_fiber 2)]) n (c + 1) (Some (length fs)) (Some (length fs)) hs k l') \<and>
     wrote E [(0, fe_logger E, DEBUG, ''sylar/fiber.cc'', 51, ''Fiber::Fiber'')] l l'"
proof -
  obtain l' where "Fiber_new_main E (W fs n c None None hs k l) =
      (Inr (length fs), W (fs @ [Some (main_fiber 0)]) n (c + 1) (Some (length fs)) None hs k l')" 
      "wrote E [(0, fe_logger E, DEBUG, ''sylar/fiber.cc'', 51, ''Fiber::Fiber'')] l l'"
    using new_main_wrote [OF assms] by blast
  then show ?thesis
    by (simp add: Fiber_GetThis_def set_threadFiber_def comp_simps release_def main_fiber_def Let_def)
qed

lemma GetThis_None:
  assumes "fenv_ok E" and "flog_ok E l"
  shows "\<exists>l'. Fiber_GetThis E (W fs n c None None hs k l) =
      (Inr (length fs), W (fs @ [Some (main_fiber 2)]) n (c + 1) (Some (length fs)) (Some (length fs)) hs k l') \<and> flog_ok E l'"
  using GetThis_None_wrote [OF assms] wrote_ok by blast

section \<open>Creation and reset\<close>

definition stack_size_of :: "fiber_env \<Rightarrow> u64 \<Rightarrow> u32" where
  "stack_size_of E stacksize = (if stacksize \<noteq> 0 then ucast stacksize else g_fiber_stack_size E)"

definition fresh_fiber :: "fiber_env \<Rightarrow> u64 \<Rightarrow> action list option \<Rightarrow> u64 \<Rightarrow> nat \<Rightarrow> Fiber" where
  "fresh_fiber E fid cb stacksize u =
     \<lparr>fb_id = fid, fb_stacksize = stack_size_of E stacksize, fb_state = INIT, fb_ctx = Some [MainFunc], fb_stack = True,
      fb_cb = cb, fb_use = u\<rparr>"

lemma Fiber_new_wrote:
  assumes "fenv_ok E" and "flog_ok E l" and "this_live fs tf"
  shows "\<exists>l'. Fiber_new E cb stacksize (W fs n c tf tt hs k l) =
      (Inr (length fs), W (fs @ [Some (fresh_fiber E (n + 1) cb stacksize 0)]) (n + 1) (c + 1) tf tt hs k l') \<and>
     wrote E [(fid_of fs tf, fe_logger E, DEBUG, ''sylar/fiber.cc'', 72, ''Fiber::Fiber id='' @ show_nat (unat (n + 1)))] l l'"
proof -
  let ?fs = "fs @ [Some (fresh_fiber E (n + 1) cb stacksize 0)]"
  have "this_live ?fs tf" "fid_of ?fs tf = fid_of fs tf"
    using assms(3) at_length by (auto simp: this_live_def fid_of_def split: option.splits)
  then obtain l' where "fiber_log E DEBUG 72 (''Fiber::Fiber id='' @ show_nat (unat (n + 1))) (W ?fs (n + 1) (c + 1) tf tt hs k l) =
      (Inr (), W ?fs (n + 1) (c + 1) tf tt hs k l')" 
      "wrote E [(fid_of fs tf, fe_logger E, DEBUG, ''sylar/fiber.cc'', 72, ''Fiber::Fiber id='' @ show_nat (unat (n + 1)))] l l'"
    using fiber_log_wrote [OF _ assms(2)] by metis
  with assms(1) show ?thesis
    by (simp add: Fiber_new_def comp_simps fenv_ok_def fresh_fiber_def stack_size_of_def Let_def)
qed

lemma NewFiber_wrote:
  assumes "fenv_ok E" and "flog_ok E l" and "this_live fs tf"
  shows "\<exists>l'. exec_action E (NewFiber cb stacksize) (W fs n c tf tt hs k l) =
      (Inr (), W (fs @ [Some (fresh_fiber E (n + 1) cb stacksize 1)]) (n + 1) (c + 1) tf tt (length fs # hs) k l') \<and>
     wrote E [(fid_of fs tf, fe_logger E, DEBUG, ''sylar/fiber.cc'', 72, ''Fiber::Fiber id='' @ show_nat (unat (n + 1)))] l l'"
proof -
  obtain l' where "Fiber_new E cb stacksize (W fs n c tf tt hs k l) =
      (Inr (length fs), W (fs @ [Some (fresh_fiber E (n + 1) cb stacksize 0)]) (n + 1) (c + 1) tf tt hs k l')" 
      "wrote E [(fid_of fs tf, fe_logger E, DEBUG, ''sylar/fiber.cc'', 72, ''Fiber::Fiber id='' @ show_nat (unat (n + 1)))] l l'"
    using Fiber_new_wrote [OF assms] by blast
  then show ?thesis by (simp add: comp_simps fresh_fiber_def)
qed

lemma NewFiber_W:
  assumes "fenv_ok E" and "flog_ok E l" and "this_live fs tf"
  shows "\<exists>l'. exec_action E (NewFiber cb stacksize) (W fs n c tf tt hs k l) =
      (Inr (), W (fs @ [Some (fresh_fiber E (n + 1) cb stacksize 1)]) (n + 1) (c + 1) tf tt (length fs # hs) k l') \<and> flog_ok E l'"
  using NewFiber_wrote [OF assms] wrote_ok by blast

lemma reset_W:
  assumes "fenv_ok E" and "at fs i = Some f" and "fb_stack f" and "fb_state f = TERM' \<or> fb_state f = EXCEPT \<or> fb_state f = INIT"
  shows "Fiber_reset E i cb (W fs n c tf tt hs k l) =
      (Inr (), W (fs[i := Some (f\<lparr>fb_cb := cb, fb_ctx := Some [MainFunc], fb_state := INIT\<rparr>)]) n c tf tt hs k l)"
  using assms by (simp add: Fiber_reset_def comp_simps fenv_ok_def)

lemma reset_aborts:
  assumes "at fs i = Some f" and "fb_stack f" and "\<not> (fb_state f = TERM' \<or> fb_state f = EXCEPT \<or> fb_state f = INIT)"
    and "this_live fs tf" and "flog_ok E l"
  shows "\<exists>t. Fiber_reset E i cb (W fs n c tf tt hs k l) = (Inl (Abort ''m_state == TERM || m_state == EXCEPT || m_state == INIT''), t)"
proof -
  let ?x = "''m_state == TERM || m_state == EXCEPT || m_state == INIT''"
  obtain l' where "fiber_assert E 98 False ?x (W fs n c tf tt hs k l) = (Inl (Abort ?x), W fs n c tf tt hs k l')"
    using fiber_assert_False [OF assms(4,5)] by blast
  with assms show ?thesis by (simp add: Fiber_reset_def comp_simps)
qed

section \<open>Switching\<close>

lemma swapIn_W:
  assumes "fenv_ok E" and "at fs m = Some fm" and "at fs i = Some f" and "i \<noteq> m" and "fb_state f \<noteq> EXEC" and "fb_ctx f = Some k'"
  shows "Fiber_swapIn E i (W fs n c tf (Some m) hs k l) =
      (Inr (), W (fs[i := Some (f\<lparr>fb_state := EXEC\<rparr>), m := Some (fm\<lparr>fb_ctx := Some k\<rparr>)]) n c (Some i) (Some m) hs k' l)"
  using assms by (simp add: Fiber_swapIn_def swapcontext_def comp_simps fenv_ok_def)

lemma swapIn_no_main:
  assumes "at fs i = Some f" and "fb_state f \<noteq> EXEC"
  shows "Fiber_swapIn E i (W fs n c tf None hs k l) =
      (Inl NullDeref, W (fs[i := Some (f\<lparr>fb_state := EXEC\<rparr>)]) n c (Some i) None hs k l)"
  using assms by (simp add: Fiber_swapIn_def comp_simps)

lemma swapOut_W:
  assumes "fenv_ok E" and "at fs m = Some fm" and "at fs i = Some f" and "i \<noteq> m" and "fb_ctx fm = Some k'"
  shows "Fiber_swapOut E i (W fs n c tf (Some m) hs k l) =
      (Inr (), W (fs[i := Some (f\<lparr>fb_ctx := Some k\<rparr>)]) n c (Some m) (Some m) hs k' l)"
  using assms by (simp add: Fiber_swapOut_def swapcontext_def comp_simps fenv_ok_def)

lemma swapOut_main:
  assumes "fenv_ok E" and "at fs m = Some fm"
  shows "Fiber_swapOut E m (W fs n c tf (Some m) hs k l) =
      (Inr (), W (fs[m := Some (fm\<lparr>fb_ctx := Some k\<rparr>)]) n c (Some m) (Some m) hs k l)"
  using assms by (simp add: Fiber_swapOut_def swapcontext_def bindc_def get_fiber_def modify_def ret_def fenv_ok_def)

lemma swapOut_destroyed:
  assumes "fenv_ok E" and "at fs i = None"
  shows "\<exists>t. Fiber_swapOut E i (W fs n c tf (Some m) hs k l) = (Inl Indeterminate, t)"
  using assms by (simp add: Fiber_swapOut_def swapcontext_def comp_simps fenv_ok_def)

lemma yield_child:
  assumes "fenv_ok E" and "at fs m = Some fm" and "at fs i = Some f" and "i \<noteq> m" and "fb_ctx fm = Some k'"
  shows "yield_as E st (W fs n c (Some i) (Some m) hs k l) =
      (Inr (), W (fs[i := Some (f\<lparr>fb_use := fb_use f + 1, fb_state := st, fb_ctx := Some (EndYield i # k)\<rparr>)]) n c
        (Some m) (Some m) hs k' l)"
  using assms by (simp add: yield_as_def GetThis_Some comp_simps swapOut_W)

lemma yield_main:
  assumes "fenv_ok E" and "at fs m = Some fm"
  shows "yield_as E st (W fs n c (Some m) (Some m) hs k l) =
      (Inr (), W (fs[m := Some (fm\<lparr>fb_use := fb_use fm + 1, fb_state := st, fb_ctx := Some (EndYield m # k)\<rparr>)]) n c
        (Some m) (Some m) hs (EndYield m # k) l)"
  using assms by (simp add: yield_as_def GetThis_Some comp_simps swapOut_main)

lemma yield_first:
  assumes "fenv_ok E" and "flog_ok E l"
  shows "\<exists>l'. yield_as E st (W fs n c None None hs k l) =
      (Inr (), W (fs @ [Some (main_fiber 2\<lparr>fb_state := st, fb_ctx := Some (EndYield (length fs) # k)\<rparr>)]) n (c + 1)
        (Some (length fs)) (Some (length fs)) hs (EndYield (length fs) # k) l') \<and> flog_ok E l'"
proof -
  obtain l' where "Fiber_GetThis E (W fs n c None None hs k l) =
      (Inr (length fs), W (fs @ [Some (main_fiber 2)]) n (c + 1) (Some (length fs)) (Some (length fs)) hs k l')" "flog_ok E l'"
    using GetThis_None [OF assms] by blast
  then show ?thesis using assms(1) by (simp add: yield_as_def comp_simps swapOut_main)
qed

section \<open>The end of a fiber\<close>

lemma leave_W:
  assumes "fenv_ok E" and "at fs m = Some fm" and "at fs i = Some f" and "i \<noteq> m" and "fb_ctx fm = Some k'" and "1 < fb_use f"
  shows "MainFunc_leave E i (W fs n c tf (Some m) hs k l) =
      (Inr (), W (fs[i := Some (f\<lparr>fb_use := fb_use f - 1, fb_ctx := Some (NeverReach # k)\<rparr>)]) n c (Some m) (Some m) hs k' l)"
  using assms by (simp add: MainFunc_leave_def release_keeps comp_simps swapOut_W)

text \<open>Without another pointer to it the fiber frees the stack it is running on.\<close>

lemma leave_destroyed:
  assumes "fenv_ok E" and "at fs i = Some f" and "fb_use f = 1" and "fb_stack f" and "fb_state f = TERM' \<or> fb_state f = EXCEPT"
    and "this_live fs tf" and "flog_ok E l"
  shows "\<exists>t. MainFunc_leave E i (W fs n c tf (Some m) hs k l) = (Inl Indeterminate, t)"
proof -
  obtain l' where "release E i (W fs n c tf (Some m) hs k l) = (Inr (), W (fs[i := None]) n (c - 1) tf (Some m) hs k l')"
    using release_destroys [OF assms(2-4) _ assms(6,7)] assms(5) by blast
  moreover have "at (fs[i := None]) i = None" using assms(2) by simp
  ultimately show ?thesis using swapOut_destroyed [OF assms(1)] by (simp add: MainFunc_leave_def comp_simps)
qed

lemma catch_W:
  assumes "fenv_ok E" and "at fs m = Some fm" and "at fs i = Some f" and "i \<noteq> m" and "fb_ctx fm = Some k'" and "1 < fb_use f"
    and "this_live fs tf" and "flog_ok E l"
  shows "\<exists>l'. MainFunc_catch E i e (W fs n c tf (Some m) hs k l) =
      (Inr (), W (fs[i := Some (f\<lparr>fb_state := EXCEPT, fb_use := fb_use f - 1, fb_ctx := Some (NeverReach # k)\<rparr>)]) n c
        (Some m) (Some m) hs k' l') \<and> flog_ok E l'"
proof -
  let ?fs = "fs[i := Some (f\<lparr>fb_state := EXCEPT\<rparr>)]"
  have "this_live ?fs tf" using assms(3,7) by simp
  then obtain l' where
    "(if e = non_std_exception then fiber_log E ERROR 174 ''Fiber Except: ''
      else fiber_log E ERROR 171 (''Fiber Except: '' @ fe_what E e)) (W ?fs n c tf (Some m) hs k l) =
      (Inr (), W ?fs n c tf (Some m) hs k l')" "flog_ok E l'"
    using fiber_log_W [OF _ assms(8)] by (cases "e = non_std_exception") fastforce+
  moreover have "at ?fs m = Some fm" "at ?fs i = Some (f\<lparr>fb_state := EXCEPT\<rparr>)" using assms(2-4) by simp_all
  ultimately show ?thesis
    using assms by (simp add: MainFunc_catch_def comp_simps leave_W [where fm = fm and f = "f\<lparr>fb_state := EXCEPT\<rparr>"])
qed

lemma catch_destroyed:
  assumes "fenv_ok E" and "at fs i = Some f" and "fb_use f = 1" and "fb_stack f" and "this_live fs tf" and "flog_ok E l"
  shows "\<exists>t. MainFunc_catch E i e (W fs n c tf (Some m) hs k l) = (Inl Indeterminate, t)"
proof -
  let ?fs = "fs[i := Some (f\<lparr>fb_state := EXCEPT\<rparr>)]"
  have live: "this_live ?fs tf" using assms(2,5) by simp
  then obtain l' where
    "(if e = non_std_exception then fiber_log E ERROR 174 ''Fiber Except: ''
      else fiber_log E ERROR 171 (''Fiber Except: '' @ fe_what E e)) (W ?fs n c tf (Some m) hs k l) =
      (Inr (), W ?fs n c tf (Some m) hs k l')" "flog_ok E l'"
    using fiber_log_W [OF _ assms(6)] by (cases "e = non_std_exception") fastforce+
  with leave_destroyed [OF assms(1) _ _ _ _ live, of i "f\<lparr>fb_state := EXCEPT\<rparr>" l' n c m hs k] assms(2-4)
  show ?thesis by (auto simp: MainFunc_catch_def comp_simps)
qed

lemma return_W:
  assumes "fenv_ok E" and "at fs m = Some fm" and "at fs i = Some f" and "i \<noteq> m" and "fb_ctx fm = Some k'" and "1 < fb_use f"
  shows "MainFunc_return E i (W fs n c tf (Some m) hs k l) =
      (Inr (), W (fs[i := Some (f\<lparr>fb_cb := None, fb_state := TERM', fb_use := fb_use f - 1, fb_ctx := Some (NeverReach # k)\<rparr>)]) n c
        (Some m) (Some m) hs k' l)"
  using assms
  by (simp add: MainFunc_return_def comp_simps leave_W [where fm = fm and f = "f\<lparr>fb_cb := None, fb_state := TERM'\<rparr>"])

lemma return_destroyed:
  assumes "fenv_ok E" and "at fs i = Some f" and "fb_use f = 1" and "fb_stack f" and "this_live fs tf" and "flog_ok E l"
  shows "\<exists>t. MainFunc_return E i (W fs n c tf (Some m) hs k l) = (Inl Indeterminate, t)"
  using leave_destroyed [OF assms(1), of "fs[i := Some (f\<lparr>fb_cb := None, fb_state := TERM'\<rparr>)]" i
      "f\<lparr>fb_cb := None, fb_state := TERM'\<rparr>" tf l n c m hs k] assms(2-)
  by (auto simp: MainFunc_return_def comp_simps)

end
