(* ===== verification/FiberInv.thy ===== *)
theory FiberInv
  imports FiberOps
begin

text \<open>
  The transition system of a thread that uses fibers, its invariant, and which steps the invariant
  lets go through. The class switches between the thread and one fiber at a time: the programs considered call
  \<open>swapIn\<close> from the code of the thread and not from a callback.
\<close>

section \<open>Programs\<close>

fun flat :: "action \<Rightarrow> bool" where
  "flat (NewFiber cb stacksize) = (case cb of None \<Rightarrow> True | Some acts \<Rightarrow> \<forall>a \<in> set acts. flat a)"
| "flat (Reset i cb) = (case cb of None \<Rightarrow> True | Some acts \<Rightarrow> \<forall>a \<in> set acts. flat a)"
| "flat (SwapIn i) = False"
| "flat a = True"

definition flat_cb :: "action list option \<Rightarrow> bool" where
  "flat_cb cb \<longleftrightarrow> (case cb of None \<Rightarrow> True | Some acts \<Rightarrow> \<forall>a \<in> set acts. flat a)"

lemma flat_new [simp]: "flat (NewFiber cb stacksize) = flat_cb cb" "flat (Reset i cb) = flat_cb cb"
  by (simp_all add: flat_cb_def)

declare flat.simps(1,2) [simp del]

definition thread_action :: "action \<Rightarrow> bool" where
  "thread_action a \<longleftrightarrow> (case a of SwapIn i \<Rightarrow> True | _ \<Rightarrow> flat a)"

lemma thread_action_flat: "flat a \<Longrightarrow> thread_action a"
  by (cases a) (simp_all add: thread_action_def)

text \<open>The code of the thread, and the code on the stack of a fiber from inside its callback.\<close>

fun thread_code :: "frame list \<Rightarrow> bool" where
  "thread_code [] = True"
| "thread_code (Act a # k) = (thread_action a \<and> thread_code k)"
| "thread_code _ = False"

fun body_code :: "addr \<Rightarrow> frame list \<Rightarrow> bool" where
  "body_code i (Act a # k) = (flat a \<and> body_code i k)"
| "body_code i (AfterCb j # k) = (j = i \<and> k = [])"
| "body_code i _ = False"

lemma thread_code_map [simp]: "thread_code (map Act acts) = (\<forall>a \<in> set acts. thread_action a)"
  by (induction acts) auto

lemma body_code_map: "flat_cb (Some acts) \<Longrightarrow> body_code i (map Act acts @ [AfterCb i])"
  by (induction acts) (auto simp: flat_cb_def)

section \<open>The invariant\<close>

text \<open>
  A fiber that is not running, with \<open>h\<close> pointers held by the program. While its \<open>MainFunc\<close> is
  suspended the stack holds two more pointers to it.
\<close>

definition at_rest :: "nat \<Rightarrow> addr \<Rightarrow> Fiber \<Rightarrow> bool" where
  "at_rest h i f \<longleftrightarrow>
     fb_stack f \<and> flat_cb (fb_cb f) \<and> 0 < fb_use f \<and>
     (case fb_state f of
        INIT \<Rightarrow> fb_ctx f = Some [MainFunc] \<and> fb_use f = h
      | HOLD \<Rightarrow> (\<exists>k. fb_ctx f = Some (EndYield i # k) \<and> body_code i k) \<and> fb_use f = h + 2
      | READY \<Rightarrow> (\<exists>k. fb_ctx f = Some (EndYield i # k) \<and> body_code i k) \<and> fb_use f = h + 2
      | TERM' \<Rightarrow> fb_ctx f = Some [NeverReach] \<and> fb_use f = h \<and> fb_cb f = None
      | EXCEPT \<Rightarrow> fb_ctx f = Some [NeverReach] \<and> fb_use f = h
      | EXEC \<Rightarrow> False)"

definition running :: "nat \<Rightarrow> addr \<Rightarrow> frame list \<Rightarrow> Fiber \<Rightarrow> bool" where
  "running h i k f \<longleftrightarrow>
     fb_stack f \<and> flat_cb (fb_cb f) \<and> 0 < fb_use f \<and> fb_state f = EXEC \<and>
     ((k = [MainFunc] \<or> k = [NeverReach]) \<and> fb_use f = h \<or>
      body_code i k \<and> fb_use f = h + 1 \<or>
      (\<exists>k'. k = EndYield i # k' \<and> body_code i k') \<and> fb_use f = h + 2)"

definition main_ok :: "addr \<Rightarrow> addr option \<Rightarrow> frame list \<Rightarrow> Fiber \<Rightarrow> bool" where
  "main_ok m tf k f \<longleftrightarrow>
     \<not> fb_stack f \<and> fb_cb f = None \<and> fb_id f = 0 \<and> (fb_state f = EXEC \<or> fb_state f = READY \<or> fb_state f = HOLD) \<and>
     (if tf = Some m then
        thread_code k \<and> fb_use f = 1 \<or> (\<exists>k'. k = EndYield m # k' \<and> thread_code k') \<and> fb_use f = 2
      else (\<exists>k'. fb_ctx f = Some k' \<and> thread_code k') \<and> fb_use f = 1)"

definition fib_ok :: "addr option \<Rightarrow> addr option \<Rightarrow> addr list \<Rightarrow> frame list \<Rightarrow> addr \<Rightarrow> Fiber \<Rightarrow> bool" where
  "fib_ok tf tt hs k i f \<longleftrightarrow>
     (if tt = Some i then main_ok i tf k f
      else if tf = Some i then running (count_list hs i) i k f
      else at_rest (count_list hs i) i f)"

definition live :: "Fiber option list \<Rightarrow> nat" where
  "live fs = length (filter (\<lambda>x. x \<noteq> None) fs)"

definition fib_inv :: "fiber_env \<Rightarrow> fiber_world \<Rightarrow> bool" where
  "fib_inv E s \<longleftrightarrow>
     flog_ok E (fw_log s) \<and>
     s_fiber_count s = of_nat (live (fw_fibers s)) \<and>
     (\<forall>i f. at (fw_fibers s) i = Some f \<longrightarrow> fib_ok (t_fiber s) (t_threadFiber s) (fw_handles s) (fw_code s) i f) \<and>
     (\<forall>i \<in> set (fw_handles s). at (fw_fibers s) i \<noteq> None \<and> t_threadFiber s \<noteq> Some i) \<and>
     this_live (fw_fibers s) (t_fiber s) \<and> this_live (fw_fibers s) (t_threadFiber s) \<and>
     (t_fiber s = None \<longleftrightarrow> t_threadFiber s = None) \<and>
     (t_threadFiber s = None \<longrightarrow> thread_code (fw_code s))"

lemma live_append [simp]: "live (fs @ [Some f]) = Suc (live fs)"
  by (simp add: live_def)

lemma live_pos: "at fs i = Some f \<Longrightarrow> 0 < live fs"
proof -
  assume "at fs i = Some f"
  then have "Some f \<in> set fs" by (metis at_def nth_mem option.distinct(1))
  then have "filter (\<lambda>x. x \<noteq> None) fs \<noteq> []" unfolding filter_empty_conv by blast
  then show ?thesis by (simp add: live_def)
qed

lemma live_update: "at fs i = Some f \<Longrightarrow> live (fs[i := x]) = (if x = None then live fs - 1 else live fs)"
proof (induction fs arbitrary: i)
  case (Cons y fs)
  show ?case
  proof (cases i)
    case 0
    with Cons.prems show ?thesis by (simp add: live_def at_def)
  next
    case (Suc j)
    with Cons.prems have "at fs j = Some f" by (simp add: at_def split: if_splits)
    with live_pos [OF this] Cons.IH [of j] Suc show ?thesis by (auto simp: live_def)
  qed
qed (simp add: at_def)

lemma inv_W [simp]:
  "fib_inv E (W fs n c tf tt hs k l) \<longleftrightarrow>
     flog_ok E l \<and> c = of_nat (live fs) \<and> (\<forall>i f. at fs i = Some f \<longrightarrow> fib_ok tf tt hs k i f) \<and>
     (\<forall>i \<in> set hs. at fs i \<noteq> None \<and> tt \<noteq> Some i) \<and> this_live fs tf \<and> this_live fs tt \<and> (tf = None \<longleftrightarrow> tt = None) \<and>
     (tt = None \<longrightarrow> thread_code k)"
  by (simp add: fib_inv_def)

lemma inv_update:
  assumes "fib_inv E (W fs n c tf tt hs k l)" and "at fs i = Some f" and "fib_ok tf tt hs k i f'"
  shows "fib_inv E (W (fs[i := Some f']) n c tf tt hs k l)"
  using assms by (auto simp: live_update)

lemma inv_log: "fib_inv E (W fs n c tf tt hs k l) \<Longrightarrow> flog_ok E l' \<Longrightarrow> fib_inv E (W fs n c tf tt hs k l')"
  by simp

text \<open>The frame that runs next may be taken off the code.\<close>

lemma fib_ok_pop: "fib_ok tf tt hs (Act a # k) i f \<Longrightarrow> fib_ok tf tt hs k i f"
  by (auto simp: fib_ok_def main_ok_def running_def split: if_splits)

lemma inv_pop:
  assumes "fib_inv E (W fs n c tf tt hs (Act a # k) l)"
  shows "fib_inv E (W fs n c tf tt hs k l)" and "if tf = tt then thread_action a else flat a"
proof -
  show "fib_inv E (W fs n c tf tt hs k l)" using assms by (cases tt) (auto intro: fib_ok_pop)
  show "if tf = tt then thread_action a else flat a"
  proof (cases tf)
    case None
    with assms show ?thesis by simp
  next
    case (Some i)
    with assms obtain f where "at fs i = Some f" "fib_ok tf tt hs (Act a # k) i f" by (auto simp: this_live_def)
    with Some show ?thesis by (auto simp: fib_ok_def main_ok_def running_def split: if_splits)
  qed
qed

section \<open>Steps that keep the running code\<close>

lemma fib_ok_handles: "count_list hs' i = count_list hs i \<Longrightarrow> fib_ok tf tt hs' k i f = fib_ok tf tt hs k i f"
  by (simp add: fib_ok_def)

lemma inv_NewFiber:
  assumes "fib_inv E (W fs n c tf tt hs k l)" and "fenv_ok E" and "flat_cb cb"
  shows "\<exists>t. exec_action E (NewFiber cb stacksize) (W fs n c tf tt hs k l) = (Inr (), t) \<and> fib_inv E t"
proof -
  have live: "flog_ok E l" "this_live fs tf" "this_live fs tt" using assms(1) by simp_all
  have tts: "tt \<noteq> Some (length fs)" "tf \<noteq> Some (length fs)" "length fs \<notin> set hs"
    using assms(1) by (auto simp: this_live_def at_def)
  have "fib_ok tf tt (length fs # hs) k (length fs) (fresh_fiber E (n + 1) cb stacksize 1)"
    using tts assms(3) by (simp add: fib_ok_def at_rest_def fresh_fiber_def count_list_0_iff)
  moreover have "at fs (length fs) = None" by (simp add: at_def)
  ultimately have "fib_inv E (W (fs @ [Some (fresh_fiber E (n + 1) cb stacksize 1)]) (n + 1) (c + 1) tf tt (length fs # hs) k l)"
    using assms(1) tts by (auto simp: this_live_def fib_ok_handles [of "length fs # hs" _ hs])
  then show ?thesis using NewFiber_W [OF assms(2) live(1,2), of cb stacksize n c tt hs k] inv_log by blast
qed

text \<open>A fiber the program has a pointer to is alive and not the main fiber.\<close>

lemma handle_child:
  assumes "fib_inv E (W fs n c tf tt hs k l)" and "i \<in> set hs"
  obtains f where "at fs i = Some f" and "tt \<noteq> Some i" and "fb_stack f"
    and "if tf = Some i then running (count_list hs i) i k f else at_rest (count_list hs i) i f"
proof -
  from assms obtain f where f: "at fs i = Some f" "tt \<noteq> Some i" by auto
  with assms(1) have "if tf = Some i then running (count_list hs i) i k f else at_rest (count_list hs i) i f"
    by (auto simp: fib_ok_def)
  moreover from this have "fb_stack f" by (auto simp: running_def at_rest_def split: if_splits)
  ultimately show thesis using that f by blast
qed

lemma inv_Reset:
  assumes "fib_inv E (W fs n c tf tt hs k l)" and "fenv_ok E" and "flat_cb cb" and "i \<in> set hs" and "at fs i = Some f"
  shows "(\<exists>t. exec_action E (Reset i cb) (W fs n c tf tt hs k l) = (Inr (), t) \<and> fib_inv E t) \<and>
        (fb_state f = TERM' \<or> fb_state f = EXCEPT \<or> fb_state f = INIT) \<or>
      (\<exists>t. exec_action E (Reset i cb) (W fs n c tf tt hs k l) =
          (Inl (Abort ''m_state == TERM || m_state == EXCEPT || m_state == INIT''), t)) \<and>
        \<not> (fb_state f = TERM' \<or> fb_state f = EXCEPT \<or> fb_state f = INIT)"
proof -
  have c: "tt \<noteq> Some i" "fb_stack f" "if tf = Some i then running (count_list hs i) i k f else at_rest (count_list hs i) i f"
    using handle_child [OF assms(1,4)] assms(5) by (metis option.inject)+
  show ?thesis
  proof (cases "fb_state f = TERM' \<or> fb_state f = EXCEPT \<or> fb_state f = INIT")
    case True
    let ?f = "f\<lparr>fb_cb := cb, fb_ctx := Some [MainFunc], fb_state := INIT\<rparr>"
    have "tf \<noteq> Some i" using c(3) True by (auto simp: running_def)
    with c True assms(3) have "fib_ok tf tt hs k i ?f" by (auto simp: fib_ok_def at_rest_def)
    then have "fib_inv E (W (fs[i := Some ?f]) n c tf tt hs k l)" by (rule inv_update [OF assms(1,5)])
    then show ?thesis using reset_W [OF assms(2,5) c(2) True] True assms(4) by (simp add: with_handle_def)
  next
    case False
    have "this_live fs tf" "flog_ok E l" using assms(1) by simp_all
    then show ?thesis using reset_aborts [OF assms(5) c(2) False] False assms(4) by (auto simp: with_handle_def)
  qed
qed

lemma count_list_remove1: "count_list (remove1 i hs) j = (if i = j then count_list hs j - 1 else count_list hs j)"
  by (induction hs) auto

lemma count_list_pos: "i \<in> set hs \<Longrightarrow> 0 < count_list hs i"
  using count_list_0_iff [of hs i] by auto

text \<open>The destructor's assertion never fires: a suspended or running fiber is kept alive by its own stack.\<close>

lemma inv_DropHandle:
  assumes act: "fib_inv E (W fs n c tf tt hs (Act a # k) l)" and "i \<in> set hs"
  shows "\<exists>t. exec_action E (DropHandle i) (W fs n c tf tt hs k l) = (Inr (), t) \<and> fib_inv E t"
proof -
  let ?hs = "remove1 i hs"
  have inv: "fib_inv E (W fs n c tf tt hs k l)" using act by (rule inv_pop)
  have live: "flog_ok E l" "this_live fs tf" "c = of_nat (live fs)" using act by simp_all
  obtain f where f: "at fs i = Some f" "tt \<noteq> Some i" "fb_stack f"
    "if tf = Some i then running (count_list hs i) i (Act a # k) f else at_rest (count_list hs i) i f"
    using handle_child [OF assms] .
  have pos: "0 < count_list hs i" using assms(2) by (rule count_list_pos)
  have others: "\<forall>j g. j \<noteq> i \<longrightarrow> at fs j = Some g \<longrightarrow> fib_ok tf tt ?hs k j g"
    using inv by (auto simp: fib_ok_handles [of ?hs _ hs] count_list_remove1)
  have hs: "\<forall>j \<in> set ?hs. at fs j \<noteq> None \<and> tt \<noteq> Some j" using inv set_remove1_subset [of i hs] by auto
  show ?thesis
  proof (cases "fb_use f = 1")
    case True
    with f(4) pos have st: "tf \<noteq> Some i" "fb_state f = TERM' \<or> fb_state f = INIT \<or> fb_state f = EXCEPT" "count_list hs i = 1"
      by (auto simp: running_def at_rest_def split: if_splits State.splits)
    then have "count_list ?hs i = 0" by (simp add: count_list_remove1)
    then have gone: "i \<notin> set ?hs" by (rule count_list_0_iff [THEN iffD1])
    have cnt: "c - 1 = of_nat (live fs - 1)" using live(3) live_pos [OF f(1)] by (simp add: of_nat_diff)
    have "fib_inv E (W (fs[i := None]) n (c - 1) tf tt ?hs k l)"
      using inv f(1,2) others hs gone st(1) cnt by (auto simp: live_update this_live_def)
    then show ?thesis
      using release_destroys [OF f(1) True f(3) st(2) live(2,1), of n c tt ?hs k] assms(2)
      by (auto simp: with_handle_def comp_simps)
  next
    case False
    then have use: "1 < fb_use f" using f(4) by (auto simp: running_def at_rest_def split: if_splits)
    have "fib_ok tf tt ?hs k i (f\<lparr>fb_use := fb_use f - 1\<rparr>)"
      using f(2,4) pos use by (auto simp: fib_ok_def running_def at_rest_def count_list_remove1 split: if_splits State.splits)
    then have "fib_inv E (W (fs[i := Some (f\<lparr>fb_use := fb_use f - 1\<rparr>)]) n c tf tt ?hs k l)"
      using inv f(1) others hs by (auto simp: live_update)
    then show ?thesis using release_keeps [OF f(1) use] assms(2) by (simp add: with_handle_def comp_simps)
  qed
qed

section \<open>Steps that switch\<close>

text \<open>Apart from the main fiber and the one that is running, every fiber rests.\<close>

definition others_rest :: "addr set \<Rightarrow> Fiber option list \<Rightarrow> addr list \<Rightarrow> bool" where
  "others_rest X fs hs \<longleftrightarrow> (\<forall>i f. i \<notin> X \<longrightarrow> at fs i = Some f \<longrightarrow> at_rest (count_list hs i) i f)"

lemma others_restD: "others_rest X fs hs \<Longrightarrow> i \<notin> X \<Longrightarrow> at fs i = Some f \<Longrightarrow> at_rest (count_list hs i) i f"
  by (simp add: others_rest_def)

lemma others_rest_update [simp]: "i \<in> X \<Longrightarrow> others_rest X (fs[i := x]) hs = others_rest X fs hs"
  by (auto simp: others_rest_def at_update)

lemma inv_no_main:
  "fib_inv E (W fs n c None None hs k l) \<longleftrightarrow>
     flog_ok E l \<and> c = of_nat (live fs) \<and> others_rest {} fs hs \<and> (\<forall>i \<in> set hs. at fs i \<noteq> None) \<and> thread_code k"
  by (auto simp: fib_ok_def others_rest_def this_live_def)

lemma inv_in_thread:
  "fib_inv E (W fs n c (Some m) (Some m) hs k l) \<longleftrightarrow>
     flog_ok E l \<and> c = of_nat (live fs) \<and> (\<exists>fm. at fs m = Some fm \<and> main_ok m (Some m) k fm) \<and> others_rest {m} fs hs \<and>
     (\<forall>i \<in> set hs. at fs i \<noteq> None \<and> m \<noteq> i)"
  by (auto simp: fib_ok_def others_rest_def this_live_def)

lemma inv_in_fiber:
  assumes "i \<noteq> m"
  shows "fib_inv E (W fs n c (Some i) (Some m) hs k l) \<longleftrightarrow>
     flog_ok E l \<and> c = of_nat (live fs) \<and> (\<exists>fm. at fs m = Some fm \<and> main_ok m (Some i) k fm) \<and>
     (\<exists>f. at fs i = Some f \<and> running (count_list hs i) i k f) \<and> others_rest {m, i} fs hs \<and>
     (\<forall>i \<in> set hs. at fs i \<noteq> None \<and> m \<noteq> i)"
  using assms by (auto simp: fib_ok_def others_rest_def this_live_def)

declare inv_W [simp del]

text \<open>The three situations of a thread: no main fiber yet, the code of the thread runs, a fiber runs.\<close>

lemma inv_cases:
  assumes "fib_inv E (W fs n c tf tt hs k l)"
  obtains "tf = None" "tt = None"
  | m where "tf = Some m" "tt = Some m"
  | m i where "tf = Some i" "tt = Some m" "i \<noteq> m"
  using assms that by (cases tf; cases tt) (auto simp: inv_W)

lemma inv_swapIn:
  assumes inv: "fib_inv E (W fs n c (Some m) (Some m) hs k l)" and "fenv_ok E" and "i \<in> set hs" and "thread_code k"
  shows "\<exists>t. exec_action E (SwapIn i) (W fs n c (Some m) (Some m) hs k l) = (Inr (), t) \<and> fib_inv E t"
proof -
  from inv obtain fm where fm: "at fs m = Some fm" "main_ok m (Some m) k fm" and rest: "others_rest {m} fs hs"
    by (auto simp: inv_in_thread)
  from inv assms(3) obtain f where f: "at fs i = Some f" "i \<noteq> m" by (auto simp: inv_in_thread)
  have r: "at_rest (count_list hs i) i f" using others_restD [OF rest _ f(1)] f(2) by simp
  then obtain k' where k': "fb_ctx f = Some k'" "fb_state f \<noteq> EXEC" "running (count_list hs i) i k' (f\<lparr>fb_state := EXEC\<rparr>)"
    by (auto simp: at_rest_def running_def split: State.splits)
  let ?fs = "fs[i := Some (f\<lparr>fb_state := EXEC\<rparr>), m := Some (fm\<lparr>fb_ctx := Some k\<rparr>)]"
  have at: "at ?fs i = Some (f\<lparr>fb_state := EXEC\<rparr>)" "at ?fs m = Some (fm\<lparr>fb_ctx := Some k\<rparr>)" "live ?fs = live fs"
    using f fm by (simp_all add: live_update)
  have "main_ok m (Some i) k' (fm\<lparr>fb_ctx := Some k\<rparr>)" using fm(2) assms(4) f(2) by (auto simp: main_ok_def)
  moreover have "others_rest {m, i} ?fs hs" using rest by (auto simp: others_rest_def at_update)
  ultimately have "fib_inv E (W ?fs n c (Some i) (Some m) hs k' l)"
    using inv at k'(3) f by (auto simp: inv_in_fiber [OF f(2)] inv_in_thread)
  then show ?thesis using swapIn_W [OF assms(2) fm(1) f k'(2,1)] assms(3) by (simp add: with_handle_def)
qed

text \<open>A fiber goes to the background.\<close>

lemma inv_suspend:
  assumes inv: "fib_inv E (W fs n c (Some i) (Some m) hs k l)" and "i \<noteq> m" and "at fs m = Some fm" and "fb_ctx fm = Some k'"
    and "at fs i = Some f" and "at_rest (count_list hs i) i f'"
  shows "fib_inv E (W (fs[i := Some f']) n c (Some m) (Some m) hs k' l)"
proof -
  have "main_ok m (Some m) k' fm" using inv assms(3,4,2) by (auto simp: inv_in_fiber [OF assms(2)] main_ok_def)
  moreover have "others_rest {m} (fs[i := Some f']) hs"
    using inv assms(5,6) by (auto simp: inv_in_fiber [OF assms(2)] others_rest_def)
  ultimately show ?thesis
    using inv assms(2,3,5) by (auto simp: inv_in_fiber [OF assms(2)] inv_in_thread live_update)
qed

lemma in_fiberE:
  assumes "fib_inv E (W fs n c (Some i) (Some m) hs k l)" and "i \<noteq> m"
  obtains fm k' f where "at fs m = Some fm" "fb_ctx fm = Some k'" "at fs i = Some f" "running (count_list hs i) i k f"
    "flog_ok E l" "this_live fs (Some i)"
proof -
  from assms obtain fm f where "at fs m = Some fm" "main_ok m (Some i) k fm" "at fs i = Some f"
    "running (count_list hs i) i k f" "flog_ok E l" by (auto simp: inv_in_fiber)
  moreover from this assms(2) obtain k' where "fb_ctx fm = Some k'" by (auto simp: main_ok_def)
  ultimately show thesis using that by (auto simp: this_live_def)
qed

lemma running_body: "running h i k f \<Longrightarrow> body_code i k \<Longrightarrow> fb_use f = h + 1"
  by (auto simp: running_def)

lemma running_body_Act: "running h i (Act a # k) f \<Longrightarrow> body_code i k \<and> fb_use f = h + 1"
  by (auto simp: running_def)

text \<open>Yielding, from each of the three situations.\<close>

lemma inv_yield_fiber:
  assumes act: "fib_inv E (W fs n c (Some i) (Some m) hs (Act a # k) l)" and "i \<noteq> m" and "fenv_ok E" and "st = READY \<or> st = HOLD"
  shows "\<exists>t. yield_as E st (W fs n c (Some i) (Some m) hs k l) = (Inr (), t) \<and> fib_inv E t"
proof -
  from in_fiberE [OF act assms(2)] obtain fm k' f where fm: "at fs m = Some fm" "fb_ctx fm = Some k'"
    and f: "at fs i = Some f" "running (count_list hs i) i (Act a # k) f" .
  let ?f = "f\<lparr>fb_use := fb_use f + 1, fb_state := st, fb_ctx := Some (EndYield i # k)\<rparr>"
  have "at_rest (count_list hs i) i ?f"
    using f(2) running_body_Act [OF f(2)] assms(4) by (auto simp: at_rest_def running_def)
  then have "fib_inv E (W (fs[i := Some ?f]) n c (Some m) (Some m) hs k' l)"
    by (rule inv_suspend [OF act assms(2) fm f(1)])
  then show ?thesis using yield_child [OF assms(3) fm(1) f(1) assms(2) fm(2)] by simp
qed

lemma inv_yield_thread:
  assumes act: "fib_inv E (W fs n c (Some m) (Some m) hs (Act a # k) l)" and "fenv_ok E" and "st = READY \<or> st = HOLD"
  shows "\<exists>t. yield_as E st (W fs n c (Some m) (Some m) hs k l) = (Inr (), t) \<and> fib_inv E t"
proof -
  from act obtain fm where fm: "at fs m = Some fm" "main_ok m (Some m) (Act a # k) fm" by (auto simp: inv_in_thread)
  let ?f = "fm\<lparr>fb_use := fb_use fm + 1, fb_state := st, fb_ctx := Some (EndYield m # k)\<rparr>"
  have "main_ok m (Some m) (EndYield m # k) ?f" using fm(2) assms(3) by (auto simp: main_ok_def)
  then have "fib_inv E (W (fs[m := Some ?f]) n c (Some m) (Some m) hs (EndYield m # k) l)"
    using act fm(1) by (auto simp: inv_in_thread live_update)
  then show ?thesis using yield_main [OF assms(2) fm(1)] by simp
qed

lemma inv_new_main:
  assumes inv: "fib_inv E (W fs n c None None hs k l)" and "flog_ok E l'" and "main_ok (length fs) (Some (length fs)) k' f"
  shows "fib_inv E (W (fs @ [Some f]) n (c + 1) (Some (length fs)) (Some (length fs)) hs k' l')"
proof -
  have "length fs \<notin> set hs" using inv by (auto simp: inv_no_main at_def)
  then show ?thesis using inv assms(2,3) by (auto simp: inv_no_main inv_in_thread others_rest_def)
qed

lemma inv_yield_first:
  assumes inv: "fib_inv E (W fs n c None None hs k l)" and "fenv_ok E" and "st = READY \<or> st = HOLD"
  shows "\<exists>t. yield_as E st (W fs n c None None hs k l) = (Inr (), t) \<and> fib_inv E t"
proof -
  have l: "flog_ok E l" "thread_code k" using inv by (auto simp: inv_no_main)
  let ?f = "main_fiber 2\<lparr>fb_state := st, fb_ctx := Some (EndYield (length fs) # k)\<rparr>"
  have "main_ok (length fs) (Some (length fs)) (EndYield (length fs) # k) ?f"
    using assms(3) l by (auto simp: main_ok_def main_fiber_def)
  then show ?thesis using yield_first [OF assms(2) l(1), of st fs n c hs k] inv_new_main [OF inv] by blast
qed

lemma inv_yield:
  assumes act: "fib_inv E (W fs n c tf tt hs (Act a # k) l)" and "fenv_ok E" and "st = READY \<or> st = HOLD"
  shows "\<exists>t. yield_as E st (W fs n c tf tt hs k l) = (Inr (), t) \<and> fib_inv E t"
  using act
proof (cases rule: inv_cases)
  case 1
  then show ?thesis using inv_pop(1) [OF act] inv_yield_first [OF _ assms(2,3)] by simp
next
  case (2 m)
  then show ?thesis using act inv_yield_thread [OF _ assms(2,3)] by simp
next
  case (3 m i)
  then show ?thesis using act inv_yield_fiber [OF _ 3(3) assms(2,3)] by simp
qed

lemma inv_GetThis:
  assumes act: "fib_inv E (W fs n c tf tt hs (Act a # k) l)" and "fenv_ok E"
  shows "\<exists>t. exec_action E CallGetThis (W fs n c tf tt hs k l) = (Inr (), t) \<and> fib_inv E t"
proof (cases tf)
  case None
  with act have tt: "tt = None" by (simp add: inv_W)
  have inv: "fib_inv E (W fs n c None None hs k l)" "flog_ok E l" using inv_pop(1) [OF act] None tt by (simp_all add: inv_W)
  from GetThis_None [OF assms(2) inv(2)] obtain l' where l': "Fiber_GetThis E (W fs n c None None hs k l) =
      (Inr (length fs), W (fs @ [Some (main_fiber 2)]) n (c + 1) (Some (length fs)) (Some (length fs)) hs k l')" "flog_ok E l'"
    by blast
  have "fib_inv E (W (fs @ [Some (main_fiber 1)]) n (c + 1) (Some (length fs)) (Some (length fs)) hs k l')"
    using inv(1) by (intro inv_new_main [OF inv(1) l'(2)]) (auto simp: main_ok_def main_fiber_def inv_no_main)
  then show ?thesis using l' None tt by (simp add: comp_simps release_def main_fiber_def)
next
  case (Some i)
  have inv: "fib_inv E (W fs n c tf tt hs k l)" by (rule inv_pop [OF act])
  from act Some obtain f where f: "at fs i = Some f" "fib_ok tf tt hs (Act a # k) i f" by (auto simp: inv_W this_live_def)
  then have "0 < fb_use f" using Some by (auto simp: fib_ok_def main_ok_def running_def split: if_splits)
  then have "fs[i := Some (f\<lparr>fb_use := fb_use f + 1 - 1\<rparr>)] = fs" using f(1) by (auto simp: at_def list_update_same_conv split: if_splits)
  then show ?thesis
    using inv Some f(1) \<open>0 < fb_use f\<close> by (simp add: GetThis_Some comp_simps release_keeps)
qed

text \<open>The end of a yield.\<close>

lemma inv_EndYield:
  assumes inv: "fib_inv E (W fs n c tf tt hs (EndYield j # k) l)"
  shows "\<exists>t. release E j (W fs n c tf tt hs k l) = (Inr (), t) \<and> fib_inv E t"
  using inv
proof (cases rule: inv_cases)
  case 1
  then show ?thesis using inv by (simp add: inv_no_main)
next
  case (2 m)
  from inv 2 obtain fm where fm: "at fs m = Some fm" "main_ok m (Some m) (EndYield j # k) fm" by (auto simp: inv_in_thread)
  then have j: "j = m" "fb_use fm = 2" "main_ok m (Some m) k (fm\<lparr>fb_use := 1\<rparr>)" by (auto simp: main_ok_def)
  then have "fib_inv E (W (fs[m := Some (fm\<lparr>fb_use := 1\<rparr>)]) n c (Some m) (Some m) hs k l)"
    using inv 2 fm(1) by (auto simp: inv_in_thread live_update)
  then show ?thesis using release_keeps [OF fm(1)] j 2 by simp
next
  case (3 m i)
  from in_fiberE [OF inv [unfolded 3(1,2)] 3(3)] obtain f where f: "at fs i = Some f" "running (count_list hs i) i (EndYield j # k) f" by metis
  then have j: "j = i" "fb_use f = count_list hs i + 2" "running (count_list hs i) i k (f\<lparr>fb_use := fb_use f - 1\<rparr>)"
    by (auto simp: running_def)
  have "main_ok m (Some i) k fm" if "main_ok m (Some i) (EndYield j # k) fm" for fm using that 3(3) by (auto simp: main_ok_def)
  then have "fib_inv E (W (fs[i := Some (f\<lparr>fb_use := fb_use f - 1\<rparr>)]) n c (Some i) (Some m) hs k l)"
    using inv 3 f(1) j(3) by (auto simp: inv_in_fiber live_update)
  then show ?thesis using release_keeps [OF f(1)] j 3 by simp
qed

section \<open>The life of a fiber\<close>

lemma finished_rest:
  assumes "running (count_list hs i) i k f" and "fb_use f = count_list hs i + 1" and "i \<in> set hs"
  shows "at_rest (count_list hs i) i (f\<lparr>fb_cb := None, fb_state := TERM', fb_use := fb_use f - 1, fb_ctx := Some [NeverReach]\<rparr>)"
    and "at_rest (count_list hs i) i (f\<lparr>fb_state := EXCEPT, fb_use := fb_use f - 1, fb_ctx := Some [NeverReach]\<rparr>)"
  using assms(1,2) count_list_pos [OF assms(3)] by (auto simp: at_rest_def running_def flat_cb_def)

text \<open>The callback returns or throws. The fiber survives it exactly when the program still has a pointer to it.\<close>

lemma inv_AfterCb:
  assumes inv: "fib_inv E (W fs n c (Some i) (Some m) hs (AfterCb j # k) l)" and "i \<noteq> m" and "fenv_ok E"
  shows "j = i \<and> (if i \<in> set hs then \<exists>t. MainFunc_return E i (W fs n c (Some i) (Some m) hs k l) = (Inr (), t) \<and> fib_inv E t
     else \<exists>t. MainFunc_return E i (W fs n c (Some i) (Some m) hs k l) = (Inl Indeterminate, t))"
proof -
  from in_fiberE [OF inv assms(2)] obtain fm k' f where fm: "at fs m = Some fm" "fb_ctx fm = Some k'"
    and f: "at fs i = Some f" "running (count_list hs i) i (AfterCb j # k) f" and l: "flog_ok E l" "this_live fs (Some i)" .
  have b: "j = i" "k = []" "fb_use f = count_list hs i + 1" "fb_stack f" using f(2) by (auto simp: running_def)
  show ?thesis
  proof (cases "i \<in> set hs")
    case True
    have "fib_inv E (W (fs[i := Some (f\<lparr>fb_cb := None, fb_state := TERM', fb_use := fb_use f - 1, fb_ctx := Some [NeverReach]\<rparr>)]) n c
        (Some m) (Some m) hs k' l)"
      by (rule inv_suspend [OF inv assms(2) fm f(1) finished_rest(1) [OF f(2) b(3) True]])
    then show ?thesis
      using return_W [OF assms(3) fm(1) f(1) assms(2) fm(2)] b True count_list_pos [OF True] by simp
  next
    case False
    then have "fb_use f = 1" using b(3) by (simp add: count_list_0_iff)
    then show ?thesis using return_destroyed [OF assms(3) f(1) _ b(4) l(2,1)] b False by simp
  qed
qed

lemma inv_catch:
  assumes inv: "fib_inv E (W fs n c (Some i) (Some m) hs k l)" and "i \<noteq> m" and "fenv_ok E"
    and "at fs i = Some f" and "running (count_list hs i) i k f" and "fb_use f = count_list hs i + 1"
  shows "if i \<in> set hs then \<exists>t. MainFunc_catch E i e (W fs n c (Some i) (Some m) hs [] l) = (Inr (), t) \<and> fib_inv E t
     else \<exists>t. MainFunc_catch E i e (W fs n c (Some i) (Some m) hs [] l) = (Inl Indeterminate, t)"
proof -
  from in_fiberE [OF inv assms(2)] obtain fm k' where fm: "at fs m = Some fm" "fb_ctx fm = Some k'"
    and l: "flog_ok E l" "this_live fs (Some i)" by metis
  have b: "fb_stack f" using assms(5) by (auto simp: running_def)
  show ?thesis
  proof (cases "i \<in> set hs")
    case True
    let ?f = "f\<lparr>fb_state := EXCEPT, fb_use := fb_use f - 1, fb_ctx := Some [NeverReach]\<rparr>"
    have "fib_inv E (W (fs[i := Some ?f]) n c (Some m) (Some m) hs k' l)"
      by (rule inv_suspend [OF inv assms(2) fm assms(4) finished_rest(2) [OF assms(5,6) True]])
    moreover have "1 < fb_use f" using assms(6) count_list_pos [OF True] by simp
    from catch_W [OF assms(3) fm(1) assms(4,2) fm(2) this l(2,1), of e n c hs "[]"] obtain l' where
      "MainFunc_catch E i e (W fs n c (Some i) (Some m) hs [] l) = (Inr (), W (fs[i := Some ?f]) n c (Some m) (Some m) hs k' l')"
      "flog_ok E l'" by blast
    ultimately show ?thesis using True by (simp add: inv_in_thread)
  next
    case False
    then have "fb_use f = 1" using assms(6) by (simp add: count_list_0_iff)
    then show ?thesis using catch_destroyed [OF assms(3,4) _ b l(2,1)] False by simp
  qed
qed

lemma throw_body: "body_code i k \<Longrightarrow> throw_exn E e k s = MainFunc_catch E i e (s\<lparr>fw_code := []\<rparr>)"
  by (induction i k rule: body_code.induct) auto

lemma throw_thread: "thread_code k \<Longrightarrow> throw_exn E e k s = (Inl (Throw e), s)"
  by (induction k rule: thread_code.induct) auto

lemma inv_Throw:
  assumes act: "fib_inv E (W fs n c tf tt hs (Act a # k) l)" and "fenv_ok E"
  shows "if tf \<noteq> tt \<and> the tf \<in> set hs then \<exists>t. throw_exn E e k (W fs n c tf tt hs k l) = (Inr (), t) \<and> fib_inv E t
     else \<exists>x t. throw_exn E e k (W fs n c tf tt hs k l) = (Inl x, t)"
  using act
proof (cases rule: inv_cases)
  case 1
  with act show ?thesis by (simp add: inv_no_main throw_thread)
next
  case (2 m)
  with act have "thread_code k" by (auto simp: inv_in_thread main_ok_def)
  with 2 show ?thesis by (simp add: throw_thread)
next
  case (3 m i)
  from in_fiberE [OF act [unfolded 3(1,2)] 3(3)] obtain f where f: "at fs i = Some f"
    "running (count_list hs i) i (Act a # k) f" by metis
  from running_body_Act [OF f(2)] have b: "body_code i k" "fb_use f = count_list hs i + 1" by auto
  from inv_catch [OF act [unfolded 3(1,2)] 3(3) assms(2) f b(2), of e] show ?thesis
    using 3 by (auto simp: throw_body [OF b(1)] split: if_splits)
qed

lemma inv_MainFunc:
  assumes inv: "fib_inv E (W fs n c tf tt hs (MainFunc # k) l)" and "fenv_ok E"
  shows "\<exists>t. MainFunc_call E (W fs n c tf tt hs k l) = (Inr (), t) \<and> fib_inv E t"
  using inv
proof (cases rule: inv_cases)
  case 1
  then show ?thesis using inv by (simp add: inv_no_main)
next
  case (2 m)
  then show ?thesis using inv by (auto simp: inv_in_thread main_ok_def)
next
  case (3 m i)
  note inv' = inv [unfolded 3(1,2)]
  from in_fiberE [OF inv' 3(3)] obtain fm f where fm: "at fs m = Some fm" and f: "at fs i = Some f"
    "running (count_list hs i) i (MainFunc # k) f" by metis
  then have b: "k = []" "fb_use f = count_list hs i" "0 < fb_use f" "flat_cb (fb_cb f)" "fb_stack f" "fb_state f = EXEC"
    by (auto simp: running_def)
  then have h: "i \<in> set hs" using count_list_0_iff [of hs i] by auto
  let ?f = "f\<lparr>fb_use := fb_use f + 1\<rparr>" let ?k = "map Act (the (fb_cb f)) @ [AfterCb i]"
  let ?fs = "fs[i := Some ?f]"
  have inv2: "fib_inv E (W ?fs n c (Some i) (Some m) hs k' l)" if "body_code i k'" for k'
  proof -
    have "running (count_list hs i) i k' ?f" using b that by (auto simp: running_def)
    moreover have "main_ok m (Some i) k' fm" if "main_ok m (Some i) (MainFunc # k) fm" for fm using that 3(3) by (auto simp: main_ok_def)
    ultimately show ?thesis using inv' 3(3) f(1) by (auto simp: inv_in_fiber live_update)
  qed
  show ?thesis
  proof (cases "fb_cb f")
    case None
    have "running (count_list hs i) i [AfterCb i] ?f" using b by (auto simp: running_def)
    from inv_catch [OF inv2 [of "[AfterCb i]"] 3(3) assms(2) _ this, of bad_function_call] h f(1) b
    show ?thesis using None 3 by (simp add: MainFunc_call_def GetThis_Some comp_simps)
  next
    case (Some acts)
    then have "fib_inv E (W ?fs n c (Some i) (Some m) hs ?k l)" using b by (intro inv2) (simp add: body_code_map)
    then show ?thesis using Some 3 f(1) b(1) by (simp add: MainFunc_call_def GetThis_Some comp_simps)
  qed
qed

section \<open>Every step\<close>

text \<open>When the next frame goes through.\<close>

fun frame_ok :: "fiber_world \<Rightarrow> frame \<Rightarrow> bool" where
  "frame_ok s (Act (SwapIn i)) \<longleftrightarrow> i \<in> set (fw_handles s) \<and> t_threadFiber s \<noteq> None"
| "frame_ok s (Act (Reset i cb)) \<longleftrightarrow>
     i \<in> set (fw_handles s) \<and>
     (\<exists>f. fiber_at s i = Some f \<and> (fb_state f = TERM' \<or> fb_state f = EXCEPT \<or> fb_state f = INIT))"
| "frame_ok s (Act (DropHandle i)) \<longleftrightarrow> i \<in> set (fw_handles s)"
| "frame_ok s (Act (ThrowExn e)) \<longleftrightarrow> t_fiber s \<noteq> t_threadFiber s \<and> the (t_fiber s) \<in> set (fw_handles s)"
| "frame_ok s (AfterCb i) \<longleftrightarrow> i \<in> set (fw_handles s)"
| "frame_ok s NeverReach \<longleftrightarrow> False"
| "frame_ok s _ \<longleftrightarrow> True"

lemma step_SwapIn:
  assumes act: "fib_inv E (W fs n c tf tt hs (Act (SwapIn i) # k) l)" and "fenv_ok E"
  shows "if i \<in> set hs \<and> tt \<noteq> None then \<exists>t. exec_action E (SwapIn i) (W fs n c tf tt hs k l) = (Inr (), t) \<and> fib_inv E t
     else \<exists>x t. exec_action E (SwapIn i) (W fs n c tf tt hs k l) = (Inl x, t)"
proof -
  have same: "tf = tt" using inv_pop(2) [OF act] by (auto split: if_splits)
  show ?thesis
  proof (cases "i \<in> set hs")
    case True
    note h = this
    show ?thesis
    proof (cases tt)
      case None
      with same act obtain f where "at fs i = Some f" "fb_state f \<noteq> EXEC"
        using True by (fastforce simp: inv_no_main others_rest_def at_rest_def split: State.splits)
      then show ?thesis using None True swapIn_no_main by (simp add: with_handle_def)
    next
      case (Some m)
      with same act have "fib_inv E (W fs n c (Some m) (Some m) hs k l)" "thread_code k"
        using inv_pop(1) [OF act] by (auto simp: inv_in_thread main_ok_def)
      then show ?thesis using inv_swapIn [OF _ assms(2) True] True Some same by simp
    qed
  qed (simp add: with_handle_def)
qed

lemma step_NeverReach:
  assumes inv: "fib_inv E (W fs n c tf tt hs k l)"
  shows "\<exists>t. exec_frame E NeverReach (W fs n c tf tt hs k' l) = (Inl (Abort ''false''), t)"
  using fiber_assert2_False [of fs tf E l] inv by (fastforce simp: inv_W)

lemma step_AfterCb:
  assumes inv: "fib_inv E (W fs n c tf tt hs (AfterCb j # k) l)" and "fenv_ok E"
  shows "if j \<in> set hs then \<exists>t. MainFunc_return E j (W fs n c tf tt hs k l) = (Inr (), t) \<and> fib_inv E t
     else \<exists>x t. MainFunc_return E j (W fs n c tf tt hs k l) = (Inl x, t)"
  using inv
proof (cases rule: inv_cases)
  case 1
  then show ?thesis using inv by (simp add: inv_no_main)
next
  case (2 m)
  then show ?thesis using inv by (auto simp: inv_in_thread main_ok_def)
next
  case (3 m i)
  then show ?thesis using inv_AfterCb [OF inv [unfolded 3(1,2)] 3(3) assms(2)] by (auto split: if_splits)
qed

lemma step_Reset:
  assumes act: "fib_inv E (W fs n c tf tt hs (Act (Reset i cb) # k) l)" and "fenv_ok E"
  shows "if i \<in> set hs \<and> (\<exists>f. at fs i = Some f \<and> (fb_state f = TERM' \<or> fb_state f = EXCEPT \<or> fb_state f = INIT))
     then \<exists>t. exec_action E (Reset i cb) (W fs n c tf tt hs k l) = (Inr (), t) \<and> fib_inv E t
     else \<exists>x t. exec_action E (Reset i cb) (W fs n c tf tt hs k l) = (Inl x, t)"
proof (cases "i \<in> set hs")
  case True
  have "flat_cb cb" using inv_pop(2) [OF act] by (simp add: thread_action_def split: if_splits)
  moreover obtain f where "at fs i = Some f" using handle_child [OF act True] by metis
  ultimately show ?thesis using inv_Reset [OF inv_pop(1) [OF act] assms(2) _ True] True by fastforce
qed (simp add: with_handle_def)

lemma inv_LogRoot:
  assumes act: "fib_inv E (W fs n c tf tt hs (Act a # k) l)"
  shows "\<exists>t. exec_action E (LogRoot level path line text') (W fs n c tf tt hs k l) = (Inr (), t) \<and> fib_inv E t"
proof -
  have "this_live fs tf" "flog_ok E l" using act by (simp_all add: inv_W)
  from LogRoot_W [OF this, of level path line text' n c tt hs k] inv_log [OF inv_pop(1) [OF act]] show ?thesis by metis
qed

lemma fiber_exec_step:
  assumes inv: "fib_inv E s" and "fenv_ok E" and code: "fw_code s = fr # k"
  shows "if frame_ok s fr then \<exists>t. fiber_exec E s = (Inr (), t) \<and> fib_inv E t else \<exists>x t. fiber_exec E s = (Inl x, t)"
proof -
  obtain fs n c tf tt hs l where s: "s = W fs n c tf tt hs (fr # k) l" using code by (cases s) auto
  note inv' = inv [unfolded s]
  have exec: "fiber_exec E s = exec_frame E fr (W fs n c tf tt hs k l)" by (simp add: fiber_exec_def s)
  show ?thesis
  proof (cases fr)
    case (Act a)
    note act = inv' [unfolded Act]
    have flat: "flat a \<or> (\<exists>i. a = SwapIn i)"
      using inv_pop(2) [OF act] by (cases a) (auto simp: thread_action_def split: if_splits)
    show ?thesis
    proof (cases a)
      case (NewFiber cb stacksize)
      then show ?thesis
        using inv_NewFiber [OF inv_pop(1) [OF act] assms(2)] flat Act unfolding exec by simp
    next
      case (Reset i cb)
      then show ?thesis using step_Reset [OF act [unfolded Reset] assms(2)] Act unfolding exec by (auto simp: s split: if_splits)
    next
      case (SwapIn i)
      then show ?thesis using step_SwapIn [OF act [unfolded SwapIn] assms(2)] Act unfolding exec by (auto simp: s split: if_splits)
    next
      case (DropHandle i)
      then show ?thesis using inv_DropHandle [OF act, of i] Act unfolding exec by (auto simp: s with_handle_def)
    next
      case CallGetThis
      then show ?thesis using inv_GetThis [OF act assms(2)] Act unfolding exec by simp
    next
      case CallYieldToReady
      then show ?thesis using inv_yield [OF act assms(2), of READY] Act unfolding exec by (simp add: Fiber_YieldToReady_def)
    next
      case CallYieldToHold
      then show ?thesis using inv_yield [OF act assms(2), of HOLD] Act unfolding exec by (simp add: Fiber_YieldToHold_def)
    next
      case (ThrowExn e)
      then show ?thesis using inv_Throw [OF act assms(2), of e] Act unfolding exec by (auto simp: s split: if_splits)
    next
      case (LogRoot level path line t)
      then show ?thesis using inv_LogRoot [OF act, of level path line t] Act unfolding exec by (simp del: exec_action.simps)
    qed
  next
    case (EndYield j)
    then show ?thesis using inv_EndYield inv' unfolding exec by simp
  next
    case MainFunc
    then show ?thesis using inv_MainFunc [OF _ assms(2)] inv' unfolding exec by simp
  next
    case (AfterCb j)
    then show ?thesis using step_AfterCb [OF inv' [unfolded AfterCb] assms(2)] unfolding exec by (auto simp: s split: if_splits)
  next
    case NeverReach
    then show ?thesis using step_NeverReach [OF inv', of k] unfolding exec by auto
  qed
qed

section \<open>The transition system\<close>

definition fiber_init :: "fiber_env \<Rightarrow> fiber_world \<Rightarrow> bool" where
  "fiber_init E s \<longleftrightarrow>
     fw_fibers s = [] \<and> s_fiber_id s = 0 \<and> s_fiber_count s = 0 \<and> t_fiber s = None \<and> t_threadFiber s = None \<and>
     fw_handles s = [] \<and> thread_code (fw_code s) \<and> flog_ok E (fw_log s)"

definition fiber_step :: "fiber_env \<Rightarrow> fiber_world \<Rightarrow> fiber_world \<Rightarrow> bool" where
  "fiber_step E s t \<longleftrightarrow> fenv_ok E \<and> fw_code s \<noteq> [] \<and> fiber_exec E s = (Inr (), t)"

lemma fib_inv_init: "fiber_init E s \<Longrightarrow> fib_inv E s"
  by (simp add: fiber_init_def fib_inv_def live_def this_live_def at_def)

lemma fib_inv_step: "fiber_step E s t \<Longrightarrow> fib_inv E s \<Longrightarrow> fib_inv E t"
  using fiber_exec_step [of E s "hd (fw_code s)" "tl (fw_code s)"]
  by (auto simp: fiber_step_def split: if_splits)

interpretation fibers: transition_system "fiber_init E" "fiber_step E" "fib_inv E" for E
  by unfold_locales (auto intro: fib_inv_init fib_inv_step)

text \<open>Steps on explicit states.\<close>

lemma step_W:
  "fenv_ok E \<Longrightarrow> exec_frame E fr (W fs n c tf tt hs k l) = (Inr (), t) \<Longrightarrow> fiber_step E (W fs n c tf tt hs (fr # k) l) t"
  by (simp add: fiber_step_def fiber_exec_def)

lemma fiber_steps3: "fiber_step E a b \<Longrightarrow> fiber_step E b c \<Longrightarrow> fiber_step E c d \<Longrightarrow> (fiber_step E)\<^sup>*\<^sup>* a d"
  by (meson converse_rtranclp_into_rtranclp rtranclp.rtrancl_refl)

lemma fiber_steps1: "fiber_step E a b \<Longrightarrow> (fiber_step E)\<^sup>*\<^sup>* b c \<Longrightarrow> (fiber_step E)\<^sup>*\<^sup>* a c"
  by (rule converse_rtranclp_into_rtranclp)

section \<open>Running a fiber to its end\<close>

text \<open>Callbacks that only yield, log and ask for the current fiber, and how often they yield.\<close>

fun quiet :: "action \<Rightarrow> bool" where
  "quiet CallYieldToReady = True"
| "quiet CallYieldToHold = True"
| "quiet CallGetThis = True"
| "quiet (LogRoot level path line text') = True"
| "quiet _ = False"

fun yields :: "action list \<Rightarrow> nat" where
  "yields [] = 0"
| "yields (CallYieldToReady # acts) = Suc (yields acts)"
| "yields (CallYieldToHold # acts) = Suc (yields acts)"
| "yields (a # acts) = yields acts"

abbreviation resumes :: "addr \<Rightarrow> nat \<Rightarrow> frame list" where
  "resumes i x \<equiv> replicate x (Act (SwapIn i))"

text \<open>A fiber that yields and is resumed by the next action of the thread goes on behind the yield.\<close>

lemma yield_resume:
  assumes E: "fenv_ok E" and fm: "at fs m = Some fm" "fb_ctx fm = Some (Act (SwapIn i) # k')" and f: "at fs i = Some f" "i \<noteq> m"
    and "i \<in> set hs" and "0 < fb_use f" and a: "a = CallYieldToReady \<or> a = CallYieldToHold"
  shows "\<exists>fs' f'. (fiber_step E)\<^sup>*\<^sup>* (W fs n c (Some i) (Some m) hs (Act a # k) l) (W fs' n c (Some i) (Some m) hs k l) \<and>
     at fs' m = Some (fm\<lparr>fb_ctx := Some k'\<rparr>) \<and> at fs' i = Some f' \<and> fb_use f' = fb_use f \<and> fb_cb f' = fb_cb f \<and> (\<forall>j. j \<noteq> i \<longrightarrow> j \<noteq> m \<longrightarrow> at fs' j = at fs j)"
proof -
  obtain st where st: "st = READY \<or> st = HOLD" "exec_frame E (Act a) = yield_as E st"
  proof -
    have "exec_frame E (Act CallYieldToReady) = yield_as E READY" "exec_frame E (Act CallYieldToHold) = yield_as E HOLD"
      by (simp_all add: fun_eq_iff Fiber_YieldToReady_def Fiber_YieldToHold_def)
    with a that show thesis by blast
  qed
  let ?f1 = "f\<lparr>fb_use := fb_use f + 1, fb_state := st, fb_ctx := Some (EndYield i # k)\<rparr>"
  let ?f2 = "?f1\<lparr>fb_state := EXEC\<rparr>" and ?f3 = "f\<lparr>fb_ctx := Some (EndYield i # k), fb_state := EXEC\<rparr>"
  let ?fm = "fm\<lparr>fb_ctx := Some k'\<rparr>"
  let ?fs1 = "fs[i := Some ?f1]" let ?fs2 = "?fs1[i := Some ?f2, m := Some ?fm]"
  have 1: "fiber_step E (W fs n c (Some i) (Some m) hs (Act a # k) l) (W ?fs1 n c (Some m) (Some m) hs (Act (SwapIn i) # k') l)"
    by (rule step_W [OF E]) (simp add: st(2) yield_child [OF E fm(1) f fm(2)])
  have at1: "at ?fs1 m = Some fm" "at ?fs1 i = Some ?f1" using fm(1) f by simp_all
  have "exec_frame E (Act (SwapIn i)) (W ?fs1 n c (Some m) (Some m) hs k' l) =
      (Inr (), W ?fs2 n c (Some i) (Some m) hs (EndYield i # k) l)"
    using swapIn_W [OF E at1 f(2)] st(1) assms(6) by (auto simp: with_handle_def)
  then have 2: "fiber_step E (W ?fs1 n c (Some m) (Some m) hs (Act (SwapIn i) # k') l)
      (W ?fs2 n c (Some i) (Some m) hs (EndYield i # k) l)" by (rule step_W [OF E])
  have at2: "at ?fs2 i = Some ?f2" "at ?fs2 m = Some ?fm" using fm(1) f by simp_all
  have "exec_frame E (EndYield i) (W ?fs2 n c (Some i) (Some m) hs k l) =
      (Inr (), W (?fs2[i := Some ?f3]) n c (Some i) (Some m) hs k l)"
    using release_keeps [OF at2(1)] assms(7) by simp
  then have 3: "fiber_step E (W ?fs2 n c (Some i) (Some m) hs (EndYield i # k) l)
      (W (?fs2[i := Some ?f3]) n c (Some i) (Some m) hs k l)" by (rule step_W [OF E])
  have "(fiber_step E)\<^sup>*\<^sup>* (W fs n c (Some i) (Some m) hs (Act a # k) l) (W (?fs2[i := Some ?f3]) n c (Some i) (Some m) hs k l)"
    by (rule fiber_steps3 [OF 1 2 3])
  moreover have "at (?fs2[i := Some ?f3]) m = Some ?fm" "at (?fs2[i := Some ?f3]) i = Some ?f3" using fm(1) f by simp_all
  moreover have "\<forall>j. j \<noteq> i \<longrightarrow> j \<noteq> m \<longrightarrow> at (?fs2[i := Some ?f3]) j = at fs j" by (simp add: at_update)
  ultimately show ?thesis by (intro exI [of _ "?fs2[i := Some ?f3]"] exI [of _ ?f3]) simp
qed

text \<open>Up to \<open>rest\<close>, the code behind the quiet actions.\<close>

lemma body_runs:
  assumes "fenv_ok E" and "\<forall>a \<in> set acts. quiet a" and "at fs m = Some fm" and "fb_ctx fm = Some (resumes i (yields acts) @ k)"
    and "at fs i = Some f" and "i \<noteq> m" and "i \<in> set hs" and "1 < fb_use f" and "flog_ok E l"
  shows "\<exists>fs' fm' f' l'. (fiber_step E)\<^sup>*\<^sup>* (W fs n c (Some i) (Some m) hs (map Act acts @ rest) l) (W fs' n c (Some i) (Some m) hs rest l') \<and>
     at fs' m = Some fm' \<and> fb_ctx fm' = Some k \<and> at fs' i = Some f' \<and> fb_use f' = fb_use f \<and> fb_cb f' = fb_cb f \<and> flog_ok E l' \<and>
     (\<forall>j. j \<noteq> i \<longrightarrow> j \<noteq> m \<longrightarrow> at fs' j = at fs j)"
  using assms(2-5,8,9)
proof (induction acts arbitrary: fs fm f l)
  case Nil
  then show ?case by (intro exI [of _ fs] exI [of _ fm] exI [of _ f] exI [of _ l]) simp
next
  case (Cons a acts)
  let ?k = "map Act acts @ rest"
  show ?case
  proof (cases "a = CallGetThis")
    case True
    have "fs[i := Some (f\<lparr>fb_use := fb_use f + 1 - 1\<rparr>)] = fs"
      using Cons.prems(4) by (auto simp: at_def list_update_same_conv split: if_splits)
    then have "fiber_step E (W fs n c (Some i) (Some m) hs (Act a # ?k) l) (W fs n c (Some i) (Some m) hs ?k l)"
      using True Cons.prems(4,5) by (intro step_W [OF assms(1)]) (simp add: GetThis_Some comp_simps release_keeps)
    moreover from True Cons.prems have "\<forall>a \<in> set acts. quiet a" "fb_ctx fm = Some (resumes i (yields acts) @ k)" by simp_all
    note Cons.IH [OF this(1) Cons.prems(2) this(2) Cons.prems(4-6)]
    ultimately show ?thesis unfolding list.map append_Cons by (meson fiber_steps1)
  next
    case False
    note noGet = this
    show ?thesis
    proof (cases "\<exists>level path line t. a = LogRoot level path line t")
      case True
      then obtain level path line t where a: "a = LogRoot level path line t" by blast
      have "this_live fs (Some i)" using Cons.prems(4) by (simp add: this_live_def)
      from LogRoot_W [OF this Cons.prems(6), of level path line t n c "Some m" hs ?k] obtain l1 where
        l1: "exec_action E a (W fs n c (Some i) (Some m) hs ?k l) = (Inr (), W fs n c (Some i) (Some m) hs ?k l1)" "flog_ok E l1"
        unfolding a by blast
      then have "fiber_step E (W fs n c (Some i) (Some m) hs (Act a # ?k) l) (W fs n c (Some i) (Some m) hs ?k l1)"
        by (intro step_W [OF assms(1)]) simp
      moreover have "\<forall>a \<in> set acts. quiet a" "fb_ctx fm = Some (resumes i (yields acts) @ k)" using Cons.prems a by simp_all
      note Cons.IH [OF this(1) Cons.prems(2) this(2) Cons.prems(4,5) l1(2)]
      ultimately show ?thesis unfolding list.map append_Cons by (meson fiber_steps1)
    next
      case False
      with noGet have a: "a = CallYieldToReady \<or> a = CallYieldToHold" using Cons.prems(1) by (cases a) auto
      then have ctx: "fb_ctx fm = Some (Act (SwapIn i) # resumes i (yields acts) @ k)" using Cons.prems(3) by auto
      from yield_resume [OF assms(1) Cons.prems(2) ctx Cons.prems(4) assms(6,7) _ a] Cons.prems(5) obtain fs1 f1 where
        1: "(fiber_step E)\<^sup>*\<^sup>* (W fs n c (Some i) (Some m) hs (Act a # ?k) l) (W fs1 n c (Some i) (Some m) hs ?k l)"
        "at fs1 m = Some (fm\<lparr>fb_ctx := Some (resumes i (yields acts) @ k)\<rparr>)" "at fs1 i = Some f1" "fb_use f1 = fb_use f"
        "fb_cb f1 = fb_cb f" "\<forall>j. j \<noteq> i \<longrightarrow> j \<noteq> m \<longrightarrow> at fs1 j = at fs j" by fastforce
      have "\<forall>a \<in> set acts. quiet a" "1 < fb_use f1" using Cons.prems(1,5) 1(4) by simp_all
      from Cons.IH [OF this(1) 1(2) _ 1(3) this(2) Cons.prems(6)] obtain fs2 fm2 f2 l2 where
        2: "(fiber_step E)\<^sup>*\<^sup>* (W fs1 n c (Some i) (Some m) hs ?k l) (W fs2 n c (Some i) (Some m) hs rest l2)"
        "at fs2 m = Some fm2" "fb_ctx fm2 = Some k" "at fs2 i = Some f2" "fb_use f2 = fb_use f1" "fb_cb f2 = fb_cb f1" "flog_ok E l2"
        "\<forall>j. j \<noteq> i \<longrightarrow> j \<noteq> m \<longrightarrow> at fs2 j = at fs1 j" by auto
      have "(fiber_step E)\<^sup>*\<^sup>* (W fs n c (Some i) (Some m) hs (Act a # ?k) l) (W fs2 n c (Some i) (Some m) hs rest l2)"
        using 1(1) 2(1) by (rule rtranclp_trans)
      with 1(4-6) 2 show ?thesis by auto
    qed
  qed
qed

text \<open>The end of the callback, or an exception behind the quiet actions, gives control back to the thread.\<close>

lemma body_completes:
  assumes E: "fenv_ok E" and quiet: "\<forall>a \<in> set acts. quiet a" and fm: "at fs m = Some fm" "fb_ctx fm = Some (resumes i (yields acts) @ k)"
    and f: "at fs i = Some f" and im: "i \<noteq> m" and h: "i \<in> set hs" and use: "1 < fb_use f" and l: "flog_ok E l"
    and tail: "tail = [] \<or> (\<exists>e more. tail = ThrowExn e # more)" and flat: "flat_cb (Some tail)"
  shows "\<exists>fs' f' l'. (fiber_step E)\<^sup>*\<^sup>* (W fs n c (Some i) (Some m) hs (map Act acts @ map Act tail @ [AfterCb i]) l)
       (W fs' n c (Some m) (Some m) hs k l') \<and>
     at fs' i = Some f' \<and> fb_state f' = (if tail = [] then TERM' else EXCEPT) \<and> fb_cb f' = (if tail = [] then None else fb_cb f) \<and>
     (\<forall>j. j \<noteq> i \<longrightarrow> j \<noteq> m \<longrightarrow> at fs' j = at fs j)"
proof -
  let ?rest = "map Act tail @ [AfterCb i]"
  from body_runs [OF E quiet fm f im h use l, of n c ?rest] obtain fs1 fm1 f1 l1 where
    1: "(fiber_step E)\<^sup>*\<^sup>* (W fs n c (Some i) (Some m) hs (map Act acts @ ?rest) l) (W fs1 n c (Some i) (Some m) hs ?rest l1)"
    "at fs1 m = Some fm1" "fb_ctx fm1 = Some k" "at fs1 i = Some f1" "fb_use f1 = fb_use f" "fb_cb f1 = fb_cb f" "flog_ok E l1"
    "\<forall>j. j \<noteq> i \<longrightarrow> j \<noteq> m \<longrightarrow> at fs1 j = at fs j" by blast
  have "\<exists>f' l'. fiber_step E (W fs1 n c (Some i) (Some m) hs ?rest l1) (W (fs1[i := Some f']) n c (Some m) (Some m) hs k l') \<and>
      fb_state f' = (if tail = [] then TERM' else EXCEPT) \<and> fb_cb f' = (if tail = [] then None else fb_cb f)"
    using tail
  proof (elim disjE exE)
    assume t: "tail = []"
    let ?f = "f1\<lparr>fb_cb := None, fb_state := TERM', fb_use := fb_use f1 - 1, fb_ctx := Some [NeverReach]\<rparr>"
    have "fiber_step E (W fs1 n c (Some i) (Some m) hs ?rest l1) (W (fs1[i := Some ?f]) n c (Some m) (Some m) hs k l1)"
      unfolding t by simp (rule step_W [OF E], use return_W [OF E 1(2,4) im] 1(3,5) use in simp)
    then show ?thesis using t by (intro exI [of _ ?f] exI [of _ l1]) simp
  next
    fix e more assume t: "tail = ThrowExn e # more"
    let ?f = "f1\<lparr>fb_state := EXCEPT, fb_use := fb_use f1 - 1, fb_ctx := Some [NeverReach]\<rparr>"
    have "body_code i (map Act more @ [AfterCb i])" using flat t by (intro body_code_map) (simp add: flat_cb_def)
    note throw = throw_body [OF this]
    have "this_live fs1 (Some i)" using 1(4) by (simp add: this_live_def)
    with catch_W [OF E 1(2,4) im 1(3) _ _ 1(7), of "Some i" e n c hs "[]"] 1(5) use obtain l2 where
      "MainFunc_catch E i e (W fs1 n c (Some i) (Some m) hs [] l1) = (Inr (), W (fs1[i := Some ?f]) n c (Some m) (Some m) hs k l2)" by auto
    then have "fiber_step E (W fs1 n c (Some i) (Some m) hs ?rest l1) (W (fs1[i := Some ?f]) n c (Some m) (Some m) hs k l2)"
      unfolding t by simp (rule step_W [OF E], simp add: throw)
    then show ?thesis using t 1(6) by (intro exI [of _ ?f] exI [of _ l2]) simp
  qed
  then obtain f' l' where
    2: "fiber_step E (W fs1 n c (Some i) (Some m) hs ?rest l1) (W (fs1[i := Some f']) n c (Some m) (Some m) hs k l')"
    "fb_state f' = (if tail = [] then TERM' else EXCEPT)" "fb_cb f' = (if tail = [] then None else fb_cb f)" by blast
  have "at (fs1[i := Some f']) i = Some f'" "\<forall>j. j \<noteq> i \<longrightarrow> j \<noteq> m \<longrightarrow> at (fs1[i := Some f']) j = at fs j"
    using 1(4,8) at_length [OF 1(4)] by (simp_all add: at_update)
  with rtranclp.rtrancl_into_rtrancl [OF 1(1) 2(1)] 2(2,3) show ?thesis by blast
qed

end
