(* ===== verification/FiberParked.thy ===== *)
theory FiberParked
  imports FiberInv
begin

text \<open>
  The main fiber after the thread itself has yielded: nothing sets its state back to \<open>EXEC\<close> any more, because the program has no
  pointer to resume it with.
\<close>

section \<open>Operations that keep it so\<close>

definition parked :: "addr \<Rightarrow> fiber_world \<Rightarrow> bool" where
  "parked m s \<longleftrightarrow> (\<exists>f. at (fw_fibers s) m = Some f \<and> \<not> fb_stack f \<and> fb_state f \<noteq> EXEC)"

definition parks :: "addr \<Rightarrow> 'a fibc \<Rightarrow> bool" where
  "parks m c \<longleftrightarrow> (\<forall>s. parked m s \<longrightarrow> parked m (snd (c s)))"

named_theorems parks_intro \<open>operations that leave a main fiber outside the state \<open>EXEC\<close>\<close>

lemma parksD: "parks m c \<Longrightarrow> parked m s \<Longrightarrow> parked m (snd (c s))"
  by (simp add: parks_def)

lemma parks_bindc [parks_intro]:
  assumes "parks m c" and "\<And>a. parks m (f a)"
  shows "parks m (bindc c f)"
  unfolding parks_def
proof (intro allI impI)
  fix s assume "parked m s"
  moreover obtain r t where "c s = (r, t)" by fastforce
  ultimately show "parked m (snd (bindc c f s))"
    using parksD [OF assms(1), of s] parksD [OF assms(2)] by (cases r) (simp_all add: bindc_def)
qed

lemma parks_if [parks_intro]: "(b \<Longrightarrow> parks m x) \<Longrightarrow> (\<not> b \<Longrightarrow> parks m y) \<Longrightarrow> parks m (if b then x else y)"
  by simp

lemma parks_option [parks_intro]:
  "(x = None \<Longrightarrow> parks m a) \<Longrightarrow> (\<And>y. x = Some y \<Longrightarrow> parks m (b y)) \<Longrightarrow> parks m (case x of None \<Rightarrow> a | Some y \<Rightarrow> b y)"
  by (cases x) simp_all

lemma parks_basic [parks_intro]: "parks m (ret a)" "parks m (raise e)" "parks m (get_fiber i)"
  by (simp_all add: parks_def comp_simps get_fiber_def split: option.splits)

text \<open>The fibers stay, or one is added.\<close>

lemma parks_modify [parks_intro]: "(\<And>s. fw_fibers (g s) = fw_fibers s) \<Longrightarrow> parks m (modify g)"
  by (simp add: parks_def comp_simps parked_def)

lemma parks_append: "(\<And>s. fw_fibers (g s) = fw_fibers s @ [x s]) \<Longrightarrow> parks m (modify g)"
  by (auto simp: parks_def comp_simps parked_def at_def nth_append split: if_splits)

lemma parks_update:
  assumes "i \<noteq> m \<or> (\<forall>f. fb_stack (g f) = fb_stack f \<and> (fb_state f \<noteq> EXEC \<longrightarrow> fb_state (g f) \<noteq> EXEC))"
  shows "parks m (update_fiber i g)"
  unfolding parks_def
proof (intro allI impI)
  fix s assume p: "parked m s"
  show "parked m (snd (update_fiber i g s))"
  proof (cases "fiber_at s i")
    case None
    with p show ?thesis by (simp add: update_fiber_def get_fiber_def bindc_def)
  next
    case (Some f)
    then have "update_fiber i g s = (Inr (), s\<lparr>fw_fibers := (fw_fibers s)[i := Some (g f)]\<rparr>)"
      by (simp add: update_fiber_def get_fiber_def bindc_def modify_apply put_fiber_def)
    with p assms Some show ?thesis
      by (cases "i = m") (auto simp: parked_def at_def fiber_at_def split: if_splits)
  qed
qed

lemma GetFiberID_same: "snd (GetFiberID s) = s"
  by (auto simp: GetFiberID_def Fiber_GetFiberID_def get_fiber_def bindc_def ret_apply split: option.split)

lemma parks_with_log [parks_intro]: "parks m (with_log c)"
proof -
  have "parks m GetFiberID" by (simp add: parks_def GetFiberID_same)
  then show ?thesis
    unfolding with_log_def
    by (rule parks_bindc) (auto simp: parks_def parked_def split: prod.splits)
qed

lemma parks_log [parks_intro]:
  "parks m (fiber_log E level line msg)" "parks m (fiber_assert E line b x)" "parks m (fiber_assert2 E line b w)"
  unfolding fiber_log_def fiber_assert_def fiber_assert2_def by (intro parks_intro)+

section \<open>The destructor\<close>

text \<open>Operations that never return.\<close>

definition fails :: "('s, 'a) comp \<Rightarrow> bool" where
  "fails c \<longleftrightarrow> (\<forall>s. \<exists>e t. c s = (Inl e, t))"

lemma fails_bindc: "(\<And>a. fails (f a)) \<Longrightarrow> fails (bindc c f)"
proof -
  assume f: "\<And>a. fails (f a)"
  have "\<exists>e t. bindc c f s = (Inl e, t)" for s
  proof (cases "c s")
    case (Pair r t)
    with f show ?thesis by (cases r) (simp_all add: bindc_def fails_def)
  qed
  then show "fails (bindc c f)" by (simp add: fails_def)
qed

lemma fails_part: "fails c \<Longrightarrow> fails (\<lambda>s. case c (h s) of (r, l) \<Rightarrow> (r, k l s))"
  unfolding fails_def by (metis (mono_tags, lifting) case_prod_conv)

lemma fails_assert: "fails (fiber_assert E line False x)"
proof -
  have "fails (assertion_failed symbols g path line x w)" for symbols g path line w
    unfolding assertion_failed_def by (intro fails_bindc) (simp add: fails_def raise_apply)
  then have m: "fails (SYLAR_ASSERT symbols g path line False x)" for symbols g path line
    by (simp add: SYLAR_ASSERT_def [abs_def])
  show ?thesis
    unfolding fiber_assert_def with_log_def if_False by (intro fails_bindc fails_part m)
qed

lemma parks_dtor: "parks m (Fiber_dtor E i)"
proof (cases "i = m")
  case False
  have put: "parks m (modify (put_fiber i None))"
    using False by (auto simp: parks_def comp_simps parked_def put_fiber_def at_def split: if_splits)
  have unset: "parks m (\<lambda>s. if t_fiber s = Some i then Fiber_SetThis None s else (Inr (), s))"
    by (auto simp: parks_def Fiber_SetThis_def comp_simps parked_def)
  show ?thesis unfolding Fiber_dtor_def by (rule put unset parks_intro | simp)+
next
  case True
  show ?thesis
    unfolding parks_def
  proof (intro allI impI)
    fix s assume p: "parked m s"
    then obtain f where f: "fiber_at s m = Some f" "\<not> fb_stack f" "fb_state f \<noteq> EXEC" by (auto simp: parked_def at_def fiber_at_def)
    let ?s1 = "s\<lparr>s_fiber_count := s_fiber_count s - 1\<rparr>"
    let ?c = "bindc (fiber_assert E 83 (fb_cb f = None) ''!m_cb'') (\<lambda>_. bindc (fiber_assert E 84 False ''m_state == EXEC'') (\<lambda>_ s.
                if t_fiber s = Some m then Fiber_SetThis None s else (Inr (), s)))"
    have "fails (bindc (fiber_assert E 84 False ''m_state == EXEC'') h)" for h
      using fails_assert [of E 84 "''m_state == EXEC''"] unfolding fails_def by (metis bindc_Inl)
    then have "fails ?c" by (rule fails_bindc)
    then obtain e t where c: "?c ?s1 = (Inl e, t)" unfolding fails_def by blast
    have "parks m (fiber_assert E 84 False ''m_state == EXEC'')" "parks m (fiber_assert E 83 (fb_cb f = None) ''!m_cb'')"
      by (intro parks_intro)+
    moreover have "parks m (\<lambda>s. if t_fiber s = Some m then Fiber_SetThis None s else (Inr (), s))"
      by (auto simp: parks_def Fiber_SetThis_def comp_simps parked_def)
    ultimately have "parks m ?c" by (intro parks_bindc)
    moreover have "parked m ?s1" using p by (simp add: parked_def)
    ultimately have "parked m (snd (?c ?s1))" by (rule parksD)
    moreover have "Fiber_dtor E m s = (Inl e, t)"
      using f c by (simp add: Fiber_dtor_def bindc_def [of "get_fiber m"] get_fiber_def bindc_def [of "modify _"] modify_apply bindc_Inl)
    ultimately show "parked m (snd (Fiber_dtor E i s))" using True c by simp
  qed
qed

section \<open>The operations of the class\<close>

lemma parks_share [parks_intro]: "parks m (share i)"
  unfolding share_def by (rule parks_update) simp

lemma parks_release [parks_intro]: "parks m (release E i)"
  unfolding release_def by (intro parks_intro parks_update parks_dtor) simp

lemma parks_SetThis [parks_intro]: "parks m (Fiber_SetThis x)"
  unfolding Fiber_SetThis_def by (intro parks_intro) simp

text \<open>Operations that look at the state first.\<close>

lemma parks_look:
  assumes "\<And>s. parks m (c s)" and "\<And>s. d s = c s s"
  shows "parks m d"
  using assms by (simp add: parks_def)

lemma parks_set_threadFiber: "parks m (set_threadFiber E p)"
  by (rule parks_look [where c = "\<lambda>s. bindc (case p of None \<Rightarrow> ret () | Some i \<Rightarrow> share i) (\<lambda>_.
        bindc (modify (\<lambda>s. s\<lparr>t_threadFiber := p\<rparr>)) (\<lambda>_. case t_threadFiber s of None \<Rightarrow> ret () | Some i \<Rightarrow> release E i))"])
    ((rule parks_intro | simp)+, simp add: set_threadFiber_def)

lemma parks_new_main: "parks m (Fiber_new_main E)"
proof -
  have add: "parks m (modify (\<lambda>s. s\<lparr>fw_fibers := fw_fibers s @ [Some f]\<rparr>))" for f
    by (rule parks_append [of _ "\<lambda>s. Some f"]) simp
  show ?thesis
    by (rule parks_look [where c = "\<lambda>s. let i = length (fw_fibers s);
          f = \<lparr>fb_id = 0, fb_stacksize = 0, fb_state = EXEC, fb_ctx = None, fb_stack = False, fb_cb = None, fb_use = 0\<rparr>
      in bindc (modify (\<lambda>s. s\<lparr>fw_fibers := fw_fibers s @ [Some f]\<rparr>)) (\<lambda>_.
         bindc (Fiber_SetThis (Some i)) (\<lambda>_.
         bindc (fiber_assert2 E 47 (\<not> fe_getcontext_fails E) ''getcontext'') (\<lambda>_.
         bindc (modify (\<lambda>s. s\<lparr>s_fiber_count := s_fiber_count s + 1\<rparr>)) (\<lambda>_.
         bindc (fiber_log E DEBUG 51 ''Fiber::Fiber'') (\<lambda>_.
         ret i)))))"])
      (unfold Let_def, (rule add parks_intro | simp)+, simp add: Fiber_new_main_def Let_def)
qed

lemma parks_new: "parks m (Fiber_new E cb stacksize)"
proof -
  have add: "parks m (modify (\<lambda>s. s\<lparr>s_fiber_id := fid, s_fiber_count := s_fiber_count s + 1, fw_fibers := fw_fibers s @ [Some f]\<rparr>))" for f fid
    by (rule parks_append [of _ "\<lambda>s. Some f"]) simp
  have ctx: "parks m (update_fiber i (\<lambda>f. f\<lparr>fb_ctx := Some [MainFunc]\<rparr>))" for i by (rule parks_update) simp
  show ?thesis
    by (rule parks_look [where c = "\<lambda>s. let i = length (fw_fibers s);
          fid = s_fiber_id s + 1;
          sz = (if stacksize \<noteq> 0 then ucast stacksize else g_fiber_stack_size E);
          f = \<lparr>fb_id = fid, fb_stacksize = sz, fb_state = INIT, fb_ctx = None, fb_stack = fe_malloc E sz, fb_cb = cb, fb_use = 0\<rparr>
      in bindc (modify (\<lambda>s. s\<lparr>s_fiber_id := fid, s_fiber_count := s_fiber_count s + 1, fw_fibers := fw_fibers s @ [Some f]\<rparr>)) (\<lambda>_.
         bindc (fiber_assert2 E 64 (\<not> fe_getcontext_fails E) ''getcontext'') (\<lambda>_.
         bindc (update_fiber i (\<lambda>f. f\<lparr>fb_ctx := Some [MainFunc]\<rparr>)) (\<lambda>_.
         bindc (fiber_log E DEBUG 72 (''Fiber::Fiber id='' @ show_nat (unat fid))) (\<lambda>_.
         ret i))))"])
      (unfold Let_def, (rule add ctx parks_intro | simp)+, simp add: Fiber_new_def Let_def)
qed

lemma parks_GetThis [parks_intro]: "parks m (Fiber_GetThis E)"
proof -
  have last: "parks m (\<lambda>s. case t_fiber s of
            None \<Rightarrow> (Inl NullDeref, s)
          | Some i \<Rightarrow> bindc (share i) (\<lambda>_. bindc (release E x) (\<lambda>_. ret i)) s)" for x
    by (rule parks_look [where c = "\<lambda>s. case t_fiber s of None \<Rightarrow> raise NullDeref | Some i \<Rightarrow> bindc (share i) (\<lambda>_. bindc (release E x) (\<lambda>_. ret i))"])
      (auto simp: comp_simps intro: parks_intro split: option.split)
  have check: "parks m (\<lambda>s. fiber_assert E 140 (t_fiber s = Some x) msg s)" for x msg
    by (rule parks_look [where c = "\<lambda>s. fiber_assert E 140 (t_fiber s = Some x) msg"]) (simp_all add: parks_log)
  show ?thesis
    by (rule parks_look [where c = "\<lambda>s. case t_fiber s of Some i \<Rightarrow> bindc (share i) (\<lambda>_. ret i)
          | None \<Rightarrow> bindc (Fiber_new_main E) (\<lambda>main_fiber. bindc (share main_fiber) (\<lambda>_.
              bindc (\<lambda>s. fiber_assert E 140 (t_fiber s = Some main_fiber) ''t_fiber == main_fiber.get()'' s) (\<lambda>_.
              bindc (set_threadFiber E (Some main_fiber)) (\<lambda>_ s.
              case t_fiber s of
                None \<Rightarrow> (Inl NullDeref, s)
              | Some i \<Rightarrow> bindc (share i) (\<lambda>_. bindc (release E main_fiber) (\<lambda>_. ret i)) s))))"])
      (auto simp: Fiber_GetThis_def intro!: parks_intro parks_new_main parks_set_threadFiber last check split: option.split)
qed

lemma parks_swapcontext [parks_intro]: "parks m (swapcontext E o_ctx n_ctx)"
proof -
  have save: "parks m (\<lambda>s. update_fiber o_ctx (\<lambda>f. f\<lparr>fb_ctx := Some (fw_code s)\<rparr>) s)"
    by (rule parks_look [where c = "\<lambda>s. update_fiber o_ctx (\<lambda>f. f\<lparr>fb_ctx := Some (fw_code s)\<rparr>)"]) (simp_all add: parks_update)
  show ?thesis unfolding swapcontext_def by (rule save parks_intro | simp)+
qed

lemma parks_swapOut [parks_intro]: "parks m (Fiber_swapOut E i)"
proof -
  have main: "parks m (\<lambda>s. case t_threadFiber s of
       None \<Rightarrow> (Inl NullDeref, s)
     | Some x \<Rightarrow> bindc (swapcontext E i x) (\<lambda>rt. fiber_assert2 E 131 (\<not> rt) ''swapcontext'') s)"
    by (rule parks_look [where c = "\<lambda>s. case t_threadFiber s of None \<Rightarrow> raise NullDeref
        | Some x \<Rightarrow> bindc (swapcontext E i x) (\<lambda>rt. fiber_assert2 E 131 (\<not> rt) ''swapcontext'')"])
      ((rule parks_intro)+, simp add: raise_apply split: option.split)
  show ?thesis
    by (rule parks_look [where c = "\<lambda>s. bindc (Fiber_SetThis (t_threadFiber s)) (\<lambda>_ s. case t_threadFiber s of
       None \<Rightarrow> (Inl NullDeref, s)
     | Some x \<Rightarrow> bindc (swapcontext E i x) (\<lambda>rt. fiber_assert2 E 131 (\<not> rt) ''swapcontext'') s)"])
      ((rule main parks_intro)+, simp add: Fiber_swapOut_def)
qed

text \<open>Resuming another fiber.\<close>

lemma parks_swapIn: "i \<noteq> m \<Longrightarrow> parks m (Fiber_swapIn E i)"
proof -
  assume i: "i \<noteq> m"
  have set: "parks m (update_fiber i (\<lambda>f. f\<lparr>fb_state := EXEC\<rparr>))" using i by (intro parks_update) simp
  have main: "parks m (\<lambda>s. case t_threadFiber s of
       None \<Rightarrow> (Inl NullDeref, s)
     | Some x \<Rightarrow> bindc (swapcontext E x i) (\<lambda>rt. fiber_assert2 E 121 (\<not> rt) ''swapcontext'') s)"
    by (rule parks_look [where c = "\<lambda>s. case t_threadFiber s of None \<Rightarrow> raise NullDeref
        | Some x \<Rightarrow> bindc (swapcontext E x i) (\<lambda>rt. fiber_assert2 E 121 (\<not> rt) ''swapcontext'')"])
      ((rule parks_intro)+, simp add: raise_apply split: option.split)
  show ?thesis unfolding Fiber_swapIn_def by (rule set main parks_intro)+
qed

lemma parks_yield [parks_intro]: "st \<noteq> EXEC \<Longrightarrow> parks m (yield_as E st)"
  unfolding yield_as_def by (rule parks_intro parks_update | simp)+

lemma parks_reset [parks_intro]: "parks m (Fiber_reset E i cb)"
  unfolding Fiber_reset_def by (rule parks_intro parks_update | simp)+

lemma parks_leave [parks_intro]: "parks m (MainFunc_leave E i)"
  unfolding MainFunc_leave_def by (rule parks_intro | simp)+

lemma parks_catch [parks_intro]: "parks m (MainFunc_catch E i e)"
  unfolding MainFunc_catch_def by (rule parks_intro parks_update | simp)+

lemma parks_call [parks_intro]: "parks m (MainFunc_call E)"
  unfolding MainFunc_call_def by (rule parks_intro parks_update | simp)+

lemma parks_return [parks_intro]: "parks m (MainFunc_return E i)"
  unfolding MainFunc_return_def by (rule parks_intro parks_update | simp)+

lemma parked_code [simp]: "parked m (s\<lparr>fw_code := k\<rparr>) = parked m s"
  by (simp add: parked_def)

lemma parked_throw: "parked m s \<Longrightarrow> parked m (snd (throw_exn E e k s))"
  by (induction E e k s rule: throw_exn.induct) (simp_all add: parksD [OF parks_catch])

lemma parked_handle: "parks m c \<Longrightarrow> parked m s \<Longrightarrow> parked m (snd (with_handle i c s))"
  by (simp add: with_handle_def parksD)

section \<open>Every step\<close>

lemma parked_action:
  assumes p: "parked m s" and h: "m \<notin> set (fw_handles s)"
  shows "parked m (snd (exec_action E a s))"
proof (cases a)
  case (NewFiber cb stacksize)
  have "parks m (bindc (Fiber_new E cb stacksize) (\<lambda>i. bindc (share i) (\<lambda>_. modify (\<lambda>s. s\<lparr>fw_handles := i # fw_handles s\<rparr>))))"
    by (rule parks_new parks_intro | simp)+
  with p NewFiber show ?thesis by (simp add: parksD)
next
  case (SwapIn i)
  with p h show ?thesis by (cases "i = m") (simp_all add: with_handle_def parksD [OF parks_swapIn])
next
  case (DropHandle i)
  have "parks m (bindc (modify (\<lambda>s. s\<lparr>fw_handles := remove1 i (fw_handles s)\<rparr>)) (\<lambda>_. release E i))"
    by (rule parks_intro | simp)+
  with p DropHandle show ?thesis by (simp add: parked_handle)
next
  case CallGetThis
  have "parks m (bindc (Fiber_GetThis E) (\<lambda>i. release E i))" by (rule parks_intro)+
  with p CallGetThis show ?thesis by (simp add: parksD)
next
  case (Reset i cb)
  with p show ?thesis by (simp add: parked_handle parks_reset)
next
  case CallYieldToReady
  with p show ?thesis by (simp add: Fiber_YieldToReady_def parksD [OF parks_yield])
next
  case CallYieldToHold
  with p show ?thesis by (simp add: Fiber_YieldToHold_def parksD [OF parks_yield])
next
  case (ThrowExn e)
  with p show ?thesis by (simp add: parked_throw)
next
  case (LogRoot level path line msg)
  with p show ?thesis by (simp add: parksD [OF parks_with_log])
qed

lemma parked_frame:
  assumes "parked m s" and "m \<notin> set (fw_handles s)"
  shows "parked m (snd (exec_frame E fr s))"
  using assms parked_action [OF assms]
  by (cases fr) (simp_all add: parksD [OF parks_release] parksD [OF parks_call] parksD [OF parks_return] parksD [OF parks_log(3)])

text \<open>Such a fiber is the main fiber of the thread, to which the program has no pointer.\<close>

lemma parked_main:
  assumes "fib_inv E s" and "parked m s"
  shows "t_threadFiber s = Some m" and "m \<notin> set (fw_handles s)"
proof -
  from assms(2) obtain f where f: "at (fw_fibers s) m = Some f" "\<not> fb_stack f" by (auto simp: parked_def)
  then have "fib_ok (t_fiber s) (t_threadFiber s) (fw_handles s) (fw_code s) m f" using assms(1) by (simp add: fib_inv_def)
  with f(2) show "t_threadFiber s = Some m" by (auto simp: fib_ok_def running_def at_rest_def split: if_splits)
  then show "m \<notin> set (fw_handles s)" using assms(1) by (auto simp: fib_inv_def)
qed

lemma parked_step: "fiber_step E s t \<Longrightarrow> fib_inv E s \<Longrightarrow> parked m s \<Longrightarrow> parked m t"
proof -
  assume step: "fiber_step E s t" and inv: "fib_inv E s" and p: "parked m s"
  obtain fr k where code: "fw_code s = fr # k" using step by (cases "fw_code s") (auto simp: fiber_step_def)
  have "parked m (s\<lparr>fw_code := k\<rparr>)" "m \<notin> set (fw_handles (s\<lparr>fw_code := k\<rparr>))"
    using p parked_main(2) [OF inv p] by (simp_all add: parked_def)
  then have "parked m (snd (exec_frame E fr (s\<lparr>fw_code := k\<rparr>)))" by (rule parked_frame)
  moreover have "exec_frame E fr (s\<lparr>fw_code := k\<rparr>) = (Inr (), t)" using step code by (simp add: fiber_step_def fiber_exec_def)
  ultimately show "parked m t" by simp
qed

lemma parked_steps: "(fiber_step E)\<^sup>*\<^sup>* s t \<Longrightarrow> fib_inv E s \<Longrightarrow> parked m s \<Longrightarrow> parked m t"
proof (induction rule: rtranclp_induct)
  case (step y z)
  then show ?case using parked_step [OF step.hyps(2)] fibers.steps_inv [OF step.hyps(1)] by blast
qed

text \<open>A yield of the thread itself, with its main fiber or without one yet.\<close>

lemma yield_parks:
  assumes step: "fiber_step E s t" and inv: "fib_inv E s" and same: "t_fiber s = t_threadFiber s"
    and code: "fw_code s = Act CallYieldToReady # k \<or> fw_code s = Act CallYieldToHold # k"
  shows "\<exists>m. parked m t"
proof -
  have E: "fenv_ok E" using step by (simp add: fiber_step_def)
  obtain fs n c tt hs l where w: "s\<lparr>fw_code := k\<rparr> = W fs n c tt tt hs k l" "fw_fibers s = fs" "fw_log s = l" "t_threadFiber s = tt"
    using same by (cases s) simp
  obtain st where st: "st = READY \<or> st = HOLD" "yield_as E st (W fs n c tt tt hs k l) = (Inr (), t)"
  proof (cases "fw_code s = Act CallYieldToReady # k")
    case True
    with step w(1) show thesis using that [of READY] by (simp add: fiber_step_def fiber_exec_def Fiber_YieldToReady_def)
  next
    case False
    with code step w(1) show thesis using that [of HOLD] by (simp add: fiber_step_def fiber_exec_def Fiber_YieldToHold_def)
  qed
  show ?thesis
  proof (cases tt)
    case None
    have "flog_ok E l" using inv w(3) by (simp add: fib_inv_def)
    from yield_first [OF E this, of st fs n c hs k] st(2) None have
      "at (fw_fibers t) (length fs) = Some (main_fiber 2\<lparr>fb_state := st, fb_ctx := Some (EndYield (length fs) # k)\<rparr>)" by auto
    then show ?thesis using st(1) by (intro exI [of _ "length fs"]) (auto simp: parked_def main_fiber_def)
  next
    case (Some m)
    have "this_live fs tt" using inv w(2,4) by (simp add: fib_inv_def)
    then obtain fm where fm: "at fs m = Some fm" using Some by (auto simp: this_live_def)
    then have "fib_ok (t_fiber s) (t_threadFiber s) (fw_handles s) (fw_code s) m fm" using inv w(2) by (simp add: fib_inv_def)
    then have "\<not> fb_stack fm" using w(4) Some by (simp add: fib_ok_def main_ok_def)
    moreover have "t = W (fs[m := Some (fm\<lparr>fb_use := fb_use fm + 1, fb_state := st, fb_ctx := Some (EndYield m # k)\<rparr>)]) n c
        (Some m) (Some m) hs (EndYield m # k) l"
      using yield_main [OF E fm, of st n c hs k l] st(2) Some by simp
    ultimately show ?thesis using fm st(1) at_length [OF fm] by (intro exI [of _ m]) (auto simp: parked_def)
  qed
qed

end
