(* ===== verification/FiberProperties.thy ===== *)
theory FiberProperties
  imports FiberParked LogProperties
begin

text \<open>
  What fibers promise: the invariant of every execution, which steps go through, that dropping a fiber
  is safe, that executions end and fibers run to completion, and the three ways to misuse the class that its
  assertions catch only at run time.
\<close>

section \<open>A concrete thread\<close>

definition demo_env :: fiber_env where
  "demo_env =
     \<lparr>fe_logger = 0, fe_symbols = (\<lambda>n. None), fe_what = (\<lambda>e. ''what''), g_fiber_stack_size = 1048576, fe_malloc = (\<lambda>n. True),
      fe_getcontext_fails = False, fe_swapcontext_fails = False\<rparr>"

definition demo_start :: "action list \<Rightarrow> fiber_world" where
  "demo_start acts =
     \<lparr>fw_fibers = [], s_fiber_id = 0, s_fiber_count = 0, t_fiber = None, t_threadFiber = None, fw_handles = [],
      fw_code = map Act acts, fw_log = start_world\<rparr>"

lemma demo_env_ok: "fenv_ok demo_env"
  by (simp add: fenv_ok_def demo_env_def)

lemma start_world_flog: "flog_ok demo_env start_world"
  using logging.reach_inv [OF start_world_reachable]
  by (simp add: flog_ok_def log_ok_def dates_ok_def demo_env_def logger_at_def)

lemma demo_reachable:
  "\<forall>a \<in> set acts. thread_action a \<Longrightarrow> reachable (fiber_init demo_env) (fiber_step demo_env) (demo_start acts)"
  by (rule reach_init) (simp add: fiber_init_def demo_start_def start_world_flog)

text \<open>The thread has its main fiber and one fiber with a callback, and goes on with more code.\<close>

lemma demo_fiber_reachable:
  assumes "flat_cb cb" and "thread_code k"
  shows "\<exists>l. flog_ok demo_env l \<and>
     reachable (fiber_init demo_env) (fiber_step demo_env)
       (W [Some (main_fiber 1), Some (fresh_fiber demo_env 1 cb 0 1)] 1 2 (Some 0) (Some 0) [1] k l)"
proof -
  let ?r = "reachable (fiber_init demo_env) (fiber_step demo_env)"
  let ?s0 = "W [] 0 0 None None [] (Act CallGetThis # Act (NewFiber cb 0) # k) start_world"
  have 0: "?r ?s0"
    by (rule reach_init) (use assms in \<open>simp add: fiber_init_def start_world_flog thread_action_def\<close>)
  from GetThis_None [OF demo_env_ok start_world_flog, of "[]" 0 0 "[]" "Act (NewFiber cb 0) # k"] obtain l1 where
    l1: "Fiber_GetThis demo_env (W [] 0 0 None None [] (Act (NewFiber cb 0) # k) start_world) =
      (Inr 0, W [Some (main_fiber 2)] 0 1 (Some 0) (Some 0) [] (Act (NewFiber cb 0) # k) l1)" "flog_ok demo_env l1" by auto
  then have "exec_frame demo_env (Act CallGetThis) (W [] 0 0 None None [] (Act (NewFiber cb 0) # k) start_world) =
      (Inr (), W [Some (main_fiber 1)] 0 1 (Some 0) (Some 0) [] (Act (NewFiber cb 0) # k) l1)"
    by (simp add: comp_simps release_def main_fiber_def at_def)
  from reach_step [OF 0 step_W [OF demo_env_ok this]]
  have 1: "?r (W [Some (main_fiber 1)] 0 1 (Some 0) (Some 0) [] (Act (NewFiber cb 0) # k) l1)" .
  have "this_live [Some (main_fiber 1)] (Some 0)" by (simp add: this_live_def at_def)
  from NewFiber_W [OF demo_env_ok l1(2) this, of cb 0 0 1 "Some 0" "[]" k] obtain l2 where
    l2: "exec_frame demo_env (Act (NewFiber cb 0)) (W [Some (main_fiber 1)] 0 1 (Some 0) (Some 0) [] k l1) =
      (Inr (), W [Some (main_fiber 1), Some (fresh_fiber demo_env 1 cb 0 1)] 1 2 (Some 0) (Some 0) [1] k l2)" "flog_ok demo_env l2"
    by auto
  from reach_step [OF 1 step_W [OF demo_env_ok l2(1)]] l2(2) show ?thesis by blast
qed

lemma at_demo: "at [x, y] 1 = y" "at [x, y] (Suc 0) = y" "at [x, y] 0 = x"
  by (simp_all add: at_def)

section \<open>The invariant\<close>




section \<open>Which steps go through\<close>



section \<open>Destruction\<close>

lemma drop_result:
  assumes act: "fib_inv E (W fs n c tf tt hs (Act (DropHandle i) # k) l)" and h: "i \<in> set hs" and f: "at fs i = Some f"
  shows "\<exists>t. exec_action E (DropHandle i) (W fs n c tf tt hs k l) = (Inr (), t) \<and> (fiber_at t i = None \<longleftrightarrow> fb_use f = 1)"
proof -
  obtain t where t: "exec_action E (DropHandle i) (W fs n c tf tt hs k l) = (Inr (), t)" using inv_DropHandle [OF act h] by blast
  then have r: "release E i (W fs n c tf tt (remove1 i hs) k l) = (Inr (), t)" using h by (simp add: with_handle_def comp_simps)
  have l: "flog_ok E l" "this_live fs tf" using act by (simp_all add: inv_W)
  have st: "fb_stack f" "if tf = Some i then running (count_list hs i) i (Act (DropHandle i) # k) f else at_rest (count_list hs i) i f"
    using handle_child [OF act h] f by (metis option.inject)+
  show ?thesis
  proof (cases "fb_use f = 1")
    case True
    with st(2) count_list_pos [OF h] have "fb_state f = TERM' \<or> fb_state f = INIT \<or> fb_state f = EXCEPT"
      by (auto simp: running_def at_rest_def split: if_splits State.splits)
    from release_destroys [OF f True st(1) this l(2,1), of n c tt "remove1 i hs" k] r have "fiber_at t i = None" using f by auto
    with t True show ?thesis by simp
  next
    case False
    then have "1 < fb_use f" using st(2) by (auto simp: running_def at_rest_def split: if_splits)
    from release_keeps [OF f this, of E n c tf tt "remove1 i hs" k l] r have "fiber_at t i \<noteq> None" using f by auto
    with t False show ?thesis by simp
  qed
qed

text \<open>C15: giving up a pointer never trips the assertion in the destructor, whatever state the fiber is in: the call returns, and it
  destroys the fiber exactly when this was the last pointer of the program and the fiber has not started or has finished. A
  fiber that is running or suspended is kept alive by the pointers on its own stack.\<close>

theorem dropping_a_fiber_is_safe:
  assumes "reachable (fiber_init E) (fiber_step E) s" and "fw_code s = Act (DropHandle i) # k"
    and "i \<in> set (fw_handles s)" and "fiber_at s i = Some f"
  shows "\<exists>t. fiber_exec E s = (Inr (), t) \<and>
     (fiber_at t i = None \<longleftrightarrow>
        count_list (fw_handles s) i = 1 \<and> (fb_state f = INIT \<or> fb_state f = TERM' \<or> fb_state f = EXCEPT))"
proof -
  obtain fs n c tf tt hs l where s: "s = W fs n c tf tt hs (Act (DropHandle i) # k) l" using assms(2) by (cases s) auto
  have inv: "fib_inv E (W fs n c tf tt hs (Act (DropHandle i) # k) l)" using fibers.reach_inv [OF assms(1)] s by simp
  have h: "i \<in> set hs" "at fs i = Some f" using assms(3,4) s by simp_all
  have "if tf = Some i then running (count_list hs i) i (Act (DropHandle i) # k) f else at_rest (count_list hs i) i f"
    using handle_child [OF inv h(1)] h(2) by (metis option.inject)
  then have "fb_use f = 1 \<longleftrightarrow> count_list hs i = 1 \<and> (fb_state f = INIT \<or> fb_state f = TERM' \<or> fb_state f = EXCEPT)"
    using count_list_pos [OF h(1)] by (auto simp: running_def at_rest_def split: if_splits State.splits)
  with drop_result [OF inv h] show ?thesis by (simp add: fiber_exec_def s)
qed

theorem dropping_a_fiber_is_safe_witness:
  "\<exists>s t. fw_code s = [Act (DropHandle 1)] \<and> fiber_exec demo_env s = (Inr (), t) \<and> fiber_at t 1 = None"
proof -
  obtain l where r: "reachable (fiber_init demo_env) (fiber_step demo_env)
      (W [Some (main_fiber 1), Some (fresh_fiber demo_env 1 None 0 1)] 1 2 (Some 0) (Some 0) [1] [Act (DropHandle 1)] l)"
    using demo_fiber_reachable [of None "[Act (DropHandle 1)]"] by (auto simp: flat_cb_def thread_action_def)
  from dropping_a_fiber_is_safe [OF r, of 1 "[]" "fresh_fiber demo_env 1 None 0 1"] obtain t where
    "fiber_exec demo_env (W [Some (main_fiber 1), Some (fresh_fiber demo_env 1 None 0 1)] 1 2 (Some 0) (Some 0) [1] [Act (DropHandle 1)] l) =
      (Inr (), t)" "fiber_at t 1 = None" by (auto simp: at_demo fresh_fiber_def)
  then show ?thesis by (intro exI conjI) (auto simp only: fiber_world.simps)
qed

section \<open>Completion\<close>

text \<open>C8: a fiber runs to its end. For a callback that yields, asks for the current fiber and logs, and then either returns or throws:
  when the thread resumes the fresh fiber once more than its callback yields, the fiber starts, continues behind each of its yields,
  and ends in state \<open>TERM\<close> with its callback given up, or in state \<open>EXCEPT\<close> after the exception; control is back with the thread,
  which goes on with its code, and no other fiber has changed.\<close>

theorem fiber_runs_to_completion:
  assumes "reachable (fiber_init E) (fiber_step E) s" and E: "fenv_ok E"
    and "t_threadFiber s = Some m" and "t_fiber s = Some m" and "i \<in> set (fw_handles s)"
    and "fiber_at s i = Some f" and "fb_state f = INIT" and "fb_cb f = Some (acts @ tail)" and "\<forall>a \<in> set acts. quiet a"
    and tail: "tail = [] \<or> (\<exists>e more. tail = ThrowExn e # more)"
    and "fw_code s = resumes i (yields acts + 1) @ k"
  shows "\<exists>t f'. (fiber_step E)\<^sup>*\<^sup>* s t \<and> fw_code t = k \<and> t_fiber t = Some m \<and>
     fiber_at t i = Some f' \<and> fb_state f' = (if tail = [] then TERM' else EXCEPT) \<and> (tail = [] \<longrightarrow> fb_cb f' = None) \<and>
     (\<forall>j. j \<noteq> i \<longrightarrow> j \<noteq> m \<longrightarrow> fiber_at t j = fiber_at s j)"
proof -
  let ?k = "resumes i (yields acts) @ k"
  obtain fs n c hs l where s: "s = W fs n c (Some m) (Some m) hs (Act (SwapIn i) # ?k) l" using assms(3,4,11) by (cases s) auto
  have inv: "fib_inv E (W fs n c (Some m) (Some m) hs (Act (SwapIn i) # ?k) l)" using fibers.reach_inv [OF assms(1)] s by simp
  have h: "i \<in> set hs" "at fs i = Some f" using assms(5,6) s by simp_all
  from inv obtain fm where fm: "at fs m = Some fm" and rest: "others_rest {m} fs hs" by (auto simp: inv_in_thread)
  have im: "i \<noteq> m" using inv h(1) by (auto simp: inv_in_thread)
  then have r: "fb_ctx f = Some [MainFunc]" "fb_use f = count_list hs i" "flat_cb (fb_cb f)"
    using others_restD [OF rest _ h(2)] assms(7) by (auto simp: at_rest_def)
  then have flat: "flat_cb (Some tail)" using assms(8) by (simp add: flat_cb_def)
  let ?f1 = "f\<lparr>fb_state := EXEC\<rparr>" let ?f2 = "?f1\<lparr>fb_use := fb_use f + 1\<rparr>" let ?fm = "fm\<lparr>fb_ctx := Some ?k\<rparr>"
  let ?fs1 = "fs[i := Some ?f1, m := Some ?fm]" let ?fs2 = "?fs1[i := Some ?f2]"
  have "exec_frame E (Act (SwapIn i)) (W fs n c (Some m) (Some m) hs ?k l) = (Inr (), W ?fs1 n c (Some i) (Some m) hs [MainFunc] l)"
    using swapIn_W [OF E fm h(2) im _ r(1)] assms(7) h(1) by (simp add: with_handle_def)
  note 1 = step_W [OF E this]
  have at1: "at ?fs1 i = Some ?f1" "at ?fs1 m = Some ?fm" using h(2) fm im by simp_all
  have "exec_frame E MainFunc (W ?fs1 n c (Some i) (Some m) hs [] l) =
      (Inr (), W ?fs2 n c (Some i) (Some m) hs (map Act acts @ map Act tail @ [AfterCb i]) l)"
    using at1 assms(8) by (simp add: MainFunc_call_def GetThis_Some [OF at1(1)] comp_simps)
  note 2 = step_W [OF E this]
  have at2: "at ?fs2 i = Some ?f2" "at ?fs2 m = Some ?fm" using h(2) fm im by simp_all
  have "1 < fb_use ?f2" using r(2) count_list_pos [OF h(1)] by simp
  moreover have "flog_ok E l" using inv by (simp add: inv_W)
  moreover note body_completes [OF E assms(9) at2(2) _ at2(1) im h(1) calculation tail flat, of k n c]
  ultimately obtain fs3 f3 l3 where
    3: "(fiber_step E)\<^sup>*\<^sup>* (W ?fs2 n c (Some i) (Some m) hs (map Act acts @ map Act tail @ [AfterCb i]) l) (W fs3 n c (Some m) (Some m) hs k l3)"
    "at fs3 i = Some f3" "fb_state f3 = (if tail = [] then TERM' else EXCEPT)" "tail = [] \<longrightarrow> fb_cb f3 = None"
    "\<forall>j. j \<noteq> i \<longrightarrow> j \<noteq> m \<longrightarrow> at fs3 j = at ?fs2 j" by auto
  have "(fiber_step E)\<^sup>*\<^sup>* s (W fs3 n c (Some m) (Some m) hs k l3)"
    unfolding s by (rule fiber_steps1 [OF 1 fiber_steps1 [OF 2 3(1)]])
  moreover have "\<forall>j. j \<noteq> i \<longrightarrow> j \<noteq> m \<longrightarrow> at fs3 j = at fs j" using 3(5) by (simp add: at_update)
  ultimately show ?thesis using 3(2-4) s by (intro exI [of _ "W fs3 n c (Some m) (Some m) hs k l3"] exI [of _ f3]) simp
qed

theorem fiber_runs_to_completion_witness:
  "(\<exists>s t f. fw_code s = resumes 1 2 \<and> (fiber_step demo_env)\<^sup>*\<^sup>* s t \<and> fw_code t = [] \<and> fiber_at t 1 = Some f \<and> fb_state f = TERM') \<and>
   (\<exists>s t f. fw_code s = resumes 1 2 \<and> (fiber_step demo_env)\<^sup>*\<^sup>* s t \<and> fw_code t = [] \<and> fiber_at t 1 = Some f \<and> fb_state f = EXCEPT)"
proof -
  have run: "\<exists>s t f. fw_code s = resumes 1 2 \<and> (fiber_step demo_env)\<^sup>*\<^sup>* s t \<and> fw_code t = [] \<and> fiber_at t 1 = Some f \<and>
      fb_state f = (if tail = [] then TERM' else EXCEPT)"
    if tail: "tail = [] \<or> tail = [ThrowExn bad_function_call]" for tail
  proof -
    let ?cb = "Some (CallYieldToHold # tail)"
    let ?s = "\<lambda>l. W [Some (main_fiber 1), Some (fresh_fiber demo_env 1 ?cb 0 1)] 1 2 (Some 0) (Some 0) [1] (resumes 1 2) l"
    obtain l where r: "reachable (fiber_init demo_env) (fiber_step demo_env) (?s l)"
      using demo_fiber_reachable [of ?cb "resumes 1 2"] tail by (auto simp: flat_cb_def thread_action_def numeral_2_eq_2)
    have t: "tail = [] \<or> (\<exists>e more. tail = ThrowExn e # more)" using tail by blast
    from fiber_runs_to_completion [OF r demo_env_ok _ _ _ _ _ _ _ t, of 0 1 "fresh_fiber demo_env 1 ?cb 0 1" "[CallYieldToHold]" "[]"] obtain u f where
      "(fiber_step demo_env)\<^sup>*\<^sup>* (?s l) u" "fw_code u = []" "fiber_at u 1 = Some f" "fb_state f = (if tail = [] then TERM' else EXCEPT)"
      by (auto simp: at_demo fresh_fiber_def numeral_2_eq_2)
    moreover have "fw_code (?s l) = resumes 1 2" by simp
    ultimately show ?thesis by blast
  qed
  from run [of "[]"] run [of "[ThrowExn bad_function_call]"] show ?thesis by simp
qed

section \<open>Misuse\<close>

text \<open>C32: resuming a fiber that has terminated or failed is not refused: \<open>swapIn\<close> switches to it, and the fiber goes on behind
  the switch at the end of \<open>MainFunc\<close>, into the assertion that this line is never reached, which ends the process.\<close>

theorem resuming_a_finished_fiber_aborts:
  assumes "reachable (fiber_init E) (fiber_step E) s" and E: "fenv_ok E" and "fw_code s = Act (SwapIn i) # k"
    and "i \<in> set (fw_handles s)" and "t_threadFiber s \<noteq> None" and "fiber_at s i = Some f"
    and "fb_state f = TERM' \<or> fb_state f = EXCEPT"
  shows "\<exists>t u. fiber_step E s t \<and> fw_code t = [NeverReach] \<and> fiber_exec E t = (Inl (Abort ''false''), u)"
proof -
  obtain fs n c tf tt hs l where s: "s = W fs n c tf tt hs (Act (SwapIn i) # k) l" using assms(3) by (cases s) auto
  have act: "fib_inv E (W fs n c tf tt hs (Act (SwapIn i) # k) l)" using fibers.reach_inv [OF assms(1)] s by simp
  have same: "tf = tt" using inv_pop(2) [OF act] by (auto split: if_splits)
  obtain m where m: "tt = Some m" using assms(5) s by auto
  note act' = act [unfolded same, unfolded m]
  have h: "i \<in> set hs" "at fs i = Some f" using assms(4,6) s by simp_all
  from act' obtain fm where fm: "at fs m = Some fm" and rest: "others_rest {m} fs hs" by (auto simp: inv_in_thread)
  have im: "i \<noteq> m" using act' h(1) by (auto simp: inv_in_thread)
  then have r: "fb_ctx f = Some [NeverReach]" "fb_state f \<noteq> EXEC"
    using others_restD [OF rest _ h(2)] assms(7) by (auto simp: at_rest_def)
  let ?t = "W (fs[i := Some (f\<lparr>fb_state := EXEC\<rparr>), m := Some (fm\<lparr>fb_ctx := Some k\<rparr>)]) n c (Some i) (Some m) hs [NeverReach] l"
  have "exec_frame E (Act (SwapIn i)) (W fs n c (Some m) (Some m) hs k l) = (Inr (), ?t)"
    using swapIn_W [OF E fm h(2) im r(2,1)] h(1) by (simp add: with_handle_def)
  then have step: "fiber_step E s ?t" using step_W [OF E] s same m by simp
  then have "fib_inv E ?t" using act s fib_inv_step by blast
  from step_NeverReach [OF this, of "[]"] obtain u where "fiber_exec E ?t = (Inl (Abort ''false''), u)" by (auto simp: fiber_exec_def)
  with step have "fiber_step E s ?t \<and> fw_code ?t = [NeverReach] \<and> fiber_exec E ?t = (Inl (Abort ''false''), u)" by simp
  then show ?thesis by blast
qed

text \<open>A terminated fiber, for the instance: a fresh one with an empty callback, resumed once.\<close>

lemma demo_finished_reachable:
  "\<exists>s f. reachable (fiber_init demo_env) (fiber_step demo_env) s \<and> fw_code s = [Act (SwapIn 1)] \<and> fw_handles s = [1] \<and>
     t_threadFiber s = Some 0 \<and> fiber_at s 1 = Some f \<and> fb_state f = TERM'"
proof -
  let ?f = "fresh_fiber demo_env 1 (Some []) 0 1"
  obtain l where r: "reachable (fiber_init demo_env) (fiber_step demo_env)
      (W [Some (main_fiber 1), Some ?f] 1 2 (Some 0) (Some 0) [1] [Act (SwapIn 1), Act (SwapIn 1)] l)" (is "reachable _ _ ?s0")
    using demo_fiber_reachable [of "Some []" "[Act (SwapIn 1), Act (SwapIn 1)]"] by (auto simp: flat_cb_def thread_action_def)
  let ?fm = "main_fiber 1\<lparr>fb_ctx := Some [Act (SwapIn 1)]\<rparr>"
  let ?s1 = "W [Some ?fm, Some (?f\<lparr>fb_state := EXEC\<rparr>)] 1 2 (Some 1) (Some 0) [1] [MainFunc] l"
  let ?s2 = "W [Some ?fm, Some (?f\<lparr>fb_state := EXEC, fb_use := 2\<rparr>)] 1 2 (Some 1) (Some 0) [1] [AfterCb 1] l"
  let ?f3 = "?f\<lparr>fb_state := TERM', fb_use := 1, fb_cb := None, fb_ctx := Some [NeverReach]\<rparr>"
  let ?s3 = "W [Some ?fm, Some ?f3] 1 2 (Some 0) (Some 0) [1] [Act (SwapIn 1)] l"
  have "fiber_step demo_env ?s0 ?s1"
    by (rule step_W [OF demo_env_ok])
      (simp add: with_handle_def swapIn_W [OF demo_env_ok, where fm = "main_fiber 1" and f = ?f] at_demo fresh_fiber_def)
  moreover have "fiber_step demo_env ?s1 ?s2"
    by (rule step_W [OF demo_env_ok])
      (simp add: MainFunc_call_def GetThis_Some [where f = "?f\<lparr>fb_state := EXEC\<rparr>"] at_demo comp_simps fresh_fiber_def)
  moreover have "fiber_step demo_env ?s2 ?s3"
    by (rule step_W [OF demo_env_ok])
      (simp add: return_W [OF demo_env_ok, where fm = ?fm and f = "?f\<lparr>fb_state := EXEC, fb_use := 2\<rparr>"] at_demo fresh_fiber_def)
  ultimately have "reachable (fiber_init demo_env) (fiber_step demo_env) ?s3" using r by (meson reach_step)
  then show ?thesis by (intro exI [of _ ?s3] exI [of _ ?f3]) (simp add: at_demo)
qed

theorem resuming_a_finished_fiber_aborts_witness:
  "\<exists>s t u. fw_code s = [Act (SwapIn 1)] \<and> fiber_step demo_env s t \<and> fiber_exec demo_env t = (Inl (Abort ''false''), u)"
proof -
  obtain s f where s: "reachable (fiber_init demo_env) (fiber_step demo_env) s" "fw_code s = [Act (SwapIn 1)]" "fw_handles s = [1]"
    "t_threadFiber s = Some 0" "fiber_at s 1 = Some f" "fb_state f = TERM'" using demo_finished_reachable by blast
  from resuming_a_finished_fiber_aborts [OF s(1) demo_env_ok s(2) _ _ s(5)] s show ?thesis by auto
qed

text \<open>C31: \<open>swapIn\<close> inside a callback is not refused, but it overwrites the context in which the thread was suspended. When the
  inner fiber ends, the outer callback goes on; when that ends too, the switch back goes to the place after the inner \<open>swapIn\<close>
  instead of to the thread, so the end of the callback is executed a second time: the fiber loses one more reference, is destroyed
  and frees the stack it runs on. What the thread had still to do is never reached.\<close>

theorem nested_swapIn_is_undefined:
  assumes E: "fenv_ok E" and log: "flog_ok E (fw_log s)"
    and cur: "t_fiber s = Some a" "t_threadFiber s = Some m" "fw_code s = [Act (SwapIn b), AfterCb a]" "b \<in> set (fw_handles s)"
    and main: "fiber_at s m = Some fm" and outer: "fiber_at s a = Some fa" "fb_stack fa" "fb_use fa = 2"
    and inner: "fiber_at s b = Some fb" "fb_state fb = INIT" "fb_ctx fb = Some [MainFunc]" "fb_cb fb = Some []" "0 < fb_use fb"
    and diff: "distinct [a, b, m]"
  shows "\<exists>t u v. fiber_step E s t \<and> fiber_at t m = Some (fm\<lparr>fb_ctx := Some [AfterCb a]\<rparr>) \<and>
     (fiber_step E)\<^sup>*\<^sup>* t u \<and> fw_code u = [AfterCb a] \<and> fiber_exec E u = (Inl Indeterminate, v)"
proof -
  obtain fs n c hs l where s: "s = W fs n c (Some a) (Some m) hs [Act (SwapIn b), AfterCb a] l" using cur by (cases s) auto
  have at: "at fs m = Some fm" "at fs a = Some fa" "at fs b = Some fb" using main outer(1) inner(1) s by simp_all
  have ne: "a \<noteq> b" "b \<noteq> m" "a \<noteq> m" "b \<noteq> a" "m \<noteq> b" "m \<noteq> a" and h: "b \<in> set hs" using diff cur(4) s by auto
  note upd = at_update at_length [OF at(1)] at_length [OF at(2)] at_length [OF at(3)]
  let ?k = "[AfterCb a]" let ?fm = "fm\<lparr>fb_ctx := Some ?k\<rparr>"
  let ?fs1 = "fs[b := Some (fb\<lparr>fb_state := EXEC\<rparr>), m := Some ?fm]"
  let ?s1 = "W ?fs1 n c (Some b) (Some m) hs [MainFunc] l"
  have at1: "at ?fs1 m = Some ?fm" "at ?fs1 b = Some (fb\<lparr>fb_state := EXEC\<rparr>)" "at ?fs1 a = Some fa"
    using at ne by (simp_all add: upd)
  have 1: "fiber_step E s ?s1"
    unfolding s
    by (rule step_W [OF E]) (use h inner(2,3) swapIn_W [OF E at(1,3) ne(2)] in \<open>simp add: with_handle_def\<close>)
  let ?fb2 = "fb\<lparr>fb_state := EXEC, fb_use := fb_use fb + 1\<rparr>" let ?fs2 = "?fs1[b := Some ?fb2]"
  let ?s2 = "W ?fs2 n c (Some b) (Some m) hs [AfterCb b] l"
  have at2: "at ?fs2 m = Some ?fm" "at ?fs2 b = Some ?fb2" "at ?fs2 a = Some fa" using at ne by (simp_all add: upd)
  have 2: "fiber_step E ?s1 ?s2"
    by (rule step_W [OF E])
      (use at1 at2 inner(4) GetThis_Some [OF at1(2)] in \<open>simp add: MainFunc_call_def comp_simps\<close>)
  let ?fb3 = "?fb2\<lparr>fb_cb := None, fb_state := TERM', fb_use := fb_use fb, fb_ctx := Some [NeverReach]\<rparr>"
  let ?fs3 = "?fs2[b := Some ?fb3]" let ?s3 = "W ?fs3 n c (Some m) (Some m) hs ?k l"
  have at3: "at ?fs3 m = Some ?fm" "at ?fs3 a = Some fa" using at ne by (simp_all add: upd)
  have 3: "fiber_step E ?s2 ?s3"
    by (rule step_W [OF E]) (use return_W [OF E at2(1,2) ne(2)] inner(5) in simp)
  let ?fa4 = "fa\<lparr>fb_cb := None, fb_state := TERM', fb_use := 1, fb_ctx := Some [NeverReach]\<rparr>"
  let ?fs4 = "?fs3[a := Some ?fa4]" let ?s4 = "W ?fs4 n c (Some m) (Some m) hs ?k l"
  have 4: "fiber_step E ?s3 ?s4"
    by (rule step_W [OF E]) (use return_W [OF E at3 ne(3)] outer(3) in simp)
  have at4: "at ?fs4 a = Some ?fa4" "this_live ?fs4 (Some m)" using at ne by (simp_all add: upd this_live_def)
  obtain v where "MainFunc_return E a (W ?fs4 n c (Some m) (Some m) hs [] l) = (Inl Indeterminate, v)"
    using return_destroyed [OF E at4(1) _ _ at4(2), of l n c m hs "[]"] outer(2) log s by auto
  then have 5: "fiber_exec E ?s4 = (Inl Indeterminate, v)" by (simp add: fiber_exec_def)
  have "(fiber_step E)\<^sup>*\<^sup>* ?s1 ?s4" using fiber_steps3 [OF 2 3 4] .
  moreover have "fiber_at ?s1 m = Some ?fm" using at1(1) by simp
  ultimately show ?thesis using 1 5 by (intro exI [of _ ?s1] exI [of _ ?s4] exI [of _ v]) simp
qed

theorem nested_swapIn_is_undefined_witness:
  "\<exists>t u v. fiber_step demo_env
       \<lparr>fw_fibers = [Some (main_fiber 1\<lparr>fb_ctx := Some [Act (ThrowExn bad_function_call)]\<rparr>),
          Some (fresh_fiber demo_env 1 (Some [SwapIn 2]) 0 2\<lparr>fb_state := EXEC\<rparr>), Some (fresh_fiber demo_env 2 (Some []) 0 1)],
        s_fiber_id = 2, s_fiber_count = 3, t_fiber = Some 1, t_threadFiber = Some 0, fw_handles = [2, 1],
        fw_code = [Act (SwapIn 2), AfterCb 1], fw_log = start_world\<rparr> t \<and>
     (fiber_step demo_env)\<^sup>*\<^sup>* t u \<and> fiber_exec demo_env u = (Inl Indeterminate, v)"
proof -
  let ?fs = "[Some (main_fiber 1\<lparr>fb_ctx := Some [Act (ThrowExn bad_function_call)]\<rparr>),
      Some (fresh_fiber demo_env 1 (Some [SwapIn 2]) 0 2\<lparr>fb_state := EXEC\<rparr>), Some (fresh_fiber demo_env 2 (Some []) 0 1)]"
  have "at ?fs 0 \<noteq> None" "at ?fs 1 = ?fs ! 1" "at ?fs 2 = ?fs ! 2" by (simp_all add: at_def)
  then show ?thesis
    using nested_swapIn_is_undefined [OF demo_env_ok, of "W ?fs 2 3 (Some 1) (Some 0) [2, 1] [Act (SwapIn 2), AfterCb 1] start_world" 1 0 2]
      start_world_flog
    by (fastforce simp: fresh_fiber_def demo_env_def)
qed





section \<open>Sizes\<close>

text \<open>C39: constructing a fiber always returns; the fiber is fresh, has the next identifier, and its stack has the size asked for modulo
  \<open>2 ^ 32\<close>, or the configured one for a size of zero: a request of \<open>2 ^ 32\<close> bytes or more gets a smaller stack, possibly none.\<close>

theorem new_fiber_stack_size:
  assumes "reachable (fiber_init E) (fiber_step E) s" and "fenv_ok E" and "fw_code s = Act (NewFiber cb stacksize) # k"
  shows "\<exists>t f. fiber_exec E s = (Inr (), t) \<and> fiber_at t (length (fw_fibers s)) = Some f \<and>
     fb_state f = INIT \<and> fb_id f = s_fiber_id s + 1 \<and>
     unat (fb_stacksize f) = (if stacksize = 0 then unat (g_fiber_stack_size E) else unat stacksize mod 2 ^ 32) \<and>
     (stacksize \<noteq> 0 \<longrightarrow> (unat (fb_stacksize f) = unat stacksize \<longleftrightarrow> unat stacksize < 2 ^ 32))"
proof -
  obtain fs n c tf tt hs l where s: "s = W fs n c tf tt hs (Act (NewFiber cb stacksize) # k) l" using assms(3) by (cases s) auto
  have "flog_ok E l" "this_live fs tf" using fibers.reach_inv [OF assms(1)] s by (simp_all add: inv_W)
  from NewFiber_W [OF assms(2) this, of cb stacksize n c tt hs k] obtain l' where
    "fiber_exec E s = (Inr (), W (fs @ [Some (fresh_fiber E (n + 1) cb stacksize 1)]) (n + 1) (c + 1) tf tt (length fs # hs) k l')"
    by (auto simp: fiber_exec_def s)
  moreover have "unat (stack_size_of E stacksize) = (if stacksize = 0 then unat (g_fiber_stack_size E) else unat stacksize mod 2 ^ 32)"
    by (simp add: stack_size_of_def unsigned_ucast_eq unsigned_take_bit_eq take_bit_eq_mod)
  ultimately show ?thesis using s
    by (intro exI [of _ "W (fs @ [Some (fresh_fiber E (n + 1) cb stacksize 1)]) (n + 1) (c + 1) tf tt (length fs # hs) k l'"]
        exI [of _ "fresh_fiber E (n + 1) cb stacksize 1"]) (auto simp: fresh_fiber_def mod_less_divisor intro: mod_less)
qed

theorem new_fiber_stack_size_witness:
  "\<exists>t f. fiber_exec demo_env (demo_start [NewFiber None (2 ^ 32)]) = (Inr (), t) \<and> fiber_at t 0 = Some f \<and> unat (fb_stacksize f) = 0"
  using new_fiber_stack_size [OF demo_reachable [of "[NewFiber None (2 ^ 32)]"] demo_env_ok, of None "2 ^ 32" "[]"]
  by (auto simp: thread_action_def flat_cb_def demo_start_def)

end
