(* ===== verification/Program.thy ===== *)
theory Program
  imports Startup ConfigTyping FiberProperties
begin

text \<open>
  The parts together: the process starts, loads a configuration file, and then runs a thread with fibers. What
  \<open>src/sylar/fiber.cc\<close> takes from the rest of the program is its logger and the variable \<open>fiber.stack_size\<close>, both
  of which it looks up in its static initialisers.
\<close>

text \<open>
  The surroundings of the fibers in a configured process. The pointers of \<open>fiber.cc\<close> are those that are
  registered, because both registries keep what they hold for a name and a type.
\<close>

definition configured_fiber_env :: "fiber_env \<Rightarrow> (cfg_value, fiber_env) cfgc" where
  "configured_fiber_env E =
     bindc (SYLAR_LOG_NAME ''system'') (\<lambda>logger.
     bindc (Config_Lookup_name uint32_type ''fiber.stack_size'') (\<lambda>var.
       case var of
         None \<Rightarrow> raise NullDeref
       | Some i \<Rightarrow>
           bindc (ConfigVar_getValue i) (\<lambda>v.
             case v of
               UInt32 n \<Rightarrow> ret (E\<lparr>fe_logger := logger, g_fiber_stack_size := n\<rparr>)
             | LogDefines ds \<Rightarrow> raise Indeterminate)))"

text \<open>A thread that is about to run its code, in a process that has not used fibers yet.\<close>

definition first_thread :: "action list \<Rightarrow> 'v cfg_world \<Rightarrow> fiber_world" where
  "first_thread acts s =
     \<lparr>fw_fibers = [], s_fiber_id = 0, s_fiber_count = 0, t_fiber = None, t_threadFiber = None, fw_handles = [],
      fw_code = map Act acts, fw_log = log_world.truncate s\<rparr>"

lemma at_truncate:
  "logger_at (log_world.truncate s) = logger_at s" "appender_at (log_world.truncate s) = appender_at s"
  by (simp_all add: fun_eq_iff logger_at_def appender_at_def log_world.truncate_def)

lemma log_ok_truncate: "log_ok s \<Longrightarrow> log_ok (log_world.truncate s)"
  by (simp add: log_ok_def log_inv_def wf_log_def logger_ok_def dates_ok_def logger_name_def at_truncate)
    (simp add: log_world.truncate_def)

lemma fiber_init_first_thread:
  assumes "log_ok s" and "logger_at s (fe_logger E) \<noteq> None" and "\<forall>a \<in> set acts. thread_action a"
  shows "fiber_init E (first_thread acts s)"
  using assms log_ok_truncate by (simp add: fiber_init_def first_thread_def flog_ok_def at_truncate)

lemma configured_fiber_env_eval:
  assumes s: "started n ds s" and g: "map_of (w_m_loggers s) ''system'' = Some g"
  shows "configured_fiber_env E s = (Inr (E\<lparr>fe_logger := g, g_fiber_stack_size := n\<rparr>), s)"
proof -
  obtain i where i: "map_of (c_datas s) ''fiber.stack_size'' = Some i" "var_at s i = Some (stack_var\<lparr>cv_val := UInt32 n\<rparr>)" "cfg_idle s"
    using s by (rule started_vars)
  have "w_held s = {}" using s by (simp add: started_def log_ok_held)
  moreover have "w_m_loggers s \<noteq> []" using g by auto
  ultimately have "SYLAR_LOG_NAME ''system'' s = (Inr g, s)"
    using g by (simp add: SYLAR_LOG_NAME_def LoggerMgr_GetInstance_def Singleton_GetInstance_def bindc_def LoggerManager_getLogger_known)
  moreover have "Config_Lookup_name uint32_type ''fiber.stack_size'' s = (Inr (Some i), s)"
    using i by (simp add: Config_Lookup_name_def with_rdlock_def cfg_idle_def bindc_def get_var_Some ret_apply stack_var_def)
  ultimately show ?thesis
    using getValue_eval [OF i(3,2)] by (simp add: configured_fiber_env_def bindc_def ret_apply)
qed

lemma new_fiber_zero:
  assumes "reachable (fiber_init E) (fiber_step E) w" and "fenv_ok E" and "fw_code w = Act (NewFiber cb 0) # k"
  shows "\<exists>w' f. fiber_exec E w = (Inr (), w') \<and> fiber_at w' (length (fw_fibers w)) = Some f \<and>
     fb_state f = INIT \<and> fb_stacksize f = g_fiber_stack_size E"
proof -
  obtain fs n c tf tt hs l where w: "w = W fs n c tf tt hs (Act (NewFiber cb 0) # k) l" using assms(3) by (cases w) auto
  have "flog_ok E l" "this_live fs tf" using fibers.reach_inv [OF assms(1)] w by (simp_all add: inv_W)
  from NewFiber_W [OF assms(2) this, of cb 0 n c tt hs k] obtain l' where
    "fiber_exec E w = (Inr (), W (fs @ [Some (fresh_fiber E (n + 1) cb 0 1)]) (n + 1) (c + 1) tf tt (length fs # hs) k l')"
    by (auto simp: fiber_exec_def w)
  then show ?thesis using w
    by (intro exI [of _ "W (fs @ [Some (fresh_fiber E (n + 1) cb 0 1)]) (n + 1) (c + 1) tf tt (length fs # hs) k l'"]
        exI [of _ "fresh_fiber E (n + 1) cb 0 1"]) (simp add: fresh_fiber_def stack_size_of_def)
qed

text \<open>The start of the process up to and including the configuration file.\<close>

lemma configured_process:
  assumes "process_start s" and "mset order = {#LogCc, FiberCc, ThreadCc, UtilCc#}"
    and place: "\<And>p m. mset (place p m) = add_mset p (mset m)" and Y: "yaml_laws Y"
    and num: "of_text size_text = Inr n"
    and defs: "defines_sorted defs" "\<forall>d \<in> set defs. define_ok d" "defs \<noteq> []"
  shows "\<exists>t g. bindc (static_init (program_env Y of_text to_text what place) order)
        (\<lambda>_. Config_LoadFromYaml (program_env Y of_text to_text what place) (program_file size_text defs)) s = (Inr (), t) \<and>
     started n (map strip_define defs) t \<and> map_of (w_m_loggers t) ''system'' = Some g \<and> logger_at t g \<noteq> None"
proof -
  let ?E = "program_env Y of_text to_text what place"
  obtain s1 where s1: "static_init ?E order s = (Inr (), s1)" "logging_up s1" "registry_ok s1"
      "registry s1 = [''fiber.stack_size'' \<mapsto> stack_var, ''logs'' \<mapsto> logs_var]"
    using static_init_all [OF assms(1-3), of Y of_text to_text what] by blast
  then have "started (1024 * 1024) [] s1" by (simp add: started_def logging_up_def stack_var_def logs_var_def)
  from load_program_file [of Y "1024 * 1024" s1 of_text, OF Y this num defs, of to_text what place] obtain t where
    t: "Config_LoadFromYaml ?E (program_file size_text defs) s1 = (Inr (), t)" "started n (map strip_define defs) t"
    "map_of (w_m_loggers s1) \<subseteq>\<^sub>m map_of (w_m_loggers t)" by blast
  have "map fst (w_m_loggers s1) = [''root'', ''system'']" using s1(2) by (simp add: logging_up_def)
  then obtain g where "map_of (w_m_loggers s1) ''system'' = Some g"
    by (cases "w_m_loggers s1"; cases "tl (w_m_loggers s1)") auto
  then have g: "map_of (w_m_loggers t) ''system'' = Some g" using t(3) by (rule map_le_Some [rotated])
  have "log_ok t" using t(2) by (simp add: started_def)
  from log_ok_names [OF this g] have "logger_at t g \<noteq> None" by (auto simp: logger_name_def split: option.splits)
  with s1(1) t(1,2) g show ?thesis by (auto simp: bindc_def)
qed

section \<open>Property\<close>

text \<open>C7: from the start of the process to its fibers. Whatever the order of the initialisers, after a configuration file
  with a stack size and logger definitions has been loaded, the logger and the variable that \<open>fiber.cc\<close> uses are there, the state
  satisfies what the theorems about fibers ask for, and whatever a thread does from there, a fiber that is
  created without a stack size gets the one of the file.\<close>

theorem program_runs_fibers:
  assumes "process_start s" and "mset order = {#LogCc, FiberCc, ThreadCc, UtilCc#}"
    and "\<And>p m. mset (place p m) = add_mset p (mset m)" and "yaml_laws Y" and "of_text size_text = Inr n"
    and "defines_sorted defs" and "\<forall>d \<in> set defs. define_ok d" and "defs \<noteq> []"
    and E: "fenv_ok E" and acts: "\<forall>a \<in> set acts. thread_action a"
  shows "\<exists>t E'. bindc (static_init (program_env Y of_text to_text what place) order)
        (\<lambda>_. Config_LoadFromYaml (program_env Y of_text to_text what place) (program_file size_text defs)) s = (Inr (), t) \<and>
     configured_fiber_env E t = (Inr E', t) \<and> fenv_ok E' \<and> fiber_init E' (first_thread acts t) \<and>
     (\<forall>w cb k. (fiber_step E')\<^sup>*\<^sup>* (first_thread acts t) w \<and> fw_code w = Act (NewFiber cb 0) # k \<longrightarrow>
        (\<exists>w' f. fiber_exec E' w = (Inr (), w') \<and> fiber_at w' (length (fw_fibers w)) = Some f \<and>
           fb_state f = INIT \<and> fb_stacksize f = n))"
proof -
  from configured_process [OF assms(1-4), of of_text size_text n, OF assms(5-8)] obtain t g where
    t: "bindc (static_init (program_env Y of_text to_text what place) order)
        (\<lambda>_. Config_LoadFromYaml (program_env Y of_text to_text what place) (program_file size_text defs)) s = (Inr (), t)"
      "started n (map strip_define defs) t" "map_of (w_m_loggers t) ''system'' = Some g" "logger_at t g \<noteq> None" by blast
  let ?E = "E\<lparr>fe_logger := g, g_fiber_stack_size := n\<rparr>"
  have E': "fenv_ok ?E" using E by (simp add: fenv_ok_def)
  have init: "fiber_init ?E (first_thread acts t)"
    using fiber_init_first_thread [of t ?E acts] t(2,4) acts by (simp add: started_def)
  then have start: "reachable (fiber_init ?E) (fiber_step ?E) (first_thread acts t)" by (rule reach_init)
  have "\<exists>w' f. fiber_exec ?E w = (Inr (), w') \<and> fiber_at w' (length (fw_fibers w)) = Some f \<and> fb_state f = INIT \<and> fb_stacksize f = n"
    if "(fiber_step ?E)\<^sup>*\<^sup>* (first_thread acts t) w" "fw_code w = Act (NewFiber cb 0) # k" for w cb k
    using new_fiber_zero [OF fibers.reach_steps [OF start that(1)] E' that(2)] by simp
  with t(1) configured_fiber_env_eval [OF t(2,3), of E] E' init show ?thesis by blast
qed

theorem program_runs_fibers_witness:
  "\<exists>t E' w' f. bindc (static_init demo_program_env [LogCc, FiberCc, ThreadCc, UtilCc])
       (\<lambda>_. Config_LoadFromYaml demo_program_env (program_file ''2048'' [define_a])) blank_process = (Inr (), t) \<and>
     configured_fiber_env demo_env t = (Inr E', t) \<and>
     fiber_exec E' (first_thread [NewFiber None 0] t) = (Inr (), w') \<and> fiber_at w' 0 = Some f \<and> fb_stacksize f = 2048"
proof -
  have a: "define_ok define_a" by (simp add: define_a_def file_define_def define_ok_def)
  have acts: "\<forall>a \<in> set [NewFiber None 0]. thread_action a" by (simp add: thread_action_def flat_cb_def)
  have "mset [LogCc, FiberCc, ThreadCc, UtilCc] = {#LogCc, FiberCc, ThreadCc, UtilCc#}" by simp
  from program_runs_fibers [OF blank_process_start this _ small_yaml_laws, of "\<lambda>p m. m @ [p]"
      "\<lambda>t. if t = ''2048'' then Inr 2048 else Inl (Throw bad_lexical_cast)" "''2048''" 2048 "[define_a]" demo_env "[NewFiber None 0]"
      "\<lambda>n. Inr (show_nat (unat n))" "\<lambda>e. ''error''"] a acts demo_env_ok
  obtain t E' where t: "bindc (static_init demo_program_env [LogCc, FiberCc, ThreadCc, UtilCc])
       (\<lambda>_. Config_LoadFromYaml demo_program_env (program_file ''2048'' [define_a])) blank_process = (Inr (), t)"
    "configured_fiber_env demo_env t = (Inr E', t)"
    and all: "\<And>w cb k. (fiber_step E')\<^sup>*\<^sup>* (first_thread [NewFiber None 0] t) w \<Longrightarrow> fw_code w = Act (NewFiber cb 0) # k \<Longrightarrow>
        (\<exists>w' f. fiber_exec E' w = (Inr (), w') \<and> fiber_at w' (length (fw_fibers w)) = Some f \<and>
           fb_state f = INIT \<and> fb_stacksize f = 2048)"
    unfolding demo_program_env_def by auto
  have "fw_code (first_thread [NewFiber None 0] t) = Act (NewFiber None 0) # []" "fw_fibers (first_thread [NewFiber None 0] t) = []"
    by (simp_all add: first_thread_def)
  with all [OF rtranclp.rtrancl_refl this(1)] t show ?thesis by auto
qed

end
