(* ===== verification/Thread.thy ===== *)
theory Thread
  imports Locks Util LogProperties
begin

text \<open>
  \<open>Thread\<close> of \<open>src/sylar/thread.h\<close> and \<open>src/sylar/thread.cc\<close>: the constructor and the function \<open>run\<close> that
  the new thread executes, statement by statement and interleaved, \<open>join\<close>, the destructor, and the static
  functions on the current thread.
\<close>

section \<open>State\<close>

text \<open>The object; \<open>m_thread\<close> is 0 when there is no thread to join, \<open>m_cb\<close> is \<open>None\<close> when it is empty.\<close>

record 'cb Thread =
  th_id :: i32
  th_thread :: u64
  th_cb :: "'cb option"
  th_name :: string
  th_semaphore :: nat

text \<open>The thread-local variables of a thread: whether \<open>t_thread\<close> points to the object, and \<open>t_thread_name\<close>.\<close>

record tls =
  t_thread :: bool
  t_thread_name :: string

definition tls_new :: tls where
  "tls_new = \<lparr>t_thread = False, t_thread_name = ''UNKNOW''\<rparr>"

text \<open>The statements of \<open>run\<close>, by the one that is next; \<open>InCb\<close> while the callback runs, \<open>Returned\<close> after the last.\<close>

datatype run_pc = SetThis | SetThreadName | SetId | SetOsName | SwapCb | Notify | CallCb | InCb | Returned

text \<open>
  The thread that constructs the object: inside the constructor before and after \<open>pthread_create\<close>, behind it, behind \<open>join\<close>,
  thrown out of the constructor; and the end of the whole process by an exception that leaves \<open>run\<close>.
\<close>

datatype parent_pc = Creating | Waiting | Constructed | Joined | Failed error | Terminated

text \<open>
  The object, both threads, the thread-local variables, the name the system shows and the local \<open>cb\<close> of the new
  thread, the callbacks called so far, whether the thread was detached, and the logging system.
\<close>

record 'cb thread_world =
  tw_obj :: "'cb Thread"
  tw_parent :: parent_pc
  tw_run :: "run_pc option"
  tw_tls :: tls
  tw_os_name :: string
  tw_cb :: "'cb option"
  tw_calls :: "'cb list"
  tw_detached :: bool
  tw_log :: log_world

text \<open>How the call of the callback ends: the callbacks of \<open>src/tests/test_thread.cc\<close> never return.\<close>

datatype call_end = Returns | Throws exn | Diverges

text \<open>The logger \<open>system\<close>, what \<open>GetThreadID\<close> returns in the new thread, and how its callback ends.\<close>

record thread_env =
  te_logger :: addr
  te_tid :: i32
  te_call :: call_end

section \<open>The current thread\<close>

definition Thread_GetThis :: "tls \<Rightarrow> bool" where
  "Thread_GetThis v = t_thread v"

definition Thread_GetName :: "tls \<Rightarrow> string" where
  "Thread_GetName v = t_thread_name v"

text \<open>\<open>SetName\<close> called in the new thread.\<close>

definition Thread_SetName :: "string \<Rightarrow> 'cb thread_world \<Rightarrow> 'cb thread_world" where
  "Thread_SetName name w =
     (if t_thread (tw_tls w) then w\<lparr>tw_obj := (tw_obj w)\<lparr>th_name := name\<rparr>, tw_tls := (tw_tls w)\<lparr>t_thread_name := name\<rparr>\<rparr>
      else w\<lparr>tw_tls := (tw_tls w)\<lparr>t_thread_name := name\<rparr>\<rparr>)"

section \<open>Construction\<close>

definition Thread_init :: "'cb option \<Rightarrow> string \<Rightarrow> 'cb Thread" where
  "Thread_init cb name =
     \<lparr>th_id = -1, th_thread = 0, th_cb = cb, th_name = (if name = [] then ''UNKNOW'' else name), th_semaphore = 0\<rparr>"

definition Thread_getID :: "'cb Thread \<Rightarrow> i32" where
  "Thread_getID t = th_id t"

definition Thread_getName :: "'cb Thread \<Rightarrow> string" where
  "Thread_getName t = th_name t"

text \<open>A log statement of the file.\<close>

definition thread_log :: "thread_env \<Rightarrow> i32 \<Rightarrow> string \<Rightarrow> ('cb thread_world, unit) comp" where
  "thread_log E line text w =
     (case SYLAR_LOG_LEVEL (te_logger E) ERROR ''sylar/thread.cc'' line text (tw_log w) of (r, l) \<Rightarrow> (r, w\<lparr>tw_log := l\<rparr>))"

text \<open>\<open>pthread_create\<close> returns \<open>rt\<close>; on success it stores the handle \<open>h\<close> and the new thread starts.\<close>

definition Thread_create :: "thread_env \<Rightarrow> string \<Rightarrow> i32 \<Rightarrow> u64 \<Rightarrow> ('cb thread_world, unit) comp" where
  "Thread_create E name rt h =
     (if rt \<noteq> 0 then
        bindc (thread_log E 36 (''pthread_create thread fail, rt='' @ show_int (sint rt) @ '' name='' @ name)) (\<lambda>_.
        raise (Throw (logic_error ''pthread_create error'')))
      else modify (\<lambda>w. w\<lparr>tw_obj := (tw_obj w)\<lparr>th_thread := h\<rparr>, tw_run := Some SetThis\<rparr>))"

text \<open>\<open>m_semaphore.wait()\<close>; \<open>None\<close> while it blocks.\<close>

definition Thread_wait :: "bool \<Rightarrow> 'cb thread_world \<Rightarrow> (unit result \<times> 'cb thread_world) option" where
  "Thread_wait interrupted w =
     map_option (\<lambda>r. case r of Inl e \<Rightarrow> (Inl e, w) | Inr n \<Rightarrow> (Inr (), w\<lparr>tw_obj := (tw_obj w)\<lparr>th_semaphore := n\<rparr>\<rparr>))
       (Semaphore_wait interrupted (th_semaphore (tw_obj w)))"

section \<open>The new thread\<close>

text \<open>One statement of \<open>Thread::run\<close>.\<close>

fun Thread_run :: "thread_env \<Rightarrow> run_pc \<Rightarrow> ('cb thread_world, run_pc) comp" where
  "Thread_run E SetThis w = (Inr SetThreadName, w\<lparr>tw_tls := (tw_tls w)\<lparr>t_thread := True\<rparr>\<rparr>)"
| "Thread_run E SetThreadName w = (Inr SetId, w\<lparr>tw_tls := (tw_tls w)\<lparr>t_thread_name := th_name (tw_obj w)\<rparr>\<rparr>)"
| "Thread_run E SetId w = (Inr SetOsName, w\<lparr>tw_obj := (tw_obj w)\<lparr>th_id := te_tid E\<rparr>\<rparr>)"
| "Thread_run E SetOsName w = (Inr SwapCb, w\<lparr>tw_os_name := c_str (take 15 (th_name (tw_obj w)))\<rparr>)"
| "Thread_run E SwapCb w = (Inr Notify, w\<lparr>tw_cb := th_cb (tw_obj w), tw_obj := (tw_obj w)\<lparr>th_cb := None\<rparr>\<rparr>)"
| "Thread_run E Notify w =
     (case Semaphore_notify (th_semaphore (tw_obj w)) of
        Inl e \<Rightarrow> (Inl e, w)
      | Inr n \<Rightarrow> (Inr CallCb, w\<lparr>tw_obj := (tw_obj w)\<lparr>th_semaphore := n\<rparr>\<rparr>))"
| "Thread_run E CallCb w =
     (case tw_cb w of
        None \<Rightarrow> (Inl (Throw bad_function_call), w)
      | Some cb \<Rightarrow> (Inr InCb, w\<lparr>tw_calls := tw_calls w @ [cb]\<rparr>))"
| "Thread_run E InCb w =
     (case te_call E of
        Returns \<Rightarrow> (Inr Returned, w)
      | Throws e \<Rightarrow> (Inl (Throw e), w)
      | Diverges \<Rightarrow> (Inr InCb, w))"
| "Thread_run E Returned w = (Inr Returned, w)"

section \<open>Joining and destruction\<close>

definition Thread_join :: "thread_env \<Rightarrow> i32 \<Rightarrow> ('cb thread_world, unit) comp" where
  "Thread_join E rt w =
     (if th_thread (tw_obj w) \<noteq> 0 then
        if rt \<noteq> 0 then
          bindc (thread_log E 55 (''pthread_join thread fail, rt='' @ show_int (sint rt) @ '' name='' @ th_name (tw_obj w))) (\<lambda>_.
          raise (Throw (logic_error ''pthread_join error''))) w
        else (Inr (), w\<lparr>tw_obj := (tw_obj w)\<lparr>th_thread := 0\<rparr>\<rparr>)
      else (Inr (), w))"

definition Thread_dtor :: "'cb thread_world \<Rightarrow> 'cb thread_world" where
  "Thread_dtor w = (if th_thread (tw_obj w) \<noteq> 0 then w\<lparr>tw_detached := True\<rparr> else w)"

section \<open>Interleaving\<close>

text \<open>
  \<open>pthread_join\<close> waits for the new thread to return. A signal may interrupt the wait in the constructor. The new thread has no
  further step while a callback runs that never returns, and behind its last statement. An exception that nothing catches in
  \<open>run\<close>, of an empty callback or out of the callback, ends the process with both threads.
\<close>

inductive thread_step :: "thread_env \<Rightarrow> string \<Rightarrow> 'cb thread_world \<Rightarrow> 'cb thread_world \<Rightarrow> bool" for E name where
  create_ok: "tw_parent w = Creating \<Longrightarrow> h \<noteq> 0 \<Longrightarrow> Thread_create E name 0 h w = (Inr (), w') \<Longrightarrow>
     thread_step E name w (w'\<lparr>tw_parent := Waiting\<rparr>)"
| create_fails: "tw_parent w = Creating \<Longrightarrow> rt \<noteq> 0 \<Longrightarrow> Thread_create E name rt h w = (Inl e, w') \<Longrightarrow>
     thread_step E name w (w'\<lparr>tw_parent := Failed e\<rparr>)"
| wait_returns: "tw_parent w = Waiting \<Longrightarrow> Thread_wait False w = Some (Inr (), w') \<Longrightarrow>
     thread_step E name w (w'\<lparr>tw_parent := Constructed\<rparr>)"
| wait_interrupted: "tw_parent w = Waiting \<Longrightarrow> Thread_wait True w = Some (Inl e, w') \<Longrightarrow>
     thread_step E name w (w'\<lparr>tw_parent := Failed e\<rparr>)"
| run: "tw_run w = Some pc \<Longrightarrow> Thread_run E pc w = (Inr pc', w') \<Longrightarrow> pc' \<noteq> pc \<Longrightarrow>
     thread_step E name w (w'\<lparr>tw_run := Some pc'\<rparr>)"
| run_throws: "tw_run w = Some pc \<Longrightarrow> Thread_run E pc w = (Inl e, w') \<Longrightarrow>
     thread_step E name w (w'\<lparr>tw_run := None, tw_parent := Terminated\<rparr>)"
| join: "tw_parent w = Constructed \<Longrightarrow> tw_run w = Some Returned \<Longrightarrow> Thread_join E 0 w = (Inr (), w') \<Longrightarrow>
     thread_step E name w (w'\<lparr>tw_parent := Joined\<rparr>)"

definition thread_init :: "'cb option \<Rightarrow> string \<Rightarrow> 'cb thread_world \<Rightarrow> bool" where
  "thread_init cb name w \<longleftrightarrow>
     tw_obj w = Thread_init cb name \<and> tw_parent w = Creating \<and> tw_run w = None \<and> tw_tls w = tls_new \<and> tw_cb w = None \<and>
     tw_calls w = [] \<and> \<not> tw_detached w"

section \<open>Invariant\<close>

fun rank :: "run_pc \<Rightarrow> nat" where
  "rank SetThis = 0"
| "rank SetThreadName = 1"
| "rank SetId = 2"
| "rank SetOsName = 3"
| "rank SwapCb = 4"
| "rank Notify = 5"
| "rank CallCb = 6"
| "rank InCb = 7"
| "rank Returned = 8"

text \<open>What the new thread has done when it is at \<open>pc\<close>; a token on the semaphore or taken from it stands for \<open>notify\<close>.\<close>

definition run_ok :: "thread_env \<Rightarrow> 'cb option \<Rightarrow> string \<Rightarrow> 'cb thread_world \<Rightarrow> run_pc \<Rightarrow> bool" where
  "run_ok E cb nm w pc \<longleftrightarrow>
     (1 \<le> rank pc \<longrightarrow> t_thread (tw_tls w)) \<and> (2 \<le> rank pc \<longrightarrow> t_thread_name (tw_tls w) = nm) \<and>
     (3 \<le> rank pc \<longrightarrow> th_id (tw_obj w) = te_tid E) \<and> (4 \<le> rank pc \<longrightarrow> tw_os_name w = c_str (take 15 nm)) \<and>
     th_cb (tw_obj w) = (if 5 \<le> rank pc then None else cb) \<and> (5 \<le> rank pc \<longrightarrow> tw_cb w = cb) \<and>
     (if 7 \<le> rank pc then cb \<noteq> None \<and> tw_calls w = [the cb] else tw_calls w = []) \<and> (rank pc = 8 \<longrightarrow> te_call E = Returns) \<and>
     th_semaphore (tw_obj w) + (if tw_parent w = Constructed \<or> tw_parent w = Joined then 1 else 0) = (if 6 \<le> rank pc then 1 else 0) \<and>
     tw_parent w \<noteq> Creating \<and> tw_parent w \<noteq> Terminated \<and> (tw_parent w = Joined \<longrightarrow> pc = Returned) \<and> (th_thread (tw_obj w) = 0 \<longleftrightarrow> tw_parent w = Joined)"

definition thread_inv :: "thread_env \<Rightarrow> 'cb option \<Rightarrow> string \<Rightarrow> 'cb thread_world \<Rightarrow> bool" where
  "thread_inv E cb name w \<longleftrightarrow>
     th_name (tw_obj w) = (if name = [] then ''UNKNOW'' else name) \<and>
     (case tw_run w of
        None \<Rightarrow>
          (if tw_parent w = Terminated
           then (case cb of None \<Rightarrow> tw_calls w = [] | Some f \<Rightarrow> tw_calls w = [f] \<and> (\<exists>e. te_call E = Throws e))
           else (tw_parent w = Creating \<or> (\<exists>e. tw_parent w = Failed e)) \<and> th_semaphore (tw_obj w) = 0 \<and> th_cb (tw_obj w) = cb \<and>
             tw_calls w = [])
      | Some pc \<Rightarrow> run_ok E cb (th_name (tw_obj w)) w pc)"

lemma thread_inv_init: "thread_init cb name w \<Longrightarrow> thread_inv E cb name w"
  by (simp add: thread_init_def thread_inv_def Thread_init_def)

lemma thread_inv_run: "thread_inv E cb name w \<Longrightarrow> tw_run w = Some pc \<Longrightarrow> run_ok E cb (th_name (tw_obj w)) w pc"
  by (auto simp: thread_inv_def)

lemma thread_log_keeps: "thread_log E line text w = (r, w') \<Longrightarrow> \<exists>l. w' = w\<lparr>tw_log := l\<rparr>"
  by (auto simp: thread_log_def split: prod.splits)

lemma create_fails_keeps: "rt \<noteq> 0 \<Longrightarrow> Thread_create E name rt h w = (r, w') \<Longrightarrow> \<exists>l. w' = w\<lparr>tw_log := l\<rparr>"
  by (auto simp: Thread_create_def bindc_def raise_def split: prod.splits sum.splits dest: thread_log_keeps)

lemma run_inv:
  assumes "run_ok E cb (th_name (tw_obj w)) w pc" and "Thread_run E pc w = (Inr pc', w')"
  shows "run_ok E cb (th_name (tw_obj w)) (w'\<lparr>tw_run := Some pc'\<rparr>) pc' \<and> th_name (tw_obj w') = th_name (tw_obj w)"
  using assms
  by (cases pc) (auto simp: run_ok_def Semaphore_notify_def split: if_splits option.splits call_end.splits)

text \<open>Only an empty callback or one that throws makes \<open>run\<close> throw.\<close>

lemma run_throws_inv:
  assumes "run_ok E cb (th_name (tw_obj w)) w pc" and "Thread_run E pc w = (Inl e, w')"
  shows "w' = w \<and> (case cb of None \<Rightarrow> pc = CallCb \<and> tw_calls w = [] | Some f \<Rightarrow> tw_calls w = [f] \<and> (\<exists>x. te_call E = Throws x))"
  using assms
  by (cases pc) (auto simp: run_ok_def Semaphore_notify_def SEM_VALUE_MAX_def split: if_splits option.splits call_end.splits)

lemma thread_inv_step: "thread_step E name w w' \<Longrightarrow> thread_inv E cb name w \<Longrightarrow> thread_inv E cb name w'"
proof (induction rule: thread_step.induct)
  case (create_ok w h w')
  then have w': "w' = w\<lparr>tw_obj := (tw_obj w)\<lparr>th_thread := h\<rparr>, tw_run := Some SetThis\<rparr>"
    by (simp add: Thread_create_def modify_def)
  from create_ok have "tw_run w = None" by (auto simp: thread_inv_def run_ok_def split: option.splits)
  with create_ok w' show ?case by (auto simp: thread_inv_def run_ok_def)
next
  case (create_fails w rt h e w')
  then obtain l where "w' = w\<lparr>tw_log := l\<rparr>" using create_fails_keeps by blast
  moreover from create_fails have "tw_run w = None" by (auto simp: thread_inv_def run_ok_def split: option.splits)
  ultimately show ?case using create_fails by (simp add: thread_inv_def)
next
  case (wait_returns w w')
  then obtain pc where pc: "tw_run w = Some pc" by (auto simp: thread_inv_def split: option.splits)
  from wait_returns have "w' = w\<lparr>tw_obj := (tw_obj w)\<lparr>th_semaphore := th_semaphore (tw_obj w) - 1\<rparr>\<rparr>" "th_semaphore (tw_obj w) \<noteq> 0"
    by (auto simp: Thread_wait_def Semaphore_wait_def split: if_splits)
  with wait_returns pc show ?case by (auto simp: thread_inv_def run_ok_def split: if_splits)
next
  case (wait_interrupted w e w')
  then obtain pc where pc: "tw_run w = Some pc" by (auto simp: thread_inv_def split: option.splits)
  from wait_interrupted have "w' = w" by (auto simp: Thread_wait_def Semaphore_wait_def)
  with wait_interrupted pc show ?case by (auto simp: thread_inv_def run_ok_def)
next
  case (run w pc pc' w')
  then have "run_ok E cb (th_name (tw_obj w)) w pc" by (simp add: thread_inv_run)
  with run run_inv [OF this run.hyps(2)] show ?case by (auto simp: thread_inv_def)
next
  case (run_throws w pc e w')
  then have "run_ok E cb (th_name (tw_obj w)) w pc" by (simp add: thread_inv_run)
  with run_throws run_throws_inv [OF this run_throws.hyps(2)] show ?case by (auto simp: thread_inv_def split: option.splits)
next
  case (join w w')
  then have "w' = w\<lparr>tw_obj := (tw_obj w)\<lparr>th_thread := 0\<rparr>\<rparr>" by (auto simp: Thread_join_def thread_inv_def run_ok_def)
  with join show ?case by (auto simp: thread_inv_def run_ok_def)
qed

interpretation thread_start: transition_system "thread_init cb name" "thread_step E name" "thread_inv E cb name" for E cb name
  by unfold_locales (auto intro: thread_inv_init thread_inv_step)

section \<open>Progress\<close>

lemma run_advances:
  assumes "thread_inv E cb name w" and "tw_run w = Some pc" and "rank pc < 6 \<or> cb \<noteq> None \<and> (pc = CallCb \<or> pc = InCb \<and> te_call E = Returns)"
  shows "\<exists>w' pc'. thread_step E name w w' \<and> tw_run w' = Some pc' \<and> rank pc' = Suc (rank pc) \<and> tw_parent w' = tw_parent w"
proof -
  have ok: "run_ok E cb (th_name (tw_obj w)) w pc" using assms(1,2) by (rule thread_inv_run)
  obtain pc' w1 where r: "Thread_run E pc w = (Inr pc', w1)" "rank pc' = Suc (rank pc)" "tw_parent w1 = tw_parent w"
    using ok assms(3)
    by (cases pc) (auto simp: run_ok_def Semaphore_notify_def SEM_VALUE_MAX_def split: if_splits)
  have "pc' \<noteq> pc" using r(2) by auto
  then have "thread_step E name w (w1\<lparr>tw_run := Some pc'\<rparr>)" using run [OF assms(2) r(1)] by blast
  with r show ?thesis by (intro exI [of _ "w1\<lparr>tw_run := Some pc'\<rparr>"] exI [of _ pc']) simp
qed

lemma run_reaches:
  assumes "thread_inv E cb name w" and "tw_run w = Some pc" and "rank pc \<le> r" and "r \<le> 6 \<or> cb \<noteq> None \<and> (r = 7 \<or> r = 8 \<and> te_call E = Returns)"
  shows "\<exists>w' pc'. (thread_step E name)\<^sup>*\<^sup>* w w' \<and> tw_run w' = Some pc' \<and> rank pc' = r \<and> tw_parent w' = tw_parent w"
  using assms(1-3)
proof (induction "r - rank pc" arbitrary: w pc)
  case 0
  then show ?case by (intro exI [of _ w] exI [of _ pc]) simp
next
  case (Suc x)
  have "rank pc < 6 \<or> cb \<noteq> None \<and> (pc = CallCb \<or> pc = InCb \<and> te_call E = Returns)"
    using Suc.hyps(2) assms(4) by (cases pc) auto
  from run_advances [OF Suc.prems(1,2) this] obtain w1 pc1 where 1: "thread_step E name w w1" "tw_run w1 = Some pc1"
    "rank pc1 = Suc (rank pc)" "tw_parent w1 = tw_parent w" by blast
  have "x = r - rank pc1" "rank pc1 \<le> r" using Suc.hyps(2) 1(3) by arith+
  from Suc.hyps(1) [OF this(1) thread_inv_step [OF 1(1) Suc.prems(1)] 1(2) this(2)] obtain w2 pc2 where
    "(thread_step E name)\<^sup>*\<^sup>* w1 w2" "tw_run w2 = Some pc2" "rank pc2 = r" "tw_parent w2 = tw_parent w1" by auto
  with 1 show ?case by (auto intro: converse_rtranclp_into_rtranclp)
qed

lemma rank_eq: "rank pc = 6 \<longleftrightarrow> pc = CallCb" "rank pc = 7 \<longleftrightarrow> pc = InCb" "rank pc = 8 \<longleftrightarrow> pc = Returned"
  by (cases pc; simp)+

lemma waiting_returns:
  assumes "thread_inv E cb name w" and "tw_parent w = Waiting"
  shows "\<exists>w' pc. (thread_step E name)\<^sup>*\<^sup>* w w' \<and> tw_parent w' = Constructed \<and> tw_run w' = Some pc"
proof -
  from assms obtain pc where pc: "tw_run w = Some pc" by (auto simp: thread_inv_def split: option.splits)
  obtain w1 pc1 where 1: "(thread_step E name)\<^sup>*\<^sup>* w w1" "tw_run w1 = Some pc1" "6 \<le> rank pc1" "tw_parent w1 = Waiting"
  proof (cases "rank pc \<le> 6")
    case True
    from run_reaches [OF assms(1) pc True] assms(2) that show thesis by auto
  next
    case False
    then show thesis using that [of w pc] pc assms(2) by simp
  qed
  have "thread_inv E cb name w1" using thread_start.steps_inv [OF 1(1) assms(1)] .
  then have "th_semaphore (tw_obj w1) = 1" using 1 by (simp add: thread_inv_def run_ok_def)
  then have "Thread_wait False w1 = Some (Inr (), w1\<lparr>tw_obj := (tw_obj w1)\<lparr>th_semaphore := 0\<rparr>\<rparr>)"
    by (simp add: Thread_wait_def Semaphore_wait_def)
  from wait_returns [OF 1(4) this] 1(1,2) show ?thesis
    by (intro exI [of _ "w1\<lparr>tw_obj := (tw_obj w1)\<lparr>th_semaphore := 0\<rparr>, tw_parent := Constructed\<rparr>"] exI [of _ pc1])
      (auto intro: rtranclp.rtrancl_into_rtrancl)
qed

lemma constructed_joins:
  assumes "thread_inv E cb name w" and "tw_parent w = Constructed" and "cb \<noteq> None" and "te_call E = Returns"
  shows "\<exists>w'. (thread_step E name)\<^sup>*\<^sup>* w w' \<and> tw_parent w' = Joined"
proof -
  from assms obtain pc where pc: "tw_run w = Some pc" by (auto simp: thread_inv_def split: option.splits)
  have "rank pc \<le> 8" by (cases pc) simp_all
  from run_reaches [OF assms(1) pc this] assms(2-4) obtain w1 where
    1: "(thread_step E name)\<^sup>*\<^sup>* w w1" "tw_run w1 = Some Returned" "tw_parent w1 = Constructed" by (auto simp: rank_eq)
  have "\<exists>w2. Thread_join E 0 w1 = (Inr (), w2)" by (simp add: Thread_join_def)
  then obtain w2 where "Thread_join E 0 w1 = (Inr (), w2)" ..
  from join [OF 1(3,2) this] 1(1) show ?thesis
    by (intro exI [of _ "w2\<lparr>tw_parent := Joined\<rparr>"]) (auto intro: rtranclp.rtrancl_into_rtrancl)
qed

lemma constructed_ends:
  assumes inv: "thread_inv E cb name w" and par: "tw_parent w = Constructed" and cb: "cb = None \<or> te_call E = Throws e"
  shows "\<exists>w'. (thread_step E name)\<^sup>*\<^sup>* w w' \<and> tw_parent w' = Terminated"
proof -
  from inv par obtain pc where pc: "tw_run w = Some pc" by (auto simp: thread_inv_def split: option.splits)
  have ok: "run_ok E cb (th_name (tw_obj w)) w pc" using inv pc by (rule thread_inv_run)
  let ?r = "if cb = None then 6 else 7 :: nat"
  have "rank pc \<le> ?r" using ok cb by (cases pc) (auto simp: run_ok_def)
  moreover have "?r \<le> 6 \<or> cb \<noteq> None \<and> (?r = 7 \<or> ?r = 8 \<and> te_call E = Returns)" by simp
  ultimately obtain w1 pc1 where
    1: "(thread_step E name)\<^sup>*\<^sup>* w w1" "tw_run w1 = Some pc1" "rank pc1 = ?r"
    using run_reaches [OF inv pc] by blast
  have "run_ok E cb (th_name (tw_obj w1)) w1 pc1" using thread_inv_run [OF thread_start.steps_inv [OF 1(1) inv] 1(2)] .
  then have "\<exists>x. Thread_run E pc1 w1 = (Inl x, w1)"
    using 1(3) cb by (auto simp: rank_eq run_ok_def split: if_splits)
  then obtain x where "Thread_run E pc1 w1 = (Inl x, w1)" ..
  from run_throws [OF 1(2) this] 1(1) show ?thesis
    by (intro exI [of _ "w1\<lparr>tw_run := None, tw_parent := Terminated\<rparr>"]) (auto intro: rtranclp.rtrancl_into_rtrancl)
qed

text \<open>The steps that are left.\<close>

definition thread_left :: "'cb thread_world \<Rightarrow> nat" where
  "thread_left w =
     (case tw_parent w of Creating \<Rightarrow> 3 | Waiting \<Rightarrow> 2 | Constructed \<Rightarrow> 1 | _ \<Rightarrow> 0) +
     (case tw_run w of None \<Rightarrow> if tw_parent w = Terminated then 0 else 8 | Some pc \<Rightarrow> 8 - rank pc)"

lemma run_left: "Thread_run E pc w = (Inr pc', w') \<Longrightarrow> pc' \<noteq> pc \<Longrightarrow> rank pc' = Suc (rank pc) \<and> rank pc < 8 \<and> tw_parent w' = tw_parent w"
  by (cases pc) (auto split: sum.splits option.splits call_end.splits)

lemma thread_step_left: "thread_step E name w w' \<Longrightarrow> thread_inv E cb name w \<Longrightarrow> thread_left w' < thread_left w"
proof (induction rule: thread_step.induct)
  case (create_ok w h w')
  then show ?case by (auto simp: Thread_create_def modify_def thread_left_def thread_inv_def run_ok_def split: option.splits)
next
  case (create_fails w rt h e w')
  then obtain l where "w' = w\<lparr>tw_log := l\<rparr>" using create_fails_keeps by blast
  with create_fails show ?case by (simp add: thread_left_def)
next
  case (wait_returns w w')
  then show ?case by (auto simp: Thread_wait_def Semaphore_wait_def thread_left_def split: if_splits)
next
  case (wait_interrupted w e w')
  then show ?case by (auto simp: Thread_wait_def Semaphore_wait_def thread_left_def)
next
  case (run w pc pc' w')
  with run_left [OF run.hyps(2,3)] show ?case by (auto simp: thread_left_def split: parent_pc.splits)
next
  case (run_throws w pc e w')
  have "rank pc < 8" using run_throws.hyps(2) by (cases pc) simp_all
  with run_throws show ?case by (simp add: thread_left_def)
next
  case (join w w')
  then show ?case by (auto simp: Thread_join_def thread_left_def split: if_splits)
qed

lemma thread_steps_left: "(thread_step E name ^^ x) w w' \<Longrightarrow> thread_inv E cb name w \<Longrightarrow> x + thread_left w' \<le> thread_left w"
proof (induction x arbitrary: w')
  case (Suc x)
  then obtain u where u: "(thread_step E name ^^ x) w u" "thread_step E name u w'" by auto
  have "thread_inv E cb name u" using thread_start.steps_inv relpowp_imp_rtranclp [OF u(1)] Suc.prems(2) by blast
  then show ?case using Suc.IH [OF u(1) Suc.prems(2)] thread_step_left [OF u(2)] by fastforce
qed simp

section \<open>Properties of threads\<close>

definition demo_thread :: "nat thread_world" where
  "demo_thread =
     \<lparr>tw_obj = Thread_init (Some 5) ''worker'', tw_parent = Creating, tw_run = None, tw_tls = tls_new, tw_os_name = [], tw_cb = None,
      tw_calls = [], tw_detached = False, tw_log = start_world\<rparr>"

definition demo_thread_env :: thread_env where
  "demo_thread_env = \<lparr>te_logger = 0, te_tid = 42, te_call = Returns\<rparr>"

lemma demo_thread_reachable:
  "reachable (thread_init (Some 5) ''worker'') (thread_step demo_thread_env ''worker'') demo_thread"
  by (rule reach_init) (simp add: thread_init_def demo_thread_def)

lemma demo_waiting_reachable:
  "reachable (thread_init (Some 5) ''worker'') (thread_step demo_thread_env ''worker'')
     (demo_thread\<lparr>tw_obj := (tw_obj demo_thread)\<lparr>th_thread := 1\<rparr>, tw_run := Some SetThis, tw_parent := Waiting\<rparr>)"
proof -
  have "Thread_create demo_thread_env ''worker'' 0 1 demo_thread =
      (Inr (), demo_thread\<lparr>tw_obj := (tw_obj demo_thread)\<lparr>th_thread := 1\<rparr>, tw_run := Some SetThis\<rparr>)"
    by (simp add: Thread_create_def modify_def)
  from create_ok [OF _ _ this] have "thread_step demo_thread_env ''worker'' demo_thread
      (demo_thread\<lparr>tw_obj := (tw_obj demo_thread)\<lparr>th_thread := 1\<rparr>, tw_run := Some SetThis, tw_parent := Waiting\<rparr>)"
    by (simp add: demo_thread_def)
  with demo_thread_reachable show ?thesis by (rule reach_step)
qed

lemma demo_constructed_reachable:
  "\<exists>w. reachable (thread_init (Some (5 :: nat)) ''worker'') (thread_step demo_thread_env ''worker'') w \<and> tw_parent w = Constructed"
proof -
  let ?w = "demo_thread\<lparr>tw_obj := (tw_obj demo_thread)\<lparr>th_thread := 1\<rparr>, tw_run := Some SetThis, tw_parent := Waiting\<rparr>"
  have "tw_parent ?w = Waiting" by simp
  from waiting_returns [OF thread_start.reach_inv [OF demo_waiting_reachable] this] obtain w where
    "(thread_step demo_thread_env ''worker'')\<^sup>*\<^sup>* ?w w" "tw_parent w = Constructed" by blast
  with thread_start.reach_steps [OF demo_waiting_reachable] show ?thesis by blast
qed

text \<open>C16: whatever the interleaving of the two threads, once the constructor has returned the object has the identifier
  of the new thread, the callback has moved into it, and the thread knows the object and its name: the one given, or
  \<open>UNKNOW\<close> for an empty one, of which the system shows the first 15 characters. The callback is called at most once, and exactly once
  before \<open>join\<close> returns.\<close>

theorem constructed_thread_is_initialised:
  assumes "reachable (thread_init cb name) (thread_step E name) w"
  shows "(tw_parent w = Constructed \<or> tw_parent w = Joined \<longrightarrow>
        Thread_getID (tw_obj w) = te_tid E \<and> th_cb (tw_obj w) = None \<and> Thread_GetThis (tw_tls w) \<and>
        Thread_GetName (tw_tls w) = (if name = [] then ''UNKNOW'' else name) \<and> Thread_getName (tw_obj w) = Thread_GetName (tw_tls w) \<and>
        tw_os_name w = c_str (take 15 (th_name (tw_obj w)))) \<and>
     (tw_calls w = [] \<or> (\<exists>f. cb = Some f \<and> tw_calls w = [f])) \<and>
     (tw_parent w = Joined \<longrightarrow> th_thread (tw_obj w) = 0 \<and> (\<exists>f. cb = Some f \<and> tw_calls w = [f]))"
proof -
  have inv: "thread_inv E cb name w" by (rule thread_start.reach_inv [OF assms])
  show ?thesis
  proof (cases "tw_run w")
    case None
    with inv show ?thesis by (auto simp: thread_inv_def split: if_splits option.splits)
  next
    case (Some pc)
    with inv have ok: "run_ok E cb (th_name (tw_obj w)) w pc" "th_name (tw_obj w) = (if name = [] then ''UNKNOW'' else name)"
      by (auto simp: thread_inv_def)
    have "6 \<le> rank pc" if "tw_parent w = Constructed \<or> tw_parent w = Joined"
      using ok(1) that by (auto simp: run_ok_def split: if_splits)
    with ok show ?thesis by (auto simp: run_ok_def Thread_GetThis_def Thread_GetName_def Thread_getID_def Thread_getName_def split: if_splits)
  qed
qed

theorem constructed_thread_is_initialised_witness:
  "\<exists>w :: nat thread_world. tw_parent w = Constructed \<and> Thread_getID (tw_obj w) = 42 \<and> Thread_GetName (tw_tls w) = ''worker''"
proof -
  obtain w where w: "reachable (thread_init (Some (5 :: nat)) ''worker'') (thread_step demo_thread_env ''worker'') w" "tw_parent w = Constructed"
    using demo_constructed_reachable by blast
  from constructed_thread_is_initialised [OF w(1)] w(2) show ?thesis by (auto simp: demo_thread_env_def)
qed

text \<open>C17: the handshake cannot block for ever: from every state in which the constructor waits, the new thread can go on until the
  constructor returns, whatever the callback. What comes after depends on the callback. With one that returns, \<open>join\<close>
  can return from every state behind the constructor. With an empty one, or one that throws, the new thread can go on until the uncaught
  exception ends the process. And unless the callback returns, \<open>join\<close> never does. The protocol itself takes at most eleven steps, in any order.\<close>

theorem constructor_and_join_return:
  assumes "reachable (thread_init cb name) (thread_step E name) w"
  shows "(tw_parent w = Waiting \<longrightarrow> (\<exists>w'. (thread_step E name)\<^sup>*\<^sup>* w w' \<and> tw_parent w' = Constructed)) \<and>
     (tw_parent w = Constructed \<and> cb \<noteq> None \<and> te_call E = Returns \<longrightarrow> (\<exists>w'. (thread_step E name)\<^sup>*\<^sup>* w w' \<and> tw_parent w' = Joined)) \<and>
     (tw_parent w = Constructed \<and> (cb = None \<or> (\<exists>e. te_call E = Throws e)) \<longrightarrow>
        (\<exists>w'. (thread_step E name)\<^sup>*\<^sup>* w w' \<and> tw_parent w' = Terminated)) \<and>
     (cb = None \<or> te_call E \<noteq> Returns \<longrightarrow> (\<forall>w'. (thread_step E name)\<^sup>*\<^sup>* w w' \<longrightarrow> tw_parent w' \<noteq> Joined)) \<and>
     (\<forall>x w'. (thread_step E name ^^ x) w w' \<longrightarrow> x \<le> 11)"
proof (intro conjI impI allI)
  have inv: "thread_inv E cb name w" by (rule thread_start.reach_inv [OF assms])
  show "\<exists>w'. (thread_step E name)\<^sup>*\<^sup>* w w' \<and> tw_parent w' = Constructed" if "tw_parent w = Waiting"
    using waiting_returns [OF inv that] by blast
  show "\<exists>w'. (thread_step E name)\<^sup>*\<^sup>* w w' \<and> tw_parent w' = Joined" if "tw_parent w = Constructed \<and> cb \<noteq> None \<and> te_call E = Returns"
    using constructed_joins [OF inv] that by blast
  show "\<exists>w'. (thread_step E name)\<^sup>*\<^sup>* w w' \<and> tw_parent w' = Terminated"
    if "tw_parent w = Constructed \<and> (cb = None \<or> (\<exists>e. te_call E = Throws e))"
    using constructed_ends [OF inv] that by blast
  show "tw_parent w' \<noteq> Joined" if "cb = None \<or> te_call E \<noteq> Returns" "(thread_step E name)\<^sup>*\<^sup>* w w'" for w'
  proof
    assume "tw_parent w' = Joined"
    with thread_start.steps_inv [OF that(2) inv] that(1) show False
      by (auto simp: thread_inv_def run_ok_def split: option.splits)
  qed
  show "x \<le> 11" if "(thread_step E name ^^ x) w w'" for x w'
  proof -
    have "thread_left w \<le> 11" by (auto simp: thread_left_def split: parent_pc.splits option.splits)
    then show ?thesis using thread_steps_left [OF that inv] by simp
  qed
qed

theorem constructor_and_join_return_witness:
  "(\<exists>w w' :: nat thread_world. tw_parent w = Waiting \<and> (thread_step demo_thread_env ''worker'')\<^sup>*\<^sup>* w w' \<and> tw_parent w' = Constructed) \<and>
   (\<exists>w w' :: nat thread_world. tw_parent w = Constructed \<and> (thread_step demo_thread_env ''worker'')\<^sup>*\<^sup>* w w' \<and> tw_parent w' = Joined)"
proof
  let ?w = "demo_thread\<lparr>tw_obj := (tw_obj demo_thread)\<lparr>th_thread := 1\<rparr>, tw_run := Some SetThis, tw_parent := Waiting\<rparr>"
  have w: "tw_parent ?w = Waiting" by simp
  from constructor_and_join_return [OF demo_waiting_reachable, THEN conjunct1] w
  show "\<exists>w w' :: nat thread_world. tw_parent w = Waiting \<and> (thread_step demo_thread_env ''worker'')\<^sup>*\<^sup>* w w' \<and> tw_parent w' = Constructed"
    by blast
  obtain w :: "nat thread_world" where
    "reachable (thread_init (Some 5) ''worker'') (thread_step demo_thread_env ''worker'') w" "tw_parent w = Constructed"
    using demo_constructed_reachable by blast
  with constructor_and_join_return [OF this(1), THEN conjunct2, THEN conjunct1]
  show "\<exists>w w' :: nat thread_world. tw_parent w = Constructed \<and> (thread_step demo_thread_env ''worker'')\<^sup>*\<^sup>* w w' \<and> tw_parent w' = Joined"
    by (auto simp: demo_thread_env_def)
qed

end
