(* ===== verification/ThreadLifetime.thy ===== *)
theory ThreadLifetime
  imports Thread
begin

text \<open>
  How long the object of a \<open>Thread\<close> has to live. The new thread works on it through the pointer \<open>thread\<close> of \<open>run\<close> while the
  thread that owns it may destroy it: by the destructor once the constructor has returned, or because the constructor throws.
\<close>

section \<open>Destruction\<close>

text \<open>The statements of \<open>run\<close> that access the object.\<close>

fun touches :: "run_pc \<Rightarrow> bool" where
  "touches SetThis = False"
| "touches CallCb = False"
| "touches InCb = False"
| "touches Returned = False"
| "touches pc = True"

text \<open>The others do the same whatever the object holds, and leave it alone.\<close>

lemma untouched:
  "\<not> touches pc \<Longrightarrow>
     Thread_run E pc (w\<lparr>tw_obj := t\<rparr>) = (case Thread_run E pc w of (r, w') \<Rightarrow> (r, w'\<lparr>tw_obj := t\<rparr>)) \<and>
     tw_obj (snd (Thread_run E pc w)) = tw_obj w"
  by (cases pc) (simp_all split: option.split call_end.split)

text \<open>
  Runs with the destruction of the object, by the state of the two threads and whether the object lives.
  Once it is destroyed a statement that accesses it is undefined, and so has no step. When the constructor throws, the
  members are destroyed but the destructor is not called.
\<close>

inductive life_step :: "thread_env \<Rightarrow> string \<Rightarrow> 'cb thread_world \<times> bool \<Rightarrow> 'cb thread_world \<times> bool \<Rightarrow> bool" for E name where
  life_alive: "thread_step E name w w' \<Longrightarrow> life_step E name (w, True) (w', True)"
| life_destroy: "tw_parent w = Constructed \<or> tw_parent w = Joined \<Longrightarrow> life_step E name (w, True) (Thread_dtor w, False)"
| life_unwind: "tw_parent w = Failed e \<Longrightarrow> life_step E name (w, True) (w, False)"
| life_dead: "tw_run w = Some pc \<Longrightarrow> \<not> touches pc \<Longrightarrow> Thread_run E pc w = (Inr pc', w') \<Longrightarrow> pc' \<noteq> pc \<Longrightarrow>
     life_step E name (w, False) (w'\<lparr>tw_run := Some pc'\<rparr>, False)"
| life_ends: "tw_run w = Some pc \<Longrightarrow> \<not> touches pc \<Longrightarrow> Thread_run E pc w = (Inl e, w') \<Longrightarrow>
     life_step E name (w, False) (w'\<lparr>tw_run := None, tw_parent := Terminated\<rparr>, False)"

definition life_init :: "'cb option \<Rightarrow> string \<Rightarrow> 'cb thread_world \<times> bool \<Rightarrow> bool" where
  "life_init cb name x \<longleftrightarrow> thread_init cb name (fst x) \<and> snd x"

text \<open>An object destroyed after its construction has been left behind by \<open>run\<close>, and nobody has to join the thread any more.\<close>

definition life_inv :: "thread_env \<Rightarrow> 'cb option \<Rightarrow> string \<Rightarrow> 'cb thread_world \<times> bool \<Rightarrow> bool" where
  "life_inv E cb name x \<longleftrightarrow>
     thread_inv E cb name (fst x) \<and>
     (\<not> snd x \<and> (tw_parent (fst x) = Constructed \<or> tw_parent (fst x) = Joined) \<longrightarrow>
        (\<exists>pc. tw_run (fst x) = Some pc \<and> 6 \<le> rank pc) \<and> (th_thread (tw_obj (fst x)) \<noteq> 0 \<longrightarrow> tw_detached (fst x)))"

lemma constructed_past_notify:
  assumes "thread_inv E cb name w" and "tw_parent w = Constructed \<or> tw_parent w = Joined"
  shows "\<exists>pc. tw_run w = Some pc \<and> 6 \<le> rank pc"
  using assms by (auto simp: thread_inv_def run_ok_def split: option.splits if_splits)

lemma past_notify: "6 \<le> rank pc \<Longrightarrow> pc = CallCb \<or> pc = InCb \<or> pc = Returned"
  by (cases pc) simp_all

lemma dtor_inv: "thread_inv E cb name (Thread_dtor w) = thread_inv E cb name w"
  by (simp add: Thread_dtor_def thread_inv_def run_ok_def split: option.split)

lemma run_step_inv:
  assumes "thread_inv E cb name w" and "tw_run w = Some pc" and "Thread_run E pc w = (Inr pc', w')" and "pc' \<noteq> pc"
  shows "thread_inv E cb name (w'\<lparr>tw_run := Some pc'\<rparr>)"
  using thread_inv_step [OF run [OF assms(2-4)] assms(1)] .

lemma run_keeps_owner: "Thread_run E pc w = (r, w') \<Longrightarrow> tw_parent w' = tw_parent w \<and> tw_detached w' = tw_detached w"
  by (cases pc) (auto split: sum.splits option.splits call_end.splits)

lemma life_inv_step: "life_step E name x y \<Longrightarrow> life_inv E cb name x \<Longrightarrow> life_inv E cb name y"
proof (induction rule: life_step.induct)
  case (life_alive w w')
  then show ?case using thread_inv_step [of E name w w' cb] by (simp add: life_inv_def)
next
  case (life_destroy w)
  moreover have "tw_run (Thread_dtor w) = tw_run w" by (simp add: Thread_dtor_def)
  ultimately show ?case using constructed_past_notify [of E cb name w]
    by (simp add: life_inv_def dtor_inv) (simp add: Thread_dtor_def)
next
  case (life_unwind w e)
  then show ?case by (simp add: life_inv_def)
next
  case (life_dead w pc pc' w')
  then have inv: "thread_inv E cb name w" by (simp add: life_inv_def)
  have "tw_obj w' = tw_obj w" using untouched [OF life_dead.hyps(2), where E = E and w = w] life_dead.hyps(3) by simp
  moreover have "6 \<le> rank pc'" if "6 \<le> rank pc" using run_left [OF life_dead.hyps(3,4)] that by simp
  ultimately show ?case
    using life_dead run_step_inv [OF inv life_dead.hyps(1,3,4)] run_keeps_owner [OF life_dead.hyps(3)] by (auto simp: life_inv_def)
next
  case (life_ends w pc e w')
  then have "thread_inv E cb name (w'\<lparr>tw_run := None, tw_parent := Terminated\<rparr>)"
    using thread_inv_step [OF run_throws [OF life_ends.hyps(1,3)]] by (simp add: life_inv_def)
  then show ?case by (simp add: life_inv_def)
qed

interpretation thread_life: transition_system "life_init cb name" "life_step E name" "life_inv E cb name" for E cb name
proof
  show "life_init cb name x \<Longrightarrow> life_inv E cb name x" for x
    by (simp add: life_init_def life_inv_def thread_inv_init)
qed (rule life_inv_step)

text \<open>The run in which the wait of the constructor is interrupted just after the start of the new thread.\<close>

lemma interrupted_constructor:
  assumes init: "thread_init cb name w0"
  shows "\<exists>w pc. (life_step E name)\<^sup>*\<^sup>* (w0, True) (w, False) \<and> tw_run w = Some pc \<and> touches pc \<and>
     tw_parent w = Failed (Throw (logic_error ''sem_wait error'')) \<and> \<not> tw_detached w"
proof -
  let ?w1 = "w0\<lparr>tw_obj := (tw_obj w0)\<lparr>th_thread := 1\<rparr>, tw_run := Some SetThis\<rparr>"
  let ?w2 = "?w1\<lparr>tw_parent := Waiting\<rparr>" let ?e = "Throw (logic_error ''sem_wait error'')"
  let ?w3 = "?w2\<lparr>tw_tls := (tw_tls ?w2)\<lparr>t_thread := True\<rparr>, tw_run := Some SetThreadName\<rparr>" let ?w4 = "?w3\<lparr>tw_parent := Failed ?e\<rparr>"
  have "thread_step E name w0 ?w2"
    by (rule create_ok [of w0 1]) (use init in \<open>simp_all add: thread_init_def Thread_create_def modify_apply\<close>)
  moreover have "thread_step E name ?w2 ?w3"
    using run [of ?w2 SetThis E SetThreadName "?w2\<lparr>tw_tls := (tw_tls ?w2)\<lparr>t_thread := True\<rparr>\<rparr>"] by simp
  moreover have "thread_step E name ?w3 ?w4"
    by (rule wait_interrupted) (simp_all add: Thread_wait_def Semaphore_wait_def)
  moreover have "life_step E name (?w4, True) (?w4, False)" by (rule life_unwind) simp
  ultimately have "(life_step E name)\<^sup>*\<^sup>* (w0, True) (?w4, False)"
    by (meson life_alive converse_rtranclp_into_rtranclp rtranclp.rtrancl_refl)
  moreover have "\<not> tw_detached ?w4" using init by (simp add: thread_init_def)
  ultimately show ?thesis
    by (intro exI [of _ ?w4] exI [of _ SetThreadName]) simp
qed

text \<open>The callback after the destruction.\<close>

lemma callback_after_destruction:
  assumes pc: "tw_run w = Some pc" and ok: "run_ok E cb (th_name (tw_obj w)) w pc"
    and last: "pc = CallCb \<or> pc = InCb \<or> pc = Returned" and f: "cb = Some f"
  shows "\<exists>v. (life_step E name)\<^sup>*\<^sup>* (w, False) (v, False) \<and> tw_calls v = [f] \<and> (te_call E = Returns \<longrightarrow> tw_run v = Some Returned)"
proof -
  have ends: "\<exists>v. (life_step E name)\<^sup>*\<^sup>* (u, False) (v, False) \<and> tw_calls v = [f] \<and> (te_call E = Returns \<longrightarrow> tw_run v = Some Returned)"
    if u: "tw_run u = Some InCb" "tw_calls u = [f]" for u
  proof (cases "te_call E = Returns")
    case True
    have "life_step E name (u, False) (u\<lparr>tw_run := Some Returned\<rparr>, False)"
      by (rule life_dead [of _ InCb]) (use u True in simp_all)
    with u(2) show ?thesis by (intro exI [of _ "u\<lparr>tw_run := Some Returned\<rparr>"]) (simp add: r_into_rtranclp)
  qed (use u in blast)
  from last show ?thesis
  proof (elim disjE)
    assume c: "pc = CallCb"
    with ok f have cb: "tw_cb w = Some f" "tw_calls w = []" by (simp_all add: run_ok_def)
    let ?u = "w\<lparr>tw_calls := tw_calls w @ [f]\<rparr>\<lparr>tw_run := Some InCb\<rparr>"
    have "life_step E name (w, False) (?u, False)"
      by (rule life_dead [of _ CallCb]) (use pc c cb in simp_all)
    moreover have "tw_run ?u = Some InCb" "tw_calls ?u = [f]" using cb(2) by simp_all
    ultimately show ?thesis using ends by (meson converse_rtranclp_into_rtranclp)
  next
    assume "pc = InCb"
    with ok f pc show ?thesis using ends [of w] by (simp add: run_ok_def)
  next
    assume "pc = Returned"
    with ok f pc show ?thesis by (intro exI [of _ w]) (simp add: run_ok_def)
  qed
qed

section \<open>Property\<close>

text \<open>C18: destroying a \<open>Thread\<close>. When its constructor has returned, the object may be destroyed at any time, joined or not: the new
  thread never accesses it again, is detached if it was not joined, and still calls its callback, to the end if the callback returns. But \<open>GetThis\<close> keeps
  returning the pointer to the destroyed object, so \<open>SetName\<close> in the callback writes to it. And if a signal interrupts the wait in the
  constructor, the object is destroyed while the thread is about to access it, and nobody joins or detaches the thread.\<close>

theorem thread_object_lifetime:
  assumes init: "thread_init cb name w0"
  shows "(\<forall>w. (life_step E name)\<^sup>*\<^sup>* (w0, True) (w, False) \<longrightarrow> tw_parent w = Constructed \<or> tw_parent w = Joined \<longrightarrow>
        (\<exists>pc. tw_run w = Some pc \<and> \<not> touches pc) \<and> (th_thread (tw_obj w) \<noteq> 0 \<longrightarrow> tw_detached w) \<and>
        Thread_GetThis (tw_tls w) \<and>
        (\<forall>f. cb = Some f \<longrightarrow>
          (\<exists>v. (life_step E name)\<^sup>*\<^sup>* (w, False) (v, False) \<and> tw_calls v = [f] \<and>
             (te_call E = Returns \<longrightarrow> tw_run v = Some Returned)))) \<and>
     (\<exists>w pc. (life_step E name)\<^sup>*\<^sup>* (w0, True) (w, False) \<and> tw_run w = Some pc \<and> touches pc \<and>
        tw_parent w = Failed (Throw (logic_error ''sem_wait error'')) \<and> \<not> tw_detached w)"
proof (intro conjI allI impI)
  fix w assume run: "(life_step E name)\<^sup>*\<^sup>* (w0, True) (w, False)" and p: "tw_parent w = Constructed \<or> tw_parent w = Joined"
  have "life_init cb name (w0, True)" using init by (simp add: life_init_def)
  then have inv: "life_inv E cb name (w, False)" by (rule thread_life.reach_inv [OF thread_life.reach_steps [OF reach_init run]])
  then obtain pc where pc: "tw_run w = Some pc" "6 \<le> rank pc" and th: "thread_inv E cb name w"
    and det: "th_thread (tw_obj w) \<noteq> 0 \<longrightarrow> tw_detached w" using p by (auto simp: life_inv_def)
  have last2: "pc = CallCb \<or> pc = InCb \<or> pc = Returned" using pc(2) by (rule past_notify)
  have ok: "run_ok E cb (th_name (tw_obj w)) w pc" using th pc(1) by (rule thread_inv_run)
  show "\<exists>pc. tw_run w = Some pc \<and> \<not> touches pc" using pc(1) last2 by auto
  show "tw_detached w" if "th_thread (tw_obj w) \<noteq> 0" using det that ..
  show "Thread_GetThis (tw_tls w)" using ok pc(2) by (simp add: run_ok_def Thread_GetThis_def)
  fix f assume f: "cb = Some f"
  show "\<exists>v. (life_step E name)\<^sup>*\<^sup>* (w, False) (v, False) \<and> tw_calls v = [f] \<and> (te_call E = Returns \<longrightarrow> tw_run v = Some Returned)"
    using callback_after_destruction [OF pc(1) ok last2 f] .
next
  show "\<exists>w pc. (life_step E name)\<^sup>*\<^sup>* (w0, True) (w, False) \<and> tw_run w = Some pc \<and> touches pc \<and>
      tw_parent w = Failed (Throw (logic_error ''sem_wait error'')) \<and> \<not> tw_detached w"
    by (rule interrupted_constructor [OF init])
qed

theorem thread_object_lifetime_witness:
  "\<exists>w pc. (life_step demo_thread_env ''worker'')\<^sup>*\<^sup>* (demo_thread, True) (w, False) \<and> tw_run w = Some pc \<and> touches pc"
proof -
  have "thread_init (Some 5) ''worker'' demo_thread" by (simp add: thread_init_def demo_thread_def)
  from thread_object_lifetime [OF this, of demo_thread_env] show ?thesis by blast
qed

end
