(* ===== verification/Assertions.thy ===== *)
theory Assertions
  imports Util LogProperties
begin

text \<open>
  What a failed assertion leaves behind: the record with the stack trace that the root logger shows, and the
  end of the process. The frames of \<open>Backtrace\<close> itself are left out of the trace.
\<close>

section \<open>The trace\<close>

definition record_at :: "'z log_world_scheme \<Rightarrow> addr \<Rightarrow> Level \<Rightarrow> string \<Rightarrow> i32 \<Rightarrow> string \<Rightarrow> string" where
  "record_at s l level path line msg = log_shown s l level (LogEvent_getSS_put msg (new_event l level path line s))"

lemma record_at_frame: "log_frame s t \<Longrightarrow> record_at t l level path line msg = record_at s l level path line msg"
  by (simp add: record_at_def log_shown_frame new_event_def) (simp add: log_frame_def)

lemma log_at_shown:
  assumes "log_ok s" and "logger_at s l \<noteq> None"
  shows "\<exists>t. SYLAR_LOG_LEVEL l level path line msg s = (Inr (), t) \<and> w_cout t = w_cout s @ record_at s l level path line msg \<and> log_frame s t"
proof -
  have "wf_log s" "w_held s = {}" "dates_ok s" using assms(1) by (simp_all add: log_ok_def log_inv_def)
  from SYLAR_LOG_LEVEL_shown [OF this assms(2)] show ?thesis unfolding record_at_def .
qed

text \<open>The lines of a trace, and what computing it writes when there are no names for the frames.\<close>

definition trace_text :: "(i32 \<Rightarrow> string list option) \<Rightarrow> i32 \<Rightarrow> i32 \<Rightarrow> string \<Rightarrow> string" where
  "trace_text symbols n skip prefix =
     concat (map (\<lambda>b. prefix @ b @ newline) (case symbols n of None \<Rightarrow> [] | Some strings \<Rightarrow> drop (unat (scast skip :: u64)) strings))"

definition trace_error :: "'z log_world_scheme \<Rightarrow> (i32 \<Rightarrow> string list option) \<Rightarrow> addr \<Rightarrow> i32 \<Rightarrow> string" where
  "trace_error s symbols g n =
     (if symbols n = None then record_at s g ERROR ''sylar/util.cc'' 25 ''backtrace_symbols error'' else [])"

lemma BacktraceToString_shown:
  assumes "log_ok s" and "logger_at s g \<noteq> None"
  shows "\<exists>t. BacktraceToString symbols g n skip prefix s = (Inr (trace_text symbols n skip prefix), t) \<and>
     w_cout t = w_cout s @ trace_error s symbols g n \<and> log_frame s t"
proof (cases "symbols n")
  case None
  with log_at_shown [OF assms, of ERROR "''sylar/util.cc''" 25 "''backtrace_symbols error''"] show ?thesis
    by (auto simp: BacktraceToString_def Backtrace_def bindc_Inr ret_apply trace_text_def trace_error_def)
next
  case (Some strings)
  then show ?thesis
    by (simp add: BacktraceToString_def Backtrace_def bindc_Inr ret_apply push_strings_drop print_lines_concat
        trace_text_def trace_error_def)
qed

section \<open>Failed assertions\<close>

definition assertion_text :: "(i32 \<Rightarrow> string list option) \<Rightarrow> string \<Rightarrow> string" where
  "assertion_text symbols x = ''ASSERTION: '' @ x @ newline @ ''backtrace:'' @ newline @ trace_text symbols 100 2 ''    ''"

lemma assertion_failed_shown:
  assumes "log_ok s" and "logger_at s g \<noteq> None"
  shows "\<exists>t root. logger_at s (w_root s) = Some root \<and>
     assertion_failed symbols g path line x w s = (Inl (Abort x), t) \<and> log_frame s t \<and>
     w_cout t = w_cout s @
       (if lg_level root \<le> ERROR
        then trace_error s symbols g 100 @ record_at s (w_root s) ERROR path line (assertion_text symbols (x @ w)) else [])"
proof -
  obtain root where root: "logger_at s (w_root s) = Some root"
    using assms(1) by (auto simp: log_ok_def log_inv_def wf_log_def)
  show ?thesis
  proof (cases "lg_level root \<le> ERROR")
    case True
    obtain t where t: "BacktraceToString symbols g 100 2 ''    '' s = (Inr (trace_text symbols 100 2 ''    ''), t)"
      "w_cout t = w_cout s @ trace_error s symbols g 100" "log_frame s t"
      using BacktraceToString_shown [OF assms] by blast
    have "logger_at t (w_root s) \<noteq> None" using log_frame_logger_at [OF t(3)] root by simp
    from log_at_shown [OF log_ok_frame [OF t(3) assms(1)] this, of ERROR path line "assertion_text symbols (x @ w)"] obtain u where
      "SYLAR_LOG_LEVEL (w_root s) ERROR path line (assertion_text symbols (x @ w)) t = (Inr (), u)" "log_frame t u"
      "w_cout u = w_cout t @ record_at s (w_root s) ERROR path line (assertion_text symbols (x @ w))"
      using record_at_frame [OF t(3)] by auto
    with t root True show ?thesis
      by (auto simp: assertion_failed_def LoggerManager_getRoot_def Logger_getLevel_def op_simps raise_apply assertion_text_def
          intro: log_frame_trans)
  next
    case False
    with root show ?thesis
      by (auto simp: assertion_failed_def LoggerManager_getRoot_def Logger_getLevel_def op_simps raise_apply)
  qed
qed

text \<open>C27: an assertion that holds does nothing. One that fails ends the process with its condition, on every reachable state of
  the logging system; before, unless the root logger is set above \<open>ERROR\<close>, the root logger shows one record with the condition, the
  text of \<open>SYLAR_ASSERT2\<close> and the stack trace without its first two frames; when the frames have no names the trace is
  empty and the logger of \<open>util.cc\<close> reports it. Nothing but the output changes.\<close>

theorem failed_assertion_reports:
  assumes "reachable log_init log_step s" and "dates_ok s" and "logger_at s g \<noteq> None"
  shows "SYLAR_ASSERT2 symbols g path line True x w s = (Inr (), s) \<and>
     (\<exists>t root. logger_at s (w_root s) = Some root \<and>
        SYLAR_ASSERT2 symbols g path line False x w s = (Inl (Abort x), t) \<and> log_frame s t \<and>
        w_cout t = w_cout s @
          (if lg_level root \<le> ERROR
           then trace_error s symbols g 100 @
             record_at s (w_root s) ERROR path line (assertion_text symbols (x @ newline @ w)) else [])) \<and>
     (\<exists>t root. logger_at s (w_root s) = Some root \<and>
        SYLAR_ASSERT symbols g path line False x s = (Inl (Abort x), t) \<and> log_frame s t \<and>
        w_cout t = w_cout s @
          (if lg_level root \<le> ERROR
           then trace_error s symbols g 100 @ record_at s (w_root s) ERROR path line (assertion_text symbols x) else []))"
proof -
  have ok: "log_ok s" using logging.reach_inv [OF assms(1)] assms(2) by (simp add: log_ok_def)
  from assertion_failed_shown [OF ok assms(3), of symbols path line x "newline @ w"]
    assertion_failed_shown [OF ok assms(3), of symbols path line x "[]", unfolded append_Nil2]
  show ?thesis by (simp add: SYLAR_ASSERT2_def SYLAR_ASSERT_def ret_apply split del: if_split)
qed

lemma demo_record:
  "record_at start_world 0 ERROR path line msg =
     ''now'' @ tab @ ''7'' @ tab @ ''main'' @ tab @ ''0'' @ tab @ ''[ERROR]'' @ tab @ ''[root]'' @ tab @ path @ '':'' @ show_int (sint line) @ tab @
     msg @ newline"
  by (simp add: record_at_def log_shown_def own_shown_def logger_at_def fresh_logger_def
      shown_def appender_at_def console_appender_def record_text_def LogFormatter_format_def default_formatter_def console_text_def
      new_event_def LogEvent_new_def LogEvent_getSS_put_def logger_name_def show_nat.simps show_int_def Level_order digit_chars)

text \<open>The assertion of \<open>src/tests/test_util.cc\<close>, with a stack of four frames.\<close>

theorem failed_assertion_reports_witness:
  "\<exists>t. SYLAR_ASSERT2 (\<lambda>n. Some [''backtrace'', ''tostring'', ''test_assert'', ''main'']) 0 ''tests/test_util.cc'' 8 False ''0 == 1'' ''abcdef xx''
        start_world = (Inl (Abort ''0 == 1''), t) \<and>
     w_cout t = ''now'' @ tab @ ''7'' @ tab @ ''main'' @ tab @ ''0'' @ tab @ ''[ERROR]'' @ tab @ ''[root]'' @ tab @ ''tests/test_util.cc:8'' @ tab @
       ''ASSERTION: 0 == 1'' @ newline @ ''abcdef xx'' @ newline @ ''backtrace:'' @ newline @
       ''    test_assert'' @ newline @ ''    main'' @ newline @ newline"
proof -
  let ?b = "\<lambda>n :: i32. Some [''backtrace'', ''tostring'', ''test_assert'', ''main'']"
  have "dates_ok start_world" "logger_at start_world 0 \<noteq> None" by (simp_all add: dates_ok_def logger_at_def)
  from failed_assertion_reports [OF start_world_reachable this, of ?b "''tests/test_util.cc''" 8 "''0 == 1''" "''abcdef xx''"] obtain t root where
    "logger_at start_world (w_root start_world) = Some root"
    "SYLAR_ASSERT2 ?b 0 ''tests/test_util.cc'' 8 False ''0 == 1'' ''abcdef xx'' start_world = (Inl (Abort ''0 == 1''), t)"
    "w_cout t = w_cout start_world @
          (if lg_level root \<le> ERROR
           then trace_error start_world ?b 0 100 @
             record_at start_world (w_root start_world) ERROR ''tests/test_util.cc'' 8 (assertion_text ?b (''0 == 1'' @ newline @ ''abcdef xx'')) else [])"
    by blast
  moreover have "unat (scast (2 :: i32) :: u64) = 2" "show_int 8 = ''8''" by (simp_all add: show_int_def show_nat.simps digit_chars)
  ultimately show ?thesis
    by (auto simp: trace_error_def demo_record assertion_text_def trace_text_def logger_at_def fresh_logger_def Level_order numeral_2_eq_2)
qed

end
