(* ===== verification/FiberLogging.thy ===== *)
theory FiberLogging
  imports FiberProperties Thread
begin

text \<open>
  Fibers and the logging system together: what a log statement inside a fiber shows, and the program
  \<open>src/tests/test_fiber.cc\<close> run from the start of its thread to the end, with all it writes on the console.
\<close>

section \<open>A log statement in a fiber\<close>

text \<open>C33: a log statement that the thread or a callback executes returns, whatever fiber runs: the console gets exactly what the root
  logger shows for an event that carries the identifier of the running fiber, cut to 32 bits, or 0 when
  the thread has no fibers yet. The logging system is left as a log statement on the root logger with that identifier
  leaves it, with every logger, level, formatter, appender and registration as before: only the output and the state of the
  streams change. No fiber, pointer or identifier changes, and the code goes on behind the statement.\<close>

theorem log_in_fiber:
  assumes "reachable (fiber_init E) (fiber_step E) s" and "fw_code s = Act (LogRoot level path line msg) # k"
  shows "\<exists>l' fid. fiber_exec E s = (Inr (), s\<lparr>fw_code := k, fw_log := l'\<rparr>) \<and>
     (case t_fiber s of
        None \<Rightarrow> fid = 0
      | Some i \<Rightarrow> \<exists>f. fiber_at s i = Some f \<and> fid = ucast (Fiber_getID f)) \<and>
     w_cout l' = w_cout (fw_log s) @
       log_shown (fw_log s) (w_root (fw_log s)) level
         (LogEvent_getSS_put msg (LogEvent_new (w_root (fw_log s)) level path line 0 (w_tid (fw_log s)) fid
            (w_clock (fw_log s)) (w_tname (fw_log s)))) \<and>
     log_root level path line msg ((fw_log s)\<lparr>w_fid := fid\<rparr>) = (Inr (), l') \<and> log_frame ((fw_log s)\<lparr>w_fid := fid\<rparr>) l'"
proof -
  obtain fs n c tf tt hs l where s: "s = W fs n c tf tt hs (Act (LogRoot level path line msg) # k) l"
    using assms(2) by (cases s) auto
  have "flog_ok E l" and live: "this_live fs tf" using fibers.reach_inv [OF assms(1)] s by (simp_all add: inv_W)
  from LogRoot_logs [OF live this(1), of level path line msg n c tt hs k] obtain l' where
    "fiber_exec E s = (Inr (), W fs n c tf tt hs k l')" "wrote E [(fid_of fs tf, w_root l, level, path, line, msg)] l l'"
    "log_root level path line msg (l\<lparr>w_fid := fid_of fs tf\<rparr>) = (Inr (), l')" "log_frame (l\<lparr>w_fid := fid_of fs tf\<rparr>) l'"
    by (auto simp: fiber_exec_def s)
  with s live show ?thesis
    by (intro exI [of _ l'] exI [of _ "fid_of fs tf"]) (auto simp: wrote_def fid_of_def this_live_def Fiber_getID_def split: option.splits)
qed

theorem log_in_fiber_witness:
  "\<exists>l'. fiber_exec demo_env (demo_start [LogRoot INFO ''a.cc'' 3 ''hello'']) =
      (Inr (), demo_start []\<lparr>fw_log := l'\<rparr>) \<and>
     w_cout l' = log_shown start_world 0 INFO (LogEvent_getSS_put ''hello'' (LogEvent_new 0 INFO ''a.cc'' 3 0 7 0 1000 ''main''))"
  using log_in_fiber [OF demo_reachable [of "[LogRoot INFO ''a.cc'' 3 ''hello'']"], of INFO "''a.cc''" 3 "''hello''" "[]"]
  by (auto simp: thread_action_def demo_start_def)

section \<open>Executions and what they write\<close>

text \<open>
  \<open>goes E r es x y\<close>: from the state \<open>x\<close> the thread gets to the state \<open>y\<close>, both given up to the logging system,
  and writes the records \<open>es\<close> on the way; \<open>r\<close> is the root logger.
\<close>

definition goes ::
    "fiber_env \<Rightarrow> addr \<Rightarrow> record_entry list \<Rightarrow> (log_world \<Rightarrow> fiber_world) \<Rightarrow> (log_world \<Rightarrow> fiber_world) \<Rightarrow> bool" where
  "goes E r es x y \<longleftrightarrow>
     (\<forall>l. flog_ok E l \<longrightarrow> w_root l = r \<longrightarrow> (\<exists>l'. (fiber_step E)\<^sup>*\<^sup>* (x l) (y l') \<and> wrote E es l l'))"

lemma goes_trans [trans]: "goes E r es x y \<Longrightarrow> goes E r es' y z \<Longrightarrow> goes E r (es @ es') x z"
  unfolding goes_def by (metis rtranclp_trans wrote_append wrote_ok wrote_root)

lemma goes_silent: "(\<And>l. fiber_step E (x l) (y l)) \<Longrightarrow> goes E r [] x y"
  unfolding goes_def using wrote_nil by blast

lemma goes_step:
  "(\<And>l. flog_ok E l \<Longrightarrow> w_root l = r \<Longrightarrow> \<exists>l'. fiber_step E (x l) (y l') \<and> wrote E es l l') \<Longrightarrow> goes E r es x y"
  unfolding goes_def by blast

section \<open>A thread with one fiber\<close>

definition mainf :: "frame list option \<Rightarrow> Fiber" where
  "mainf cx = main_fiber 1\<lparr>fb_ctx := cx\<rparr>"

text \<open>The thread runs, and the fiber runs.\<close>

definition T :: "frame list option \<Rightarrow> Fiber \<Rightarrow> frame list \<Rightarrow> log_world \<Rightarrow> fiber_world" where
  "T cx f k l = W [Some (mainf cx), Some f] 1 2 (Some 0) (Some 0) [1] k l"

definition R :: "frame list option \<Rightarrow> Fiber \<Rightarrow> frame list \<Rightarrow> log_world \<Rightarrow> fiber_world" where
  "R cx f k l = W [Some (mainf cx), Some f] 1 2 (Some 1) (Some 0) [1] k l"

lemma LogRoot_goes:
  assumes "fenv_ok E" and "this_live fs tf"
  shows "goes E r [(fid_of fs tf, r, level, path, line, msg)]
     (\<lambda>l. W fs n c tf tt hs (Act (LogRoot level path line msg) # k) l) (\<lambda>l. W fs n c tf tt hs k l)"
proof (rule goes_step)
  fix l assume "flog_ok E l" "w_root l = r"
  with LogRoot_wrote [OF assms(2), of E l level path line msg n c tt hs k] obtain l' where
    "exec_action E (LogRoot level path line msg) (W fs n c tf tt hs k l) = (Inr (), W fs n c tf tt hs k l')"
    "wrote E [(fid_of fs tf, r, level, path, line, msg)] l l'" by auto
  then show "\<exists>l'. fiber_step E (W fs n c tf tt hs (Act (LogRoot level path line msg) # k) l) (W fs n c tf tt hs k l') \<and>
      wrote E [(fid_of fs tf, r, level, path, line, msg)] l l'"
    using step_W [OF assms(1)] by (metis exec_frame.simps(1))
qed

lemma T_log:
  assumes "fenv_ok E"
  shows "goes E r [(0, r, level, path, line, msg)] (T cx f (Act (LogRoot level path line msg) # k)) (T cx f k)"
  using LogRoot_goes [OF assms, of "[Some (mainf cx), Some f]" "Some 0" r level path line msg 1 2 "Some 0" "[1]" k]
  by (simp add: T_def [abs_def] this_live_def fid_of_def at_demo mainf_def main_fiber_def)

lemma R_log:
  assumes "fenv_ok E"
  shows "goes E r [(ucast (fb_id f), r, level, path, line, msg)] (R cx f (Act (LogRoot level path line msg) # k)) (R cx f k)"
  using LogRoot_goes [OF assms, of "[Some (mainf cx), Some f]" "Some 1" r level path line msg 1 2 "Some 0" "[1]" k]
  by (simp add: R_def [abs_def] this_live_def fid_of_def at_demo)

lemma T_swapIn:
  assumes "fenv_ok E" and "fb_state f \<noteq> EXEC" and "fb_ctx f = Some kf"
  shows "goes E r [] (T cx f (Act (SwapIn 1) # k)) (R (Some k) (f\<lparr>fb_state := EXEC\<rparr>) kf)"
  unfolding T_def R_def
  by (rule goes_silent, rule step_W [OF assms(1)])
    (use swapIn_W [OF assms(1), of "[Some (mainf cx), Some f]" 0 "mainf cx" 1 f kf] assms(2,3) in
      \<open>simp add: with_handle_def at_demo mainf_def\<close>)

lemma R_start:
  assumes "fenv_ok E" and "fb_cb f = Some acts"
  shows "goes E r [] (R cx f [MainFunc]) (R cx (f\<lparr>fb_use := fb_use f + 1\<rparr>) (map Act acts @ [AfterCb 1]))"
  unfolding R_def
  by (rule goes_silent, rule step_W [OF assms(1)])
    (use assms(2) in \<open>simp add: MainFunc_call_def GetThis_Some [of _ _ f] comp_simps at_demo\<close>)

lemma R_yield:
  assumes "fenv_ok E"
  shows "goes E r [] (R (Some k') f (Act CallYieldToHold # k))
     (T (Some k') (f\<lparr>fb_use := fb_use f + 1, fb_state := HOLD, fb_ctx := Some (EndYield 1 # k)\<rparr>) k')"
  unfolding T_def R_def
  by (rule goes_silent, rule step_W [OF assms])
    (use yield_child [OF assms, of "[Some (mainf (Some k')), Some f]" 0 "mainf (Some k')" 1 f k'] in
      \<open>simp add: Fiber_YieldToHold_def at_demo mainf_def\<close>)

lemma R_EndYield:
  assumes "fenv_ok E" and "1 < fb_use f"
  shows "goes E r [] (R cx f (EndYield 1 # k)) (R cx (f\<lparr>fb_use := fb_use f - 1\<rparr>) k)"
  unfolding R_def
  by (rule goes_silent, rule step_W [OF assms(1)])
    (use release_keeps [of "[Some (mainf cx), Some f]" 1 f] assms(2) in \<open>simp add: at_demo\<close>)

lemma R_return:
  assumes "fenv_ok E" and "1 < fb_use f"
  shows "goes E r [] (R (Some k') f [AfterCb 1])
     (T (Some k') (f\<lparr>fb_cb := None, fb_state := TERM', fb_use := fb_use f - 1, fb_ctx := Some [NeverReach]\<rparr>) k')"
  unfolding T_def R_def
  by (rule goes_silent, rule step_W [OF assms(1)])
    (use return_W [OF assms(1), of "[Some (mainf (Some k')), Some f]" 0 "mainf (Some k')" 1 f k'] assms(2) in
      \<open>simp add: at_demo mainf_def\<close>)

lemma T_resume:
  assumes "fenv_ok E" and "fb_state f \<noteq> EXEC" and "fb_ctx f = Some (EndYield 1 # kf)" and "1 < fb_use f"
  shows "goes E r [] (T cx f (Act (SwapIn 1) # k)) (R (Some k) (f\<lparr>fb_state := EXEC, fb_use := fb_use f - 1\<rparr>) kf)"
  using goes_trans [OF T_swapIn [OF assms(1-3)] R_EndYield [OF assms(1)]] assms(4) by simp

section \<open>The start and the end of the thread\<close>

lemma GetThis_goes:
  assumes "fenv_ok E"
  shows "goes E r [(0, fe_logger E, DEBUG, ''sylar/fiber.cc'', 51, ''Fiber::Fiber'')]
     (\<lambda>l. W [] n c None None [] (Act CallGetThis # k) l) (\<lambda>l. W [Some (mainf None)] n (c + 1) (Some 0) (Some 0) [] k l)"
proof (rule goes_step)
  fix l assume "flog_ok E l"
  from GetThis_None_wrote [OF assms this, of "[]" n c "[]" k] obtain l' where
    l': "Fiber_GetThis E (W [] n c None None [] k l) = (Inr 0, W [Some (main_fiber 2)] n (c + 1) (Some 0) (Some 0) [] k l')"
    "wrote E [(0, fe_logger E, DEBUG, ''sylar/fiber.cc'', 51, ''Fiber::Fiber'')] l l'" by auto
  then have "exec_frame E (Act CallGetThis) (W [] n c None None [] k l) =
      (Inr (), W [Some (mainf None)] n (c + 1) (Some 0) (Some 0) [] k l')"
    using release_keeps [of "[Some (main_fiber 2)]" 0 "main_fiber 2"]
    by (simp add: comp_simps at_def mainf_def main_fiber_def)
  with l'(2) show "\<exists>l'. fiber_step E (W [] n c None None [] (Act CallGetThis # k) l) (W [Some (mainf None)] n (c + 1) (Some 0) (Some 0) [] k l') \<and>
      wrote E [(0, fe_logger E, DEBUG, ''sylar/fiber.cc'', 51, ''Fiber::Fiber'')] l l'"
    using step_W [OF assms] by blast
qed

lemma NewFiber_goes:
  assumes "fenv_ok E"
  shows "goes E r [(0, fe_logger E, DEBUG, ''sylar/fiber.cc'', 72, ''Fiber::Fiber id=1'')]
     (\<lambda>l. W [Some (mainf None)] 0 1 (Some 0) (Some 0) [] (Act (NewFiber cb 0) # k) l) (T None (fresh_fiber E 1 cb 0 1) k)"
proof (rule goes_step)
  have live: "this_live [Some (mainf None)] (Some 0)" by (simp add: this_live_def at_def)
  have fid: "fid_of [Some (mainf None)] (Some 0) = 0" "show_nat 1 = ''1''"
    by (simp_all add: fid_of_def at_def mainf_def main_fiber_def show_nat.simps digit_chars)
  fix l assume "flog_ok E l"
  from NewFiber_wrote [OF assms this live, of cb 0 0 1 "Some 0" "[]" k] fid obtain l' where
    "exec_frame E (Act (NewFiber cb 0)) (W [Some (mainf None)] 0 1 (Some 0) (Some 0) [] k l) = (Inr (), T None (fresh_fiber E 1 cb 0 1) k l')"
    "wrote E [(0, fe_logger E, DEBUG, ''sylar/fiber.cc'', 72, ''Fiber::Fiber id=1'')] l l'" by (auto simp: T_def)
  then show "\<exists>l'. fiber_step E (W [Some (mainf None)] 0 1 (Some 0) (Some 0) [] (Act (NewFiber cb 0) # k) l) (T None (fresh_fiber E 1 cb 0 1) k l') \<and>
      wrote E [(0, fe_logger E, DEBUG, ''sylar/fiber.cc'', 72, ''Fiber::Fiber id=1'')] l l'"
    using step_W [OF assms] by blast
qed

lemma DropHandle_goes:
  assumes "fenv_ok E" and "fb_id f = 1" and "fb_use f = 1" and "fb_stack f" and "fb_state f = TERM'"
  shows "goes E r [(0, fe_logger E, DEBUG, ''sylar/fiber.cc'', 92, ''Fiber::~Fiber id=1'')]
     (T cx f (Act (DropHandle 1) # k)) (\<lambda>l. W [Some (mainf cx), None] 1 1 (Some 0) (Some 0) [] k l)"
proof (rule goes_step)
  let ?fs = "[Some (mainf cx), Some f]"
  have at: "at ?fs 1 = Some f" "this_live ?fs (Some 0)" by (simp_all add: this_live_def at_demo)
  have fid: "fid_of (?fs[1 := Some (f\<lparr>fb_use := 0\<rparr>)]) (Some 0) = 0" "show_nat 1 = ''1''"
    by (simp_all add: fid_of_def at_demo mainf_def main_fiber_def show_nat.simps digit_chars)
  fix l assume "flog_ok E l"
  from release_destroys_wrote [OF at(1) assms(3,4) disjI1 [OF assms(5)] at(2) this, of 1 2 "Some 0" "[]" k] fid assms(2) obtain l' where
    l': "release E 1 (W ?fs 1 2 (Some 0) (Some 0) [] k l) = (Inr (), W [Some (mainf cx), None] 1 1 (Some 0) (Some 0) [] k l')"
    "wrote E [(0, fe_logger E, DEBUG, ''sylar/fiber.cc'', 92, ''Fiber::~Fiber id=1'')] l l'" by auto
  then have "exec_frame E (Act (DropHandle 1)) (T cx f k l) = (Inr (), W [Some (mainf cx), None] 1 1 (Some 0) (Some 0) [] k l')"
    by (simp add: T_def with_handle_def comp_simps)
  with l'(2) show "\<exists>l'. fiber_step E (T cx f (Act (DropHandle 1) # k) l) (W [Some (mainf cx), None] 1 1 (Some 0) (Some 0) [] k l') \<and>
      wrote E [(0, fe_logger E, DEBUG, ''sylar/fiber.cc'', 92, ''Fiber::~Fiber id=1'')] l l'"
    unfolding T_def using step_W [OF assms(1)] by blast
qed

lemma exit_wrote:
  assumes "flog_ok E l"
  shows "\<exists>l'. Fiber_thread_exit E (W [Some (mainf cx), x] n c (Some 0) (Some 0) hs k l) =
      (Inr (), W [None, x] n (c - 1) None None hs k l') \<and>
     wrote E [(0, fe_logger E, DEBUG, ''sylar/fiber.cc'', 92, ''Fiber::~Fiber id=0'')] l l'"
proof -
  let ?fs = "[Some (mainf cx\<lparr>fb_use := 0\<rparr>), x]"
  have live: "this_live ?fs None" by (simp add: this_live_def)
  have z: "fid_of ?fs None = 0" "show_nat 0 = ''0''" by (simp_all add: fid_of_def show_nat.simps digit_chars)
  from fiber_log_wrote [OF live assms, of DEBUG 92 "''Fiber::~Fiber id=0''" n "c - 1" None hs k] z obtain l' where
    "fiber_log E DEBUG 92 (''Fiber::~Fiber id=0'') (W ?fs n (c - 1) None None hs k l) = (Inr (), W ?fs n (c - 1) None None hs k l')"
    "wrote E [(0, fe_logger E, DEBUG, ''sylar/fiber.cc'', 92, ''Fiber::~Fiber id=0'')] l l'" by auto
  with z(2) show ?thesis
    by (simp add: Fiber_thread_exit_def set_threadFiber_def Let_def comp_simps release_def Fiber_dtor_def mainf_def main_fiber_def at_demo)
qed

section \<open>The program\<close>

abbreviation LOG_INFO :: "i32 \<Rightarrow> string \<Rightarrow> action" where
  "LOG_INFO line msg \<equiv> LogRoot INFO ''tests/test_fiber.cc'' line msg"

definition run_in_fiber :: "action list" where
  "run_in_fiber =
     [LOG_INFO 6 ''run_in_fiber begin'', CallYieldToHold, LOG_INFO 8 ''run_in_fiber end'', CallYieldToHold]"

text \<open>The objects of the thread are numbered in the order of their construction: the main fiber is 0, the fiber is 1.\<close>

definition test_fiber :: "action list" where
  "test_fiber =
     [LOG_INFO 13 ''main begin -1'', CallGetThis, LOG_INFO 17 ''main begin'', NewFiber (Some run_in_fiber) 0,
      SwapIn 1, LOG_INFO 20 ''main after swapIn'', SwapIn 1, LOG_INFO 22 ''main end'', SwapIn 1,
      DropHandle 1, LOG_INFO 25 ''main end2'']"

definition info :: "u32 \<Rightarrow> addr \<Rightarrow> i32 \<Rightarrow> string \<Rightarrow> record_entry" where
  "info fid r line msg = (fid, r, INFO, ''tests/test_fiber.cc'', line, msg)"

definition debug :: "addr \<Rightarrow> i32 \<Rightarrow> string \<Rightarrow> record_entry" where
  "debug g line msg = (0, g, DEBUG, ''sylar/fiber.cc'', line, msg)"

text \<open>The records of the run: those of the program with the fiber they come from, and those of the class.\<close>

definition test_records :: "addr \<Rightarrow> addr \<Rightarrow> record_entry list" where
  "test_records r g =
     [info 0 r 13 ''main begin -1'', debug g 51 ''Fiber::Fiber'', info 0 r 17 ''main begin'', debug g 72 ''Fiber::Fiber id=1'',
      info 1 r 6 ''run_in_fiber begin'', info 0 r 20 ''main after swapIn'', info 1 r 8 ''run_in_fiber end'',
      info 0 r 22 ''main end'', debug g 92 ''Fiber::~Fiber id=1'', info 0 r 25 ''main end2'']"

lemma test_fiber_goes:
  assumes E: "fenv_ok E"
  shows "goes E r (test_records r (fe_logger E)) (\<lambda>l. W [] 0 0 None None [] (map Act test_fiber) l)
     (\<lambda>l. W [Some (mainf (Some [Act (DropHandle 1), Act (LOG_INFO 25 ''main end2'')])), None] 1 1 (Some 0) (Some 0) [] [] l)"
proof -
  let ?k5 = "[Act (LOG_INFO 20 ''main after swapIn''), Act (SwapIn 1), Act (LOG_INFO 22 ''main end''), Act (SwapIn 1),
      Act (DropHandle 1), Act (LOG_INFO 25 ''main end2'')]"
  let ?k7 = "drop 2 ?k5" and ?k9 = "drop 4 ?k5"
  let ?f = "\<lambda>st cx cb u. \<lparr>fb_id = 1, fb_stacksize = stack_size_of E 0, fb_state = st, fb_ctx = Some cx, fb_stack = True, fb_cb = cb, fb_use = u\<rparr>"
  let ?acts = "Some run_in_fiber"
  let ?b1 = "[Act (LOG_INFO 8 ''run_in_fiber end''), Act CallYieldToHold, AfterCb 1]" and ?b2 = "[AfterCb 1]"
  have "goes E r [info 0 r 13 ''main begin -1''] (\<lambda>l. W [] 0 0 None None [] (map Act test_fiber) l)
      (\<lambda>l. W [] 0 0 None None [] (map Act (tl test_fiber)) l)"
    using LogRoot_goes [OF E, of "[]" None] by (simp add: test_fiber_def this_live_def fid_of_def info_def)
  also have "goes E r [debug (fe_logger E) 51 ''Fiber::Fiber''] \<dots>
      (\<lambda>l. W [Some (mainf None)] 0 1 (Some 0) (Some 0) [] (map Act (drop 2 test_fiber)) l)"
    using GetThis_goes [OF E, of r 0 0] by (simp add: test_fiber_def debug_def)
  also have "goes E r [info 0 r 17 ''main begin''] \<dots>
      (\<lambda>l. W [Some (mainf None)] 0 1 (Some 0) (Some 0) [] (map Act (drop 3 test_fiber)) l)"
    using LogRoot_goes [OF E, of "[Some (mainf None)]" "Some 0"]
    by (simp add: test_fiber_def this_live_def fid_of_def info_def at_def mainf_def main_fiber_def)
  also have "goes E r [debug (fe_logger E) 72 ''Fiber::Fiber id=1''] \<dots> (T None (?f INIT [MainFunc] ?acts 1) (Act (SwapIn 1) # ?k5))"
    using NewFiber_goes [OF E, of r ?acts] by (simp add: test_fiber_def debug_def fresh_fiber_def)
  also have "goes E r [] \<dots> (R (Some ?k5) (?f EXEC [MainFunc] ?acts 1) [MainFunc])"
    using T_swapIn [OF E, of "?f INIT [MainFunc] ?acts 1"] by simp
  also have "goes E r [] \<dots> (R (Some ?k5) (?f EXEC [MainFunc] ?acts 2) (map Act run_in_fiber @ [AfterCb 1]))"
    using R_start [OF E, of "?f EXEC [MainFunc] ?acts 1"] by (simp add: numeral_2_eq_2)
  also have "goes E r [info 1 r 6 ''run_in_fiber begin''] \<dots> (R (Some ?k5) (?f EXEC [MainFunc] ?acts 2) (Act CallYieldToHold # ?b1))"
    using R_log [OF E, of r "?f EXEC [MainFunc] ?acts 2"] by (simp add: run_in_fiber_def info_def)
  also have "goes E r [] \<dots> (T (Some ?k5) (?f HOLD (EndYield 1 # ?b1) ?acts 3) ?k5)"
    using R_yield [OF E, of r ?k5 "?f EXEC [MainFunc] ?acts 2"] by simp
  also have "goes E r [info 0 r 20 ''main after swapIn''] \<dots> (T (Some ?k5) (?f HOLD (EndYield 1 # ?b1) ?acts 3) (Act (SwapIn 1) # ?k7))"
    using T_log [OF E] by (simp add: info_def)
  also have "goes E r [] \<dots> (R (Some ?k7) (?f EXEC (EndYield 1 # ?b1) ?acts 2) ?b1)"
    using T_resume [OF E, of "?f HOLD (EndYield 1 # ?b1) ?acts 3"] by simp
  also have "goes E r [info 1 r 8 ''run_in_fiber end''] \<dots> (R (Some ?k7) (?f EXEC (EndYield 1 # ?b1) ?acts 2) (Act CallYieldToHold # ?b2))"
    using R_log [OF E, of r "?f EXEC (EndYield 1 # ?b1) ?acts 2"] by (simp add: info_def)
  also have "goes E r [] \<dots> (T (Some ?k7) (?f HOLD (EndYield 1 # ?b2) ?acts 3) ?k7)"
    using R_yield [OF E, of r ?k7 "?f EXEC (EndYield 1 # ?b1) ?acts 2"] by simp
  also have "goes E r [info 0 r 22 ''main end''] \<dots> (T (Some ?k7) (?f HOLD (EndYield 1 # ?b2) ?acts 3) (Act (SwapIn 1) # ?k9))"
    using T_log [OF E] by (simp add: info_def)
  also have "goes E r [] \<dots> (R (Some ?k9) (?f EXEC (EndYield 1 # ?b2) ?acts 2) ?b2)"
    using T_resume [OF E, of "?f HOLD (EndYield 1 # ?b2) ?acts 3"] by simp
  also have "goes E r [] \<dots> (T (Some ?k9) (?f TERM' [NeverReach] None 1) ?k9)"
    using R_return [OF E, of "?f EXEC (EndYield 1 # ?b2) ?acts 2"] by simp
  also have "goes E r [debug (fe_logger E) 92 ''Fiber::~Fiber id=1''] \<dots>
      (\<lambda>l. W [Some (mainf (Some ?k9)), None] 1 1 (Some 0) (Some 0) [] [Act (LOG_INFO 25 ''main end2'')] l)"
    using DropHandle_goes [OF E, of "?f TERM' [NeverReach] None 1"] by (simp add: debug_def)
  also have "goes E r [info 0 r 25 ''main end2''] \<dots> (\<lambda>l. W [Some (mainf (Some ?k9)), None] 1 1 (Some 0) (Some 0) [] [] l)"
    using LogRoot_goes [OF E, of "[Some (mainf (Some ?k9)), None]" "Some 0"]
    by (simp add: this_live_def fid_of_def info_def at_demo mainf_def main_fiber_def)
  finally show ?thesis by (simp add: test_records_def)
qed

lemma test_fiber_runs:
  assumes "fenv_ok E" and "fiber_init E s" and "fw_code s = map Act test_fiber"
  shows "\<exists>t u. (fiber_step E)\<^sup>*\<^sup>* s t \<and> fw_code t = [] \<and> fw_handles t = [] \<and> s_fiber_count t = 1 \<and>
     Fiber_thread_exit E t = (Inr (), u) \<and> s_fiber_count u = 0 \<and> (\<forall>i. fiber_at u i = None) \<and>
     w_cout (fw_log u) = w_cout (fw_log s) @
       concat (map (entry_text (fw_log s))
         (test_records (w_root (fw_log s)) (fe_logger E) @ [debug (fe_logger E) 92 ''Fiber::~Fiber id=0'']))"
proof -
  obtain l where s: "s = W [] 0 0 None None [] (map Act test_fiber) l" and l: "flog_ok E l"
    using assms(2,3) by (cases s) (auto simp: fiber_init_def)
  let ?m = "mainf (Some [Act (DropHandle 1), Act (LOG_INFO 25 ''main end2'')])"
  from test_fiber_goes [OF assms(1), of "w_root l"] l s obtain l1 where
    t: "(fiber_step E)\<^sup>*\<^sup>* s (W [Some ?m, None] 1 1 (Some 0) (Some 0) [] [] l1)" "wrote E (test_records (w_root l) (fe_logger E)) l l1"
    by (auto simp: goes_def)
  from exit_wrote [OF wrote_ok [OF t(2)], of "Some [Act (DropHandle 1), Act (LOG_INFO 25 ''main end2'')]" None 1 1 "[]" "[]"] obtain l2 where
    u: "Fiber_thread_exit E (W [Some ?m, None] 1 1 (Some 0) (Some 0) [] [] l1) = (Inr (), W [None, None] 1 0 None None [] [] l2)"
    "wrote E [debug (fe_logger E) 92 ''Fiber::~Fiber id=0''] l1 l2" by (auto simp: debug_def)
  have "\<forall>i. at [None, None] i = (None :: Fiber option)" by (simp add: at_def nth_Cons')
  with t(1) u(1) wrote_append [OF t(2) u(2)] s show ?thesis
    by (intro exI [of _ "W [Some ?m, None] 1 1 (Some 0) (Some 0) [] [] l1"] exI [of _ "W [None, None] 1 0 None None [] [] l2"])
      (simp add: wrote_def)
qed

text \<open>
  The thread of a \<open>Thread\<close> whose callback is a program, at the moment \<open>run\<close> calls it: it has no fibers, and its log records
  carry its identifier and its name. No other thread has used fibers: the counters are zero.
\<close>

definition callback_world :: "thread_env \<Rightarrow> action list thread_world \<Rightarrow> action list \<Rightarrow> fiber_world" where
  "callback_world E w acts =
     \<lparr>fw_fibers = [], s_fiber_id = 0, s_fiber_count = 0, t_fiber = None, t_threadFiber = None, fw_handles = [],
      fw_code = map Act acts, fw_log = (tw_log w)\<lparr>w_tid := ucast (te_tid E), w_tname := Thread_GetName (tw_tls w)\<rparr>\<rparr>"

lemma flog_ok_thread: "flog_ok E l \<Longrightarrow> flog_ok E (l\<lparr>w_tid := x, w_tname := n\<rparr>)"
proof -
  have "logger_at (l\<lparr>w_tid := x, w_tname := n\<rparr>) = logger_at l" "appender_at (l\<lparr>w_tid := x, w_tname := n\<rparr>) = appender_at l"
    by (simp_all add: fun_eq_iff logger_at_def appender_at_def)
  then show "flog_ok E l \<Longrightarrow> ?thesis"
    by (simp add: flog_ok_def log_ok_def log_inv_def wf_log_def logger_ok_def dates_ok_def logger_name_def)
qed

lemma at_callback:
  assumes "reachable (thread_init (Some acts) name) (thread_step E name) w" and "tw_run w = Some CallCb"
  shows "tw_cb w = Some acts" and "Thread_GetName (tw_tls w) = (if name = [] then ''UNKNOW'' else name)" and "th_id (tw_obj w) = te_tid E"
  using thread_start.reach_inv [OF assms(1)] assms(2) by (auto simp: thread_inv_def run_ok_def Thread_GetName_def)

text \<open>C9: the program \<open>src/tests/test_fiber.cc\<close>, whose threads have \<open>test_fiber\<close> as their callback. When \<open>Thread::run\<close> calls it, whatever the
  interleaving before, with logging in any valid state, it takes finitely many steps, none of which fails, until its code is used up; then its
  fiber is destroyed and only the main fiber counts, and the end of the thread destroys that one too. On the console are, in this order, the
  lines of the thread and of its fiber, which alternate at each \<open>swapIn\<close> and yield, and the records the class writes on construction and
  destruction, each with the name and identifier of the thread and the identifier of the fiber. The counters of fibers, which the
  threads of the process share, are those of a process in which no other thread has used fibers.\<close>

theorem test_fiber_output:
  assumes "reachable (thread_init (Some test_fiber) name) (thread_step TE name) w" and "tw_run w = Some CallCb"
    and "fenv_ok E" and "flog_ok E (tw_log w)"
  shows "\<exists>acts s t u. tw_cb w = Some acts \<and> s = callback_world TE w acts \<and>
     w_tname (fw_log s) = (if name = [] then ''UNKNOW'' else name) \<and> w_tid (fw_log s) = ucast (Thread_getID (tw_obj w)) \<and>
     (fiber_step E)\<^sup>*\<^sup>* s t \<and> fw_code t = [] \<and> fw_handles t = [] \<and> s_fiber_count t = 1 \<and>
     Fiber_thread_exit E t = (Inr (), u) \<and> s_fiber_count u = 0 \<and> (\<forall>i. fiber_at u i = None) \<and>
     w_cout (fw_log u) = w_cout (tw_log w) @
       concat (map (entry_text (fw_log s))
         (test_records (w_root (tw_log w)) (fe_logger E) @ [debug (fe_logger E) 92 ''Fiber::~Fiber id=0'']))"
proof -
  let ?s = "callback_world TE w test_fiber"
  note cb = at_callback [OF assms(1,2)]
  have "fiber_init E ?s"
    using flog_ok_thread [OF assms(4)]
    by (simp add: fiber_init_def callback_world_def test_fiber_def run_in_fiber_def thread_action_def flat_cb_def)
  from test_fiber_runs [OF assms(3) this] obtain t u where
    "(fiber_step E)\<^sup>*\<^sup>* ?s t" "fw_code t = []" "fw_handles t = []" "s_fiber_count t = 1" "Fiber_thread_exit E t = (Inr (), u)"
    "s_fiber_count u = 0" "\<forall>i. fiber_at u i = None"
    "w_cout (fw_log u) = w_cout (tw_log w) @
       concat (map (entry_text (fw_log ?s)) (test_records (w_root (tw_log w)) (fe_logger E) @ [debug (fe_logger E) 92 ''Fiber::~Fiber id=0'']))"
    by (auto simp: callback_world_def)
  with cb show ?thesis
    by (intro exI [of _ test_fiber] exI [of _ ?s] exI [of _ t] exI [of _ u]) (simp add: callback_world_def Thread_getID_def)
qed

text \<open>A thread that has just reached its callback, for the instance.\<close>

lemma callback_reachable:
  "\<exists>w. reachable (thread_init (Some acts) ''name_0'') (thread_step demo_thread_env ''name_0'') w \<and> tw_run w = Some CallCb \<and>
     tw_log w = start_world"
proof -
  let ?r = "reachable (thread_init (Some acts) ''name_0'') (thread_step demo_thread_env ''name_0'')"
  let ?at = "\<lambda>pc w. ?r w \<and> tw_run w = Some pc \<and> tw_log w = start_world \<and> th_semaphore (tw_obj w) = 0"
  let ?w0 = "\<lparr>tw_obj = Thread_init (Some acts) ''name_0'', tw_parent = Creating, tw_run = None, tw_tls = tls_new, tw_os_name = [], tw_cb = None,
      tw_calls = [], tw_detached = False, tw_log = start_world\<rparr>"
  let ?w1 = "?w0\<lparr>tw_obj := (tw_obj ?w0)\<lparr>th_thread := 1\<rparr>, tw_run := Some SetThis\<rparr>"
  have r: "?r ?w0" by (rule reach_init) (simp add: thread_init_def)
  have "Thread_create demo_thread_env ''name_0'' 0 1 ?w0 = (Inr (), ?w1)" by (simp add: Thread_create_def modify_def)
  then have "thread_step demo_thread_env ''name_0'' ?w0 (?w1\<lparr>tw_parent := Waiting\<rparr>)"
    by (rule create_ok [rotated 2]) simp_all
  with r have "?r (?w1\<lparr>tw_parent := Waiting\<rparr>)" by (rule reach_step)
  then have 0: "\<exists>w. ?at SetThis w" by (intro exI [of _ "?w1\<lparr>tw_parent := Waiting\<rparr>"]) (simp add: Thread_init_def)
  have nxt: "\<exists>w. ?at pc' w" if "\<exists>w. ?at pc w" "pc' \<noteq> pc"
    "\<And>w. ?at pc w \<Longrightarrow> \<exists>w'. Thread_run demo_thread_env pc w = (Inr pc', w') \<and> tw_log w' = start_world \<and> th_semaphore (tw_obj w') = 0" for pc pc'
  proof -
    from that(1) obtain w where w: "?at pc w" by blast
    from that(3) [OF w] obtain w' where w': "Thread_run demo_thread_env pc w = (Inr pc', w')" "tw_log w' = start_world" "th_semaphore (tw_obj w') = 0"
      by blast
    have "thread_step demo_thread_env ''name_0'' w (w'\<lparr>tw_run := Some pc'\<rparr>)"
      using w by (intro thread_step.run [OF _ w'(1) that(2)]) simp
    with w have "?r (w'\<lparr>tw_run := Some pc'\<rparr>)" by (blast intro: reach_step)
    with w' show ?thesis by (intro exI [of _ "w'\<lparr>tw_run := Some pc'\<rparr>"]) simp
  qed
  have "\<exists>w. ?at Notify w"
    by (rule nxt [of SwapCb], rule nxt [of SetOsName], rule nxt [of SetId], rule nxt [of SetThreadName], rule nxt [of SetThis], rule 0) auto
  then obtain w where w: "?at Notify w" by blast
  then have "Thread_run demo_thread_env Notify w = (Inr CallCb, w\<lparr>tw_obj := (tw_obj w)\<lparr>th_semaphore := 1\<rparr>\<rparr>)"
    by (simp add: Semaphore_notify_def SEM_VALUE_MAX_def)
  with w have "thread_step demo_thread_env ''name_0'' w (w\<lparr>tw_obj := (tw_obj w)\<lparr>th_semaphore := 1\<rparr>, tw_run := Some CallCb\<rparr>)"
    using thread_step.run [of w Notify] by fastforce
  with w have "?r (w\<lparr>tw_obj := (tw_obj w)\<lparr>th_semaphore := 1\<rparr>, tw_run := Some CallCb\<rparr>)" by (blast intro: reach_step)
  with w show ?thesis
    by (intro exI [of _ "w\<lparr>tw_obj := (tw_obj w)\<lparr>th_semaphore := 1\<rparr>, tw_run := Some CallCb\<rparr>"]) auto
qed

text \<open>What the console shows for one record of that thread.\<close>

lemma log_shown_thread: "log_shown (l\<lparr>w_tid := x, w_tname := n\<rparr>) logger level ev = log_shown l logger level ev"
proof -
  have at: "logger_at (l\<lparr>w_tid := x, w_tname := n\<rparr>) = logger_at l" "appender_at (l\<lparr>w_tid := x, w_tname := n\<rparr>) = appender_at l"
    by (simp_all add: fun_eq_iff logger_at_def appender_at_def)
  have "shown console_text (l\<lparr>w_tid := x, w_tname := n\<rparr>) k level ev = shown console_text l k level ev" for k
    by (simp add: fun_eq_iff shown_def record_text_def at logger_name_def [abs_def] split: option.splits)
  then have "own_shown (l\<lparr>w_tid := x, w_tname := n\<rparr>) k level ev = own_shown l k level ev" for k
    by (simp add: own_shown_def at split: option.splits)
  then show ?thesis by (auto simp: log_shown_def at split: option.splits)
qed

definition thread_line :: "string \<Rightarrow> string \<Rightarrow> string \<Rightarrow> string \<Rightarrow> string" where
  "thread_line fid lev place msg =
     ''now'' @ tab @ ''42'' @ tab @ ''name_0'' @ tab @ fid @ tab @ ''['' @ lev @ '']'' @ tab @ ''[root]'' @ tab @ place @ tab @ msg @ newline"

lemma start_shown:
  "log_shown start_world 0 level (LogEvent_getSS_put msg (LogEvent_new 0 level path line 0 42 fid 1000 ''name_0'')) =
     (if DEBUG \<le> level then thread_line (show_nat (unat fid)) (LogLevel_ToString level) (path @ '':'' @ show_int (sint line)) msg else [])"
proof -
  have "show_nat 42 = ''42''" by (simp add: show_nat.simps digit_chars)
  then show ?thesis
    by (simp add: thread_line_def log_shown_def own_shown_def logger_at_def fresh_logger_def shown_def appender_at_def
        console_appender_def record_text_def LogFormatter_format_def default_formatter_def console_text_def
        LogEvent_new_def LogEvent_getSS_put_def logger_name_def)
qed

lemma thread_entry:
  assumes "l = start_world\<lparr>w_tid := 42, w_tname := ''name_0''\<rparr>"
  shows "entry_text l (info fid 0 line msg) =
     thread_line (show_nat (unat fid)) ''INFO'' (''tests/test_fiber.cc:'' @ show_int (sint line)) msg"
  and "entry_text l (debug 0 line msg) =
     thread_line (show_nat 0) ''DEBUG'' (''sylar/fiber.cc:'' @ show_int (sint line)) msg"
  unfolding assms info_def debug_def entry_text.simps log_shown_thread
  using start_shown by (simp_all add: Level_order)

theorem test_fiber_output_witness:
  "\<exists>w s t u. s = callback_world demo_thread_env w test_fiber \<and> (fiber_step demo_env)\<^sup>*\<^sup>* s t \<and> fw_code t = [] \<and>
     Fiber_thread_exit demo_env t = (Inr (), u) \<and>
     w_cout (fw_log u) =
       thread_line ''0'' ''INFO'' ''tests/test_fiber.cc:13'' ''main begin -1'' @
       thread_line ''0'' ''DEBUG'' ''sylar/fiber.cc:51'' ''Fiber::Fiber'' @
       thread_line ''0'' ''INFO'' ''tests/test_fiber.cc:17'' ''main begin'' @
       thread_line ''0'' ''DEBUG'' ''sylar/fiber.cc:72'' ''Fiber::Fiber id=1'' @
       thread_line ''1'' ''INFO'' ''tests/test_fiber.cc:6'' ''run_in_fiber begin'' @
       thread_line ''0'' ''INFO'' ''tests/test_fiber.cc:20'' ''main after swapIn'' @
       thread_line ''1'' ''INFO'' ''tests/test_fiber.cc:8'' ''run_in_fiber end'' @
       thread_line ''0'' ''INFO'' ''tests/test_fiber.cc:22'' ''main end'' @
       thread_line ''0'' ''DEBUG'' ''sylar/fiber.cc:92'' ''Fiber::~Fiber id=1'' @
       thread_line ''0'' ''INFO'' ''tests/test_fiber.cc:25'' ''main end2'' @
       thread_line ''0'' ''DEBUG'' ''sylar/fiber.cc:92'' ''Fiber::~Fiber id=0''"
proof -
  obtain w where w: "reachable (thread_init (Some test_fiber) ''name_0'') (thread_step demo_thread_env ''name_0'') w" "tw_run w = Some CallCb"
    "tw_log w = start_world" using callback_reachable [of test_fiber] by (elim exE conjE) (rule that)
  let ?s = "callback_world demo_thread_env w test_fiber"
  have root: "w_root (tw_log w) = 0" "fe_logger demo_env = 0" "w_cout (tw_log w) = []" using w(3) by (simp_all add: demo_env_def)
  have "flog_ok demo_env (tw_log w)" using w(3) start_world_flog by simp
  from test_fiber_output [OF w(1,2) demo_env_ok this] obtain acts s t u where
    "tw_cb w = Some acts" "s = callback_world demo_thread_env w acts" and
    tu: "(fiber_step demo_env)\<^sup>*\<^sup>* s t" "fw_code t = []" "Fiber_thread_exit demo_env t = (Inr (), u)"
    "w_cout (fw_log u) = concat (map (entry_text (fw_log s)) (test_records 0 0 @ [debug 0 92 ''Fiber::~Fiber id=0'']))"
    unfolding root append_Nil by blast
  then have s: "s = ?s" using at_callback(1) [OF w(1,2)] by simp
  have "fw_log ?s = start_world\<lparr>w_tid := 42, w_tname := ''name_0''\<rparr>"
    using at_callback(2) [OF w(1,2)] w(3) by (simp add: callback_world_def demo_thread_env_def)
  note line = thread_entry [OF this]
  have "show_nat 0 = ''0''" "show_nat 1 = ''1''" by (simp_all add: show_nat.simps digit_chars)
  moreover have "show_int 13 = ''13''" "show_int 51 = ''51''" "show_int 17 = ''17''" "show_int 72 = ''72''" "show_int 6 = ''6''"
    "show_int 20 = ''20''" "show_int 8 = ''8''" "show_int 22 = ''22''" "show_int 92 = ''92''" "show_int 25 = ''25''"
    by (simp_all add: show_int_def show_nat.simps digit_chars)
  ultimately show ?thesis using tu unfolding s
    by (intro exI [of _ w] exI [of _ ?s] exI [of _ t] exI [of _ u]) (simp add: test_records_def line)
qed

end
