(* ===== verification/Spec2Isabelle.thy ===== *)
theory Spec2Isabelle
  imports LogProperties LogFormatterRef LogConcurrent LogIteration ConfigProperties ConfigTyping ConfigConcurrent
    ConfigCallbacks LogConfigProperties Startup Program Thread ThreadLifetime Assertions FiberProperties FiberLogging
begin

text \<open>
  \<^bold>\<open>A verification of the sylar server framework.\<close>

  The program is a C++ library under \<open>src/sylar\<close>. It has five parts. \<^emph>\<open>Logging\<close> (\<open>log.h\<close>, \<open>log.cc\<close>): log statements
  create events, a logger passes them to its appenders or to the root logger, an appender writes them through a
  formatter that was parsed from a pattern. \<^emph>\<open>Configuration\<close> (\<open>config.h\<close>, \<open>config.cc\<close>): named variables of any type with
  conversions from and to YAML text, listeners, and a registry that is updated from YAML trees; it reports through logging, and
  logging is itself configured by the variable \<open>logs\<close>. \<^emph>\<open>Locks and threads\<close> (\<open>thread.h\<close>, \<open>thread.cc\<close>): the mutexes
  and guards the other parts use, and threads with a start-up handshake. \<^emph>\<open>Fibers\<close> (\<open>fiber.h\<close>, \<open>fiber.cc\<close>): coroutines
  switched by \<open>swapcontext\<close>, which log their life cycle. \<^emph>\<open>Utilities\<close> (\<open>util.cc\<close>, \<open>macro.h\<close>): stack traces and assertions.
  Global objects in four of the files tie the parts together: the manager of the loggers is a singleton (\<open>singleton.h\<close>),
  \<open>log.cc\<close> defines the variable \<open>logs\<close> with its listener, \<open>fiber.cc\<close> the variable \<open>fiber.stack_size\<close>.

  \<^bold>\<open>How the code is modelled.\<close> A C++ operation is a computation on an explicit state that returns a value or fails
  (\<open>comp\<close> in \<open>Prelude\<close>); the state survives a failure. Failures are exceptions, failed assertions, null pointers, locks the
  thread already holds, and whatever has no defined result. Objects live in stores and pointers are addresses, so sharing and
  destruction are visible. Integers whose width matters are words. A \<open>std::map\<close> is an association list in key order. Definitions
  carry the names of the functions they translate, with the class in front: \<open>Logger_addAppender\<close> is \<open>Logger::addAppender\<close>.

  \<^bold>\<open>The theories.\<close>

  \<^item> \<open>Prelude\<close>: machine integers, failures and computations, pieces of the standard library, the locale
    \<open>ordered_map\<close>, reachable states and the locale \<open>transition_system\<close> with the invariant rule. Each component
    below with a life of its own interprets it: \<open>logging\<close>, \<open>iteration\<close>, \<open>configuration\<close>, \<open>typed_config\<close>, \<open>rwmutex\<close>,
    \<open>caslock\<close>, \<open>thread_start\<close>, \<open>thread_life\<close>, \<open>fibers\<close>.
  \<^item> \<open>LogLevel\<close>, \<open>LogEvent\<close>, \<open>LogFormatter\<close>: levels, events, the pattern parser and the items it produces.
  \<^item> \<open>LogStore\<close>, \<open>LogAppender\<close>, \<open>Logger\<close>: the state of logging with its file system, the appenders (their common
    contract is the locale \<open>appender_contract\<close>), loggers, the manager, and the logging macros.
  \<^item> \<open>LoggerOps\<close>, \<open>LogProperties\<close>: the operations evaluated and their invariant; delivery of records, the exact language of
    patterns, printing and parsing of patterns, file reopening, registration, formatters, levels.
  \<^item> \<open>LogFormatterRef\<close>: a recursive reference parser of patterns, and its equivalence with the index-based one of the code.
  \<^item> \<open>Yaml\<close>, \<open>YamlInstance\<close>: YAML nodes, and yaml-cpp as a parameter with the laws the sources rely on; an instance that satisfies them.
  \<^item> \<open>LexicalCast\<close>, \<open>Config\<close>, \<open>ConfigOps\<close>, \<open>ConfigProperties\<close>: the container conversions, variables and registry; the invariant of the
    registry, what loading a file does, lookups, notifications, listeners, and round trips of the conversions.
  \<^item> \<open>ConfigTyping\<close>: programs that hold typed pointers to variables; their types are sound.
  \<^item> \<open>LogConfig\<close>, \<open>LogConfigOps\<close>, \<open>LogConfigProperties\<close>: definitions of loggers as text, the listener that applies
    them, the dump of the live loggers; that a change brings the loggers in line (levels, formatters and appenders),
    that a definition left unchanged crashes, and round trips.
  \<^item> \<open>Locks\<close>: semaphore, mutexes, guards; mutual exclusion under every interleaving of any number of threads (the
    locale \<open>exclusive_lock\<close>, interpreted for \<open>Mutex\<close> and \<open>Spinlock\<close>), readers and writers, and a simulation of \<open>CASLock\<close> by \<open>Spinlock\<close>.
  \<^item> \<open>LockPrograms\<close>, \<open>LogConcurrent\<close>: threads whose programs take locks in nested scopes and write under them, in the
    contract \<open>exclusive_lock\<close>: no deadlock when the locks are ordered, completion, and output in whole sections; the calls of
    logging as such programs.
  \<^item> \<open>LogIteration\<close>: the loop of \<open>Logger::log\<close>, access by access, while other threads reconfigure the loggers.
  \<^item> \<open>ConfigConcurrent\<close>: the two critical sections of \<open>setValue\<close>, interleaved, with listeners that leave a trace.
  \<^item> \<open>ConfigCallbacks\<close>: which calls of the configuration a listener or the function given to \<open>Visit\<close> can make, under the
    lock its caller holds.
  \<^item> \<open>Thread\<close>, \<open>ThreadLifetime\<close>: the constructor and \<open>run\<close> interleaved; what holds when the constructor returns, and that
    it does; callbacks that return, throw or never return; the destruction of the object while the new thread runs.
  \<^item> \<open>Util\<close>, \<open>Assertions\<close>: stack traces and assertions; what a failed assertion writes before it ends the process.
  \<^item> \<open>Fiber\<close>, \<open>FiberOps\<close>, \<open>FiberInv\<close>, \<open>FiberParked\<close>, \<open>FiberProperties\<close>: fibers as a machine whose contexts are lists of frames, every
    operation evaluated, the invariant and the exact condition of every step, the main fiber after the thread has yielded, and from
    these: counting, safe destruction, completion, and the misuses that end the process.
  \<^item> \<open>FiberLogging\<close>: fibers, logging and threads together: the records of a fiber carry its identifier, and the program
    \<open>src/tests/test_fiber.cc\<close> as the callback of a thread, from its start to its end, with all it writes on the console.
  \<^item> \<open>Startup\<close>, \<open>Program\<close>: the singleton and the static initialisers of the four files in any order; loading a configuration file
    for the whole program; and the fibers of a process that has been started and configured.

  \<^bold>\<open>Bounds and termination.\<close> Every definition is total and none uses fuel. \<open>Logger_log\<close> recurses over the loggers
  whose lock is free, the pattern parser over the rest of the pattern, \<open>push_strings\<close> over the rest of the array. Executions of fibers are step
  sequences of any length, and a theorem that something is reached exhibits the sequence. The protocol of the start and join of a
  thread takes at most eleven steps, not counting what its callback does.

  \<^bold>\<open>Parameters.\<close> yaml-cpp, \<open>boost::lexical_cast\<close>, \<open>vasprintf\<close>, \<open>strftime\<close>, the stack traces of glibc, \<open>what()\<close>, the iteration
  order of unordered containers, memory allocation and the failure of the calls on contexts are arguments of the definitions; where
  a theorem needs something of them it is a named hypothesis (\<open>yaml_laws\<close>, \<open>cast_ok\<close>, \<open>env_ok\<close>, \<open>dates_ok\<close>, \<open>fenv_ok\<close>) and its witness
  gives an instance. \<open>env_ok\<close> asks that the listeners return and leave the configuration alone, which the program's own listener does
  not always do, and that conversions fail only with standard exceptions; the theorems on \<open>logs\<close> do without it. The POSIX locks, semaphores and threads are modelled by their documented behaviour.

  \<^bold>\<open>Not modelled.\<close> Memory orders and data races: all interleavings are sequentially consistent. \<open>LogConcurrent\<close> takes the
  configuration of the loggers as fixed while the threads run, and treats every appender as a stream of its own, although console
  appenders share \<open>std::cout\<close>; \<open>LogIteration\<close> lets the configuration change but treats the calls other than \<open>Logger::log\<close> as one
  step each; \<open>ConfigConcurrent\<close> treats each critical section of \<open>setValue\<close> as one step. Everything else on logging and configuration is about
  one thread at a time with the locks it holds. Buffering of file streams. The
  declarations in the headers and \<open>sylar.h\<close>, which only includes. The tests other than \<open>test_fiber.cc\<close>, which are example programs that
  print or loop for ever, and the files CMake generated under \<open>src/build\<close>. The counters of fibers are shared by all threads of a process;
  the model of fibers counts those of one thread, as if the other threads had none. The invariant of fibers is about programs that call \<open>swapIn\<close> from the code of the thread; what a
  \<open>swapIn\<close> from inside a callback does is the subject of a theorem of its own. Programs and callbacks appear as the lists of the
  calls they make, so whether their own loops end is left open. The value of \<open>fiber.stack_size\<close> is a parameter of the
  model of fibers, which \<open>Program\<close> instantiates with the configured one.
\<close>

end
